(* ===== verification/Prelude.thy ===== *)
theory Prelude
  imports Main "HOL-Library.Word"
begin

unbundle bit_operations_syntax

text \<open>
  Shared vocabulary of the development: the machine integer types of the driver, object
  identities standing for kernel pointers, the result type of code that may run into undefined
  behaviour, and the generic lemmas on results, lists and words that the components use.
\<close>

section \<open>Types\<close>

type_synonym u8 = "8 word"
type_synonym u16 = "16 word"
type_synonym u32 = "32 word"
type_synonym u64 = "64 word"
type_synonym c_int = "32 word" \<comment> \<open>a C \<open>int\<close> held in memory, read with \<open>sint\<close>\<close>

text \<open>
  A pointer to a kernel object is the identity of the object: allocation hands out an identity
  never used before, so a pointer to a freed object stays recognisable. \<open>0\<close> is the C \<open>NULL\<close>.
\<close>

type_synonym ptr = nat

abbreviation (input) NULL :: ptr where
  "NULL \<equiv> 0"

section \<open>Results of code that may fault\<close>

text \<open>
  \<open>Inl\<close> is undefined behaviour or a crash of the C code (the kernel oopses, or worse), never an
  error code: error codes are ordinary results.
\<close>

datatype fault =
    NullDeref        \<comment> \<open>a \<open>NULL\<close> pointer is dereferenced\<close>
  | DanglingDeref    \<comment> \<open>a pointer to a freed (or never created) object is dereferenced\<close>
  | OutOfBounds      \<comment> \<open>an array access outside the array\<close>
  | BadFree          \<comment> \<open>\<open>kfree\<close> of an object that is not live: a double free\<close>
  | ErrPtrDeref      \<comment> \<open>an \<open>ERR_PTR\<close> value is used as a pointer\<close>
  | Deadlock         \<comment> \<open>a spin lock is taken while it is held\<close>
  | UndefinedResult  \<comment> \<open>a kernel helper is called outside its documented domain\<close>

type_synonym 'a kres = "fault + 'a"

definition rbind :: "'a kres \<Rightarrow> ('a \<Rightarrow> 'b kres) \<Rightarrow> 'b kres" where
  "rbind r f = (case r of Inl e \<Rightarrow> Inl e | Inr x \<Rightarrow> f x)"

named_theorems kres_simps
  \<open>evaluation of faulting code: results, dereferences, array accesses\<close>
named_theorems heap_simps
  \<open>reading back a store through an update of it\<close>
named_theorems ring_simps
  \<open>arithmetic of circular buffers\<close>

lemma rbind_Inl [simp]: "rbind (Inl e) f = Inl e"
  by (simp add: rbind_def)

lemma rbind_Inr [simp]: "rbind (Inr x) f = f x"
  by (simp add: rbind_def)

lemma rbind_assoc: "rbind (rbind r f) g = rbind r (\<lambda>x. rbind (f x) g)"
  by (cases r) simp_all

lemma rbind_eq_Inr: "rbind r f = Inr y \<longleftrightarrow> (\<exists>x. r = Inr x \<and> f x = Inr y)"
  by (cases r) simp_all

lemma rbind_cong: "r = r' \<Longrightarrow> (\<And>x. r' = Inr x \<Longrightarrow> f x = g x) \<Longrightarrow> rbind r f = rbind r' g"
  by (cases r') simp_all

section \<open>Stores and arrays\<close>

definition deref :: "(ptr \<rightharpoonup> 'a) \<Rightarrow> ptr \<Rightarrow> 'a kres" where
  "deref m p =
     (if p = NULL then Inl NullDeref
      else case m p of None \<Rightarrow> Inl DanglingDeref | Some x \<Rightarrow> Inr x)"

definition kfree :: "(ptr \<rightharpoonup> 'a) \<Rightarrow> ptr \<Rightarrow> (ptr \<rightharpoonup> 'a) kres" where
  \<comment> \<open>freeing \<open>NULL\<close> is allowed and does nothing\<close>
  "kfree m p =
     (if p = NULL then Inr m
      else case m p of None \<Rightarrow> Inl BadFree | Some _ \<Rightarrow> Inr (m(p := None)))"

definition array_get :: "'a list \<Rightarrow> nat \<Rightarrow> 'a kres" where
  "array_get xs i = (if i < length xs then Inr (xs ! i) else Inl OutOfBounds)"

definition array_put :: "'a list \<Rightarrow> nat \<Rightarrow> 'a \<Rightarrow> 'a list kres" where
  "array_put xs i x = (if i < length xs then Inr (xs[i := x]) else Inl OutOfBounds)"

lemma deref_Some [kres_simps]: "m p = Some x \<Longrightarrow> p \<noteq> NULL \<Longrightarrow> deref m p = Inr x"
  by (simp add: deref_def)

lemma deref_NULL [kres_simps, simp]: "deref m NULL = Inl NullDeref"
  by (simp add: deref_def)

lemma deref_dangling [kres_simps]: "m p = None \<Longrightarrow> p \<noteq> NULL \<Longrightarrow> deref m p = Inl DanglingDeref"
  by (simp add: deref_def)

lemma deref_eq_Inr: "deref m p = Inr x \<longleftrightarrow> p \<noteq> NULL \<and> m p = Some x"
  by (auto simp: deref_def split: option.splits)

lemma kfree_NULL [kres_simps, simp]: "kfree m NULL = Inr m"
  by (simp add: kfree_def)

lemma kfree_live [kres_simps]: "m p = Some x \<Longrightarrow> p \<noteq> NULL \<Longrightarrow> kfree m p = Inr (m(p := None))"
  by (simp add: kfree_def)

lemma kfree_dead [kres_simps]: "m p = None \<Longrightarrow> p \<noteq> NULL \<Longrightarrow> kfree m p = Inl BadFree"
  by (simp add: kfree_def)

lemma array_get_in [kres_simps]: "i < length xs \<Longrightarrow> array_get xs i = Inr (xs ! i)"
  by (simp add: array_get_def)

lemma array_get_out [kres_simps]: "length xs \<le> i \<Longrightarrow> array_get xs i = Inl OutOfBounds"
  by (simp add: array_get_def)

lemma array_put_in [kres_simps]: "i < length xs \<Longrightarrow> array_put xs i x = Inr (xs[i := x])"
  by (simp add: array_put_def)

lemma array_put_out [kres_simps]: "length xs \<le> i \<Longrightarrow> array_put xs i x = Inl OutOfBounds"
  by (simp add: array_put_def)

lemma map_upd_restore: "m p = None \<Longrightarrow> (m(p \<mapsto> x))(p := None) = m"
  by auto

section \<open>Words\<close>

lemma unat_ucast_up:
  "LENGTH('a::len) \<le> LENGTH('b::len) \<Longrightarrow> unat (ucast (x :: 'a word) :: 'b word) = unat x"
  by (simp add: unsigned_ucast_eq take_bit_nat_eq_self_iff)
     (metis less_le_trans one_le_numeral power_increasing unsigned_less)

lemma unat_ucast_32_64 [simp]: "unat (ucast (x :: u32) :: u64) = unat x"
  by (rule unat_ucast_up) simp

lemma unat_ucast_64_32:
  "unat (x :: u64) < 2 ^ 32 \<Longrightarrow> unat (ucast x :: u32) = unat x"
  by (simp add: unsigned_ucast_eq take_bit_nat_eq_self_iff)

lemma unat_and_mask: "unat (w AND mask n) = unat w mod 2 ^ n"
  for w :: "'a::len word"
  unfolding take_bit_eq_mask [symmetric] unsigned_take_bit_eq by (rule take_bit_eq_mod)

lemma unat_ucast_mod:
  "unat (ucast (x :: 'a::len word) :: 'b::len word) = unat x mod 2 ^ LENGTH('b)"
  unfolding unsigned_ucast_eq unsigned_take_bit_eq by (rule take_bit_eq_mod)

lemma unat_exp2:
  assumes "k < LENGTH('a::len)"
  shows "unat (2 ^ k :: 'a word) = 2 ^ k"
proof -
  have "(2 :: nat) ^ k < 2 ^ LENGTH('a)"
    using assms by (intro power_strict_increasing) auto
  then show ?thesis
    using unat_of_nat [of "2 ^ k", where ?'a = 'a] by simp
qed

lemma unat_mask_exp2:
  assumes "k < LENGTH('a::len)"
  shows "unat (mask k :: 'a word) = 2 ^ k - 1"
proof -
  have "(2 ^ k :: 'a word) \<noteq> 0" using assms by simp
  then show ?thesis
    using unat_exp2 [OF assms] by (simp add: mask_eq_exp_minus_1 unat_minus_one)
qed

lemma sint_small:
  assumes "unat (x :: u32) < 2 ^ 31"
  shows "sint x = int (unat x)"
proof -
  have "int (unat x) < int (2 ^ 31)"
    using assms by (simp only: of_nat_less_iff)
  then have "uint x < 2 ^ 31" by simp
  moreover have "- (2 ^ 31) \<le> uint x"
    by (rule order_trans [of _ 0]) simp_all
  ultimately have "signed_take_bit 31 (uint x) = uint x"
    by (intro signed_take_bit_int_eq_self)
  then show ?thesis by (simp add: sint_uint)
qed

lemma scast_small:
  assumes "unat (x :: u32) < 2 ^ 31"
  shows "(scast x :: u64) = ucast x"
  unfolding scast_eq sint_small [OF assms] by simp

end
