(* ===== verification/Kernel_Lib.thy ===== *)
theory Kernel_Lib
  imports Prelude
begin

text \<open>
  The part of the kernel's own library of macros and inline functions that the driver is written
  in: what the C standard library is to a user program. Macros are given at the width C evaluates
  them at. Kernel services with a behaviour of their own (allocation, page pinning, threads, the
  device core) are not here: they are parameters of the operations that call them.
\<close>

section \<open>Constants of the RDMA core used by the driver\<close>

definition EINVAL :: int where "EINVAL = 22"

definition PAGE_SIZE :: u64 where "PAGE_SIZE = 4096"

definition IB_WC_SUCCESS :: u32 where "IB_WC_SUCCESS = 0"
definition IB_WC_RESP_TIMEOUT_ERR :: u32 where "IB_WC_RESP_TIMEOUT_ERR = 20"
definition IB_WC_SEND :: u32 where "IB_WC_SEND = 0"
definition IB_WC_RECV :: u32 where "IB_WC_RECV = 128"

definition IB_QP_STATE :: u32 where "IB_QP_STATE = 1"
definition IB_QP_PATH_MTU :: u32 where "IB_QP_PATH_MTU = 0x100"
definition IB_QP_DEST_QPN :: u32 where "IB_QP_DEST_QPN = 0x100000"

datatype ib_qp_state =
    IB_QPS_RESET | IB_QPS_INIT | IB_QPS_RTR | IB_QPS_RTS | IB_QPS_SQD | IB_QPS_SQE | IB_QPS_ERR

datatype ib_mtu = IB_MTU_256 | IB_MTU_512 | IB_MTU_1024 | IB_MTU_2048 | IB_MTU_4096

fun ib_mtu_enum_to_int :: "ib_mtu \<Rightarrow> u32" where
  "ib_mtu_enum_to_int IB_MTU_256 = 256"
| "ib_mtu_enum_to_int IB_MTU_512 = 512"
| "ib_mtu_enum_to_int IB_MTU_1024 = 1024"
| "ib_mtu_enum_to_int IB_MTU_2048 = 2048"
| "ib_mtu_enum_to_int IB_MTU_4096 = 4096"

section \<open>Circular buffer macros\<close>

text \<open>
  \<open>CIRC_CNT(head, tail, size)\<close> is \<open>(head - tail) & (size - 1)\<close> and \<open>CIRC_SPACE(head, tail, size)\<close>
  is \<open>CIRC_CNT(tail, head + 1, size)\<close>. The driver passes 64-bit copies of the indices and a
  32-bit size, so \<open>size - 1\<close> is computed in 32 bits and then widened.
\<close>

definition CIRC_CNT :: "u64 \<Rightarrow> u64 \<Rightarrow> u32 \<Rightarrow> u64" where
  "CIRC_CNT h t sz = (h - t) AND ucast (sz - 1)"

definition CIRC_SPACE :: "u64 \<Rightarrow> u64 \<Rightarrow> u32 \<Rightarrow> u64" where
  "CIRC_SPACE h t sz = CIRC_CNT t (h + 1) sz"

definition int_to_ulong :: "c_int \<Rightarrow> u64" where
  \<comment> \<open>a C \<open>int\<close> read into an \<open>unsigned long\<close> or \<open>u64\<close> is sign-extended\<close>
  "int_to_ulong i = scast i"

definition circ_next :: "u64 \<Rightarrow> u32 \<Rightarrow> c_int" where
  \<comment> \<open>the driver's \<open>(index + 1) & (sz - 1)\<close>, stored back into a C \<open>int\<close>\<close>
  "circ_next i sz = ucast ((i + 1) AND ucast (sz - 1))"

section \<open>Rounding up to a power of two\<close>

fun fls :: "nat \<Rightarrow> nat" where
  "fls n = (if n = 0 then 0 else Suc (fls (n div 2)))"

declare fls.simps [simp del]

definition roundup_pow_of_two :: "u64 \<Rightarrow> u64 kres" where
  \<comment> \<open>\<open>1UL << fls_long(n - 1)\<close>; documented as undefined for 0\<close>
  "roundup_pow_of_two n =
     (if n = 0 then Inl UndefinedResult else Inr (push_bit (fls (unat (n - 1))) 1))"

lemma fls_bounds: "n < 2 ^ fls n \<and> (n \<noteq> 0 \<longrightarrow> 2 ^ fls n \<le> 2 * n)"
proof (induction n rule: fls.induct)
  case (1 n)
  show ?case
  proof (cases "n = 0")
    case True
    then show ?thesis by (simp add: fls.simps [of 0])
  next
    case False
    with 1 have "n div 2 < 2 ^ fls (n div 2)"
      and "n div 2 \<noteq> 0 \<longrightarrow> 2 ^ fls (n div 2) \<le> 2 * (n div 2)" by simp_all
    with False show ?thesis
      by (cases "n div 2 = 0") (auto simp: fls.simps [of n] fls.simps [of "n div 2"] fls.simps [of 0])
  qed
qed

lemma fls_le: "n < 2 ^ k \<Longrightarrow> fls n \<le> k"
proof (induction k arbitrary: n)
  case 0
  then show ?case by (simp add: fls.simps [of 0])
next
  case (Suc k)
  then have "fls (n div 2) \<le> k" by simp
  then show ?case by (simp add: fls.simps [of n])
qed

lemma roundup_pow_of_two_spec:
  assumes n: "0 < unat n" "unat n \<le> 2 ^ 63"
  shows "\<exists>r k. roundup_pow_of_two n = Inr r \<and> unat r = 2 ^ k \<and> k = fls (unat n - 1)
           \<and> unat n \<le> unat r \<and> unat r < 2 * unat n"
proof -
  from n have n0: "n \<noteq> 0" by auto
  then have m: "unat (n - 1) = unat n - 1"
    by (rule unat_minus_one)
  let ?k = "fls (unat n - 1)"
  from n have "unat n - 1 < 2 ^ 63" by auto
  then have k: "?k \<le> 63" by (rule fls_le)
  then have "unat (push_bit ?k (1 :: u64)) = 2 ^ ?k"
    by (simp add: push_bit_eq_mult unat_exp2)
  moreover have "unat n \<le> 2 ^ ?k"
    using fls_bounds [of "unat n - 1"] by linarith
  moreover have "2 ^ ?k < 2 * unat n"
    using fls_bounds [of "unat n - 1"] n by (cases "unat n = 1") (auto simp: fls.simps [of 0])
  ultimately show ?thesis
    using n0 m by (simp add: roundup_pow_of_two_def)
qed

end
