(* ===== verification/Ring.thy ===== *)
theory Ring
  imports Kernel_Lib
begin

text \<open>
  Circular buffers. First the arithmetic of a ring over natural numbers and the list it holds,
  then the bridge to the kernel's circular buffer macros at their machine widths, and the
  interface that the completion queue and the work queue share, as a locale.
\<close>

section \<open>A ring as a list\<close>

definition ring_cnt :: "nat \<Rightarrow> nat \<Rightarrow> nat \<Rightarrow> nat" where
  "ring_cnt h t n = (h + n - t) mod n"

definition ring_list :: "'a list \<Rightarrow> nat \<Rightarrow> nat \<Rightarrow> nat \<Rightarrow> 'a list" where
  \<comment> \<open>the occupied slots from tail to head\<close>
  "ring_list xs h t n = map (\<lambda>i. xs ! ((t + i) mod n)) [0 ..< ring_cnt h t n]"

lemma length_ring_list [simp]: "length (ring_list xs h t n) = ring_cnt h t n"
  by (simp add: ring_list_def)

lemma ring_cnt_alt:
  "h < n \<Longrightarrow> t < n \<Longrightarrow> ring_cnt h t n = (if t \<le> h then h - t else h + n - t)"
  by (auto simp: ring_cnt_def le_mod_geq)

lemma ring_cnt_less: "0 < n \<Longrightarrow> ring_cnt h t n < n"
  by (simp add: ring_cnt_def)

lemma ring_cnt_same [simp]: "h < n \<Longrightarrow> ring_cnt h h n = 0"
  by (simp add: ring_cnt_alt)

lemma ring_cnt_eq_0: "h < n \<Longrightarrow> t < n \<Longrightarrow> ring_cnt h t n = 0 \<longleftrightarrow> h = t"
  by (auto simp: ring_cnt_alt)

lemma Suc_mod_alt: "h < n \<Longrightarrow> Suc h mod n = (if Suc h = n then 0 else Suc h)"
  by auto

lemma ring_cnt_push:
  assumes "h < n" "t < n" "ring_cnt h t n < n - 1"
  shows "ring_cnt (Suc h mod n) t n = Suc (ring_cnt h t n)"
  using assms by (auto simp: ring_cnt_alt Suc_mod_alt split: if_splits)

lemma ring_cnt_pop:
  assumes "h < n" "t < n" "h \<noteq> t"
  shows "Suc (ring_cnt h (Suc t mod n) n) = ring_cnt h t n"
  using assms by (auto simp: ring_cnt_alt Suc_mod_alt split: if_splits)

lemma add_mod_ring: "t < n \<Longrightarrow> i < n \<Longrightarrow> (t + i) mod n = (if t + i < n then t + i else t + i - n)"
  for n :: nat
  by (auto simp: le_mod_geq)

lemma ring_slot_free:
  assumes "h < n" "t < n" "i < ring_cnt h t n"
  shows "(t + i) mod n \<noteq> h"
  using assms by (auto simp: ring_cnt_alt add_mod_ring split: if_splits)

lemma ring_slot_head:
  assumes "h < n" "t < n"
  shows "(t + ring_cnt h t n) mod n = h"
  using assms by (auto simp: ring_cnt_alt add_mod_ring)

lemma ring_list_upd_free:
  assumes "h < n" "t < n" "length xs = n"
  shows "ring_list (xs[h := x]) h t n = ring_list xs h t n"
  unfolding ring_list_def
  by (intro map_cong refl nth_list_update_neq)
     (use assms in \<open>simp add: ring_slot_free [symmetric]\<close>)

lemma ring_list_push:
  assumes "h < n" "t < n" "length xs = n" "ring_cnt h t n < n - 1"
  shows "ring_list (xs[h := x]) (Suc h mod n) t n = ring_list xs h t n @ [x]"
proof -
  have "ring_list (xs[h := x]) (Suc h mod n) t n = ring_list (xs[h := x]) h t n @ [x]"
    using assms ring_slot_head [of h n t] by (simp add: ring_list_def ring_cnt_push)
  then show ?thesis
    using assms by (simp add: ring_list_upd_free)
qed

lemma ring_list_pop:
  assumes "h < n" "t < n" "h \<noteq> t"
  shows "ring_list xs h t n = xs ! t # ring_list xs h (Suc t mod n) n"
proof (rule nth_equalityI)
  show "length (ring_list xs h t n) = length (xs ! t # ring_list xs h (Suc t mod n) n)"
    using ring_cnt_pop [OF assms] by simp
  fix i assume i: "i < length (ring_list xs h t n)"
  show "ring_list xs h t n ! i = (xs ! t # ring_list xs h (Suc t mod n) n) ! i"
  proof (cases i)
    case 0
    with i assms(2) show ?thesis by (simp add: ring_list_def)
  next
    case (Suc j)
    with i ring_cnt_pop [OF assms] have "j < ring_cnt h (Suc t mod n) n" by simp
    with Suc i show ?thesis
      by (simp add: ring_list_def mod_add_left_eq)
  qed
qed

lemma ring_list_empty: "h < n \<Longrightarrow> ring_list xs h h n = []"
  by (simp add: ring_list_def)

section \<open>The macros at machine width\<close>

definition ring_size :: "u32 \<Rightarrow> bool" where
  \<comment> \<open>the sizes the driver sets up: a power of two whose indices fit a C \<open>int\<close>\<close>
  "ring_size sz \<longleftrightarrow> (\<exists>k \<le> 31. unat sz = 2 ^ k)"

lemma ring_size_pow: "k \<le> 31 \<Longrightarrow> ring_size (2 ^ k)"
  using unat_exp2 [of k, where ?'a = 32] by (auto simp: ring_size_def)

lemma ring_size_examples [simp]: "ring_size 2" "ring_size 4"
  using ring_size_pow [of 1] ring_size_pow [of 2] by simp_all

lemma ring_size_bounds: "ring_size sz \<Longrightarrow> 0 < unat sz \<and> unat sz \<le> 2 ^ 31"
  using power_increasing [of _ 31 "2 :: nat"] by (fastforce simp: ring_size_def)

lemma ring_mask:
  assumes "unat (sz :: u32) = 2 ^ k" "k \<le> 31"
  shows "(ucast (sz - 1) :: u64) = mask k"
proof -
  have "sz \<noteq> 0" using assms by auto
  then have "unat (ucast (sz - 1) :: u64) = 2 ^ k - 1"
    using assms by (simp add: unat_minus_one)
  moreover have "unat (mask k :: u64) = 2 ^ k - 1"
    using assms by (simp add: unat_mask_exp2)
  ultimately show ?thesis
    by (simp only: word_unat_eq_iff)
qed

lemma unat_diff_mod:
  fixes h t :: u64
  assumes "k \<le> 64"
  shows "unat (h - t) mod 2 ^ k = (unat h + 2 ^ 64 - unat t) mod 2 ^ k"
proof -
  have "unat t < 2 ^ 64" using unsigned_less [of t, where ?'a = nat] by simp
  then have eq: "unat (h - t) = (unat h + 2 ^ 64 - unat t) mod 2 ^ 64"
    using unsigned_less [of h, where ?'a = nat]
    by (cases "unat t \<le> unat h") (simp_all add: unat_sub_if' le_mod_geq)
  have "(2 :: nat) ^ k dvd 2 ^ 64"
    using assms by (rule le_imp_power_dvd)
  then show ?thesis
    by (simp only: eq mod_mod_cancel)
qed

lemma nat_diff_mod_exp:
  fixes h t :: nat
  assumes "k \<le> 64" "t \<le> h + 2 ^ k"
  shows "(h + 2 ^ 64 - t) mod 2 ^ k = (h + 2 ^ k - t) mod 2 ^ k"
proof -
  have "(2 :: nat) ^ 64 = 2 ^ k * 2 ^ (64 - k)"
    using assms(1) by (simp flip: power_add)
  also have "\<dots> = 2 ^ k + 2 ^ k * (2 ^ (64 - k) - 1)"
    by (simp add: algebra_simps)
  finally have "h + 2 ^ 64 - t = (h + 2 ^ k - t) + 2 ^ k * (2 ^ (64 - k) - 1)"
    using assms(2) by linarith
  then show ?thesis by (simp only: mod_mult_self2)
qed

lemma ring_space_alt:
  "h < n \<Longrightarrow> t < n \<Longrightarrow> (t + n - Suc h) mod n = n - 1 - ring_cnt h t n"
  by (auto simp: ring_cnt_alt le_mod_geq)

lemma CIRC_CNT_ring [ring_simps]:
  assumes "ring_size sz" "unat h < unat sz" "unat t < unat sz"
  shows "unat (CIRC_CNT h t sz) = ring_cnt (unat h) (unat t) (unat sz)"
proof -
  from assms(1) obtain k where k: "unat sz = 2 ^ k" "k \<le> 31" by (auto simp: ring_size_def)
  have "unat (CIRC_CNT h t sz) = unat (h - t) mod 2 ^ k"
    by (simp add: CIRC_CNT_def ring_mask [OF k] unat_and_mask)
  also have "\<dots> = (unat h + 2 ^ k - unat t) mod 2 ^ k"
    using k assms(3) by (simp only: unat_diff_mod nat_diff_mod_exp)
  finally show ?thesis by (simp add: ring_cnt_def k(1))
qed

lemma CIRC_SPACE_ring [ring_simps]:
  assumes "ring_size sz" "unat h < unat sz" "unat t < unat sz"
  shows "unat (CIRC_SPACE h t sz) = unat sz - 1 - ring_cnt (unat h) (unat t) (unat sz)"
proof -
  from assms(1) obtain k where k: "unat sz = 2 ^ k" "k \<le> 31" by (auto simp: ring_size_def)
  have "unat h < 2 ^ 31" using assms(2) ring_size_bounds [OF assms(1)] by linarith
  then have h: "unat (h + 1) = Suc (unat h)"
    by (simp add: unat_plus_if')
  have "unat (CIRC_SPACE h t sz) = unat (t - (h + 1)) mod 2 ^ k"
    by (simp add: CIRC_SPACE_def CIRC_CNT_def ring_mask [OF k] unat_and_mask)
  also have "\<dots> = (unat t + 2 ^ 64 - Suc (unat h)) mod 2 ^ k"
    using k h by (simp only: unat_diff_mod)
  also have "\<dots> = (unat t + unat sz - Suc (unat h)) mod unat sz"
    using k assms(2) by (simp only: nat_diff_mod_exp)
  finally show ?thesis
    using assms by (simp add: ring_space_alt)
qed

lemma circ_next_ring [ring_simps]:
  assumes "ring_size sz" "unat i < unat sz"
  shows "unat (circ_next i sz) = Suc (unat i) mod unat sz"
proof -
  from assms(1) obtain k where k: "unat sz = 2 ^ k" "k \<le> 31" by (auto simp: ring_size_def)
  have i: "unat i < 2 ^ 31" using assms(2) ring_size_bounds [OF assms(1)] by linarith
  then have "unat (i + 1) = Suc (unat i)"
    by (simp add: unat_plus_if')
  then have "unat ((i + 1) AND mask k) = Suc (unat i) mod unat sz"
    by (simp add: unat_and_mask k(1))
  moreover from i have "Suc (unat i) mod unat sz < 2 ^ 32"
    by (rule_tac le_less_trans [OF mod_less_eq_dividend]) simp
  ultimately show ?thesis
    by (simp add: circ_next_def ring_mask [OF k] unat_ucast_64_32)
qed

lemma int_to_ulong_ring [ring_simps]:
  assumes "ring_size sz" "unat i < unat sz"
  shows "unat (int_to_ulong i) = unat i"
proof -
  have "unat i < 2 ^ 31" using assms(2) ring_size_bounds [OF assms(1)] by linarith
  then show ?thesis by (simp add: int_to_ulong_def scast_small)
qed

lemma word_less_1_iff: "w < 1 \<longleftrightarrow> unat w = 0"
  for w :: "'a::len word"
  by (simp add: word_less_nat_alt)

lemma roundup_pow_of_two_ring_size:
  assumes "0 < unat n" "unat n \<le> 2 ^ 31" "roundup_pow_of_two n = Inr r"
  shows "ring_size (ucast r) \<and> unat (ucast r :: u32) = unat r
    \<and> unat n \<le> unat r \<and> unat r < 2 * unat n"
proof -
  have "unat n \<le> 2 ^ 63" using assms(2) by simp
  then obtain k where k: "unat r = 2 ^ k" "k = fls (unat n - 1)" "unat n \<le> unat r"
      "unat r < 2 * unat n"
    using roundup_pow_of_two_spec [of n] assms(1,3) by auto
  have "k \<le> 31" unfolding k(2) by (rule fls_le) (use assms in linarith)
  moreover from this have "(2 :: nat) ^ k < 2 ^ 32" by (intro power_strict_increasing) auto
  ultimately show ?thesis
    using k by (auto simp: ring_size_def unat_ucast_64_32)
qed

section \<open>The interface of a bounded queue\<close>

text \<open>
  What a user of a queue relies on: adding to a queue with room appends at the end and returns 0,
  adding to a full queue returns the driver's error code and changes nothing, and removing takes
  from the front. \<open>valid\<close> says which entries may be added; it may depend on the state, but
  queue operations do not take it away.
\<close>

datatype 'r queue_op = Put 'r | Get

fun drain :: "('s \<Rightarrow> ('a option \<times> 's) kres) \<Rightarrow> nat \<Rightarrow> 's \<Rightarrow> ('a list \<times> 's) kres" where
  "drain deq 0 s = Inr ([], s)"
| "drain deq (Suc n) s = rbind (deq s) (\<lambda>(r, s1).
     case r of None \<Rightarrow> Inr ([], s1)
     | Some x \<Rightarrow> rbind (drain deq n s1) (\<lambda>(xs, s2). Inr (x # xs, s2)))"

text \<open>A history of operations: the entries accepted, the entries delivered, the final state.\<close>

fun queue_run ::
  "('s \<Rightarrow> 'r \<Rightarrow> (int \<times> 's) kres) \<Rightarrow> ('s \<Rightarrow> 'r \<Rightarrow> 'a) \<Rightarrow> ('s \<Rightarrow> ('a option \<times> 's) kres)
    \<Rightarrow> 'r queue_op list \<Rightarrow> 's \<Rightarrow> ('a list \<times> 'a list \<times> 's) kres" where
  "queue_run enq item deq [] s = Inr ([], [], s)"
| "queue_run enq item deq (Put r # ops) s = rbind (enq s r) (\<lambda>(ret, s1).
     rbind (queue_run enq item deq ops s1) (\<lambda>(acc, out, s2).
       Inr (if ret = 0 then item s r # acc else acc, out, s2)))"
| "queue_run enq item deq (Get # ops) s = rbind (deq s) (\<lambda>(x, s1).
     rbind (queue_run enq item deq ops s1) (\<lambda>(acc, out, s2).
       Inr (acc, (case x of None \<Rightarrow> out | Some y \<Rightarrow> y # out), s2)))"

locale bounded_queue =
  fixes ok :: "'s \<Rightarrow> bool"
    and items :: "'s \<Rightarrow> 'a list"
    and cap :: "'s \<Rightarrow> nat"
    and valid :: "'s \<Rightarrow> 'r \<Rightarrow> bool"
    and item :: "'s \<Rightarrow> 'r \<Rightarrow> 'a"
    and enq :: "'s \<Rightarrow> 'r \<Rightarrow> (int \<times> 's) kres"
    and deq :: "'s \<Rightarrow> ('a option \<times> 's) kres"
  assumes items_bound: "ok s \<Longrightarrow> length (items s) \<le> cap s"
    and enq_room: "ok s \<Longrightarrow> valid s r \<Longrightarrow> length (items s) < cap s \<Longrightarrow>
      \<exists>s'. enq s r = Inr (0, s') \<and> ok s' \<and> items s' = items s @ [item s r] \<and> cap s' = cap s
        \<and> (\<forall>r'. valid s r' \<longrightarrow> valid s' r')"
    and enq_full: "ok s \<Longrightarrow> valid s r \<Longrightarrow> length (items s) = cap s \<Longrightarrow> enq s r = Inr (-42, s)"
    and deq_some: "ok s \<Longrightarrow> items s = x # xs \<Longrightarrow>
      \<exists>s'. deq s = Inr (Some x, s') \<and> ok s' \<and> items s' = xs \<and> cap s' = cap s
        \<and> (\<forall>r'. valid s r' \<longrightarrow> valid s' r')"
    and deq_none: "ok s \<Longrightarrow> items s = [] \<Longrightarrow> deq s = Inr (None, s)"
begin

lemma enq_cases:
  assumes "ok s" "valid s r"
  obtains (room) s' where "length (items s) < cap s" "enq s r = Inr (0, s')" "ok s'"
      "items s' = items s @ [item s r]" "cap s' = cap s" "\<forall>r'. valid s r' \<longrightarrow> valid s' r'"
    | (full) "length (items s) = cap s" "enq s r = Inr (-42, s)"
  using items_bound [OF assms(1)] enq_room [OF assms] enq_full [OF assms]
  by (cases "length (items s) < cap s") auto

lemma drain_items:
  "ok s \<Longrightarrow> \<exists>s'. drain deq n s = Inr (take n (items s), s') \<and> ok s' \<and> items s' = drop n (items s)
     \<and> cap s' = cap s"
proof (induction n arbitrary: s)
  case 0
  then show ?case by simp
next
  case (Suc n)
  show ?case
  proof (cases "items s")
    case Nil
    with Suc.prems show ?thesis by (simp add: deq_none)
  next
    case (Cons x xs)
    then obtain s1 where s1: "deq s = Inr (Some x, s1)" "ok s1" "items s1 = xs" "cap s1 = cap s"
      using deq_some Suc.prems by blast
    from Suc.IH [OF s1(2)] s1 Cons show ?thesis by auto
  qed
qed

text \<open>Nothing is lost, invented or reordered: what was accepted is what was or will be delivered.\<close>

lemma queue_run_fifo:
  assumes "ok s" "\<forall>r. Put r \<in> set ops \<longrightarrow> valid s r"
  shows "\<exists>acc out s'. queue_run enq item deq ops s = Inr (acc, out, s') \<and> ok s'
    \<and> items s @ acc = out @ items s' \<and> cap s' = cap s"
  using assms
proof (induction ops arbitrary: s)
  case Nil
  then show ?case by simp
next
  case (Cons op ops)
  show ?case
  proof (cases op)
    case (Put r)
    with Cons.prems have "ok s" and v: "valid s r" by auto
    then show ?thesis
    proof (cases rule: enq_cases)
      case (room s1)
      then have "\<forall>r. Put r \<in> set ops \<longrightarrow> valid s1 r" using Cons.prems by auto
      from Cons.IH [OF \<open>ok s1\<close> this] room Put show ?thesis by fastforce
    next
      case full
      from Cons.IH [OF \<open>ok s\<close>] Cons.prems full Put show ?thesis by fastforce
    qed
  next
    case Get
    show ?thesis
    proof (cases "items s")
      case Nil
      from Cons.IH [OF Cons.prems(1)] Cons.prems Get Nil show ?thesis
        by (fastforce simp: deq_none)
    next
      case (Cons x xs)
      then obtain s1 where s1: "deq s = Inr (Some x, s1)" "ok s1" "items s1 = xs"
          "cap s1 = cap s" "\<forall>r'. valid s r' \<longrightarrow> valid s1 r'"
        using deq_some Cons.prems(1) by blast
      then have "\<forall>r. Put r \<in> set ops \<longrightarrow> valid s1 r" using Cons.prems(2) by auto
      from Cons.IH [OF s1(2) this] s1 Get \<open>items s = x # xs\<close> show ?thesis by fastforce
    qed
  qed
qed

end

end
