(* ===== verification/Dis_Types.thy ===== *)
theory Dis_Types
  imports Kernel_Lib
begin

text \<open>
  The data model of \<open>dis_verbs.h\<close>: its constants, enumerations and structures, field by field,
  and the store of kernel objects the operations work on. A structure embedded in another one is a
  record inside a record; a pointer field holds the identity of the object it points to.
\<close>

section \<open>Limits\<close>

definition DIS_QP_INI :: u32 where "DIS_QP_INI = 100"
definition DIS_QP_MAX :: u32 where "DIS_QP_MAX = 200"
definition DIS_MR_INI :: u32 where "DIS_MR_INI = 0"
definition DIS_MR_MAX :: u32 where "DIS_MR_MAX = 100"
definition DIS_SGE_PER_WQE :: nat where "DIS_SGE_PER_WQE = 4"
definition DIS_MAX_IOVLEN :: u64 where "DIS_MAX_IOVLEN = 1024"
definition DIS_MSG_MAX :: u32 where "DIS_MSG_MAX = 20"
definition DIS_MSG_SIZE_MAX :: u64 where "DIS_MSG_SIZE_MAX = DIS_MAX_IOVLEN * PAGE_SIZE"

lemmas dis_limits = DIS_QP_INI_def DIS_QP_MAX_def DIS_MR_INI_def DIS_MR_MAX_def
  DIS_SGE_PER_WQE_def DIS_MAX_IOVLEN_def DIS_MSG_MAX_def DIS_MSG_SIZE_MAX_def

section \<open>Enumerations\<close>

datatype dis_wq_flag = DIS_WQ_EMPTY | DIS_WQ_POST

datatype dis_wq_status =
    DIS_WQ_UNINITIALIZED | DIS_WQ_INITIALIZED | DIS_WQ_RUNNING | DIS_WQ_EXITED

datatype dis_wq_type = DIS_SQ | DIS_RQ

text \<open>The status of a work queue is a C enumeration: it is ordered, in the order of its life.\<close>

fun status_no :: "dis_wq_status \<Rightarrow> nat" where
  "status_no DIS_WQ_UNINITIALIZED = 0"
| "status_no DIS_WQ_INITIALIZED = 1"
| "status_no DIS_WQ_RUNNING = 2"
| "status_no DIS_WQ_EXITED = 3"

instantiation dis_wq_status :: linorder
begin

definition less_eq_dis_wq_status :: "dis_wq_status \<Rightarrow> dis_wq_status \<Rightarrow> bool" where
  "a \<le> b \<longleftrightarrow> status_no a \<le> status_no b"

definition less_dis_wq_status :: "dis_wq_status \<Rightarrow> dis_wq_status \<Rightarrow> bool" where
  "a < b \<longleftrightarrow> status_no a < status_no b"

instance
proof
  fix a b c :: dis_wq_status
  show "a < b \<longleftrightarrow> a \<le> b \<and> \<not> b \<le> a" "a \<le> a" "a \<le> b \<or> b \<le> a"
    by (auto simp: less_eq_dis_wq_status_def less_dis_wq_status_def)
  show "a \<le> b \<Longrightarrow> b \<le> c \<Longrightarrow> a \<le> c" by (simp add: less_eq_dis_wq_status_def)
  show "a \<le> b \<Longrightarrow> b \<le> a \<Longrightarrow> a = b" by (cases a; cases b) (simp_all add: less_eq_dis_wq_status_def)
qed

end

lemma status_between:
  "DIS_WQ_UNINITIALIZED < st \<and> st < DIS_WQ_EXITED \<longleftrightarrow> st = DIS_WQ_INITIALIZED \<or> st = DIS_WQ_RUNNING"
  by (cases st) (simp_all add: less_dis_wq_status_def)

lemma status_bounds [simp]: "DIS_WQ_UNINITIALIZED \<le> st" "st \<le> DIS_WQ_EXITED"
  by (cases st; simp add: less_eq_dis_wq_status_def)+

text \<open>A work queue is embedded in a queue pair or a shared receive queue; this is its address.\<close>

datatype wq_ref = SqOf ptr | RqOf ptr | SrqRqOf ptr

section \<open>Structures\<close>

record iovec =
  iov_base :: u64
  iov_len :: u64

record circ_buf =
  circ_buf_mem :: ptr
  circ_head :: c_int
  circ_tail :: c_int

record dis_mr =
  mr_lkey :: u32                \<comment> \<open>\<open>ibmr.lkey\<close>\<close>
  mr_ibumem :: ptr
  mr_pages :: ptr               \<comment> \<open>an array of page addresses\<close>
  mr_mr_va :: u64
  mr_va_offset :: u64
  mr_mr_length :: u64
  mr_page_count :: u32
  mr_is_dma :: u8

record dis_cqe =
  cqe_ibqp :: ptr
  cqe_wr_id :: u32
  cqe_status :: u16
  cqe_byte_len :: u16
  cqe_opcode :: u8

record dis_cq =
  cq_ibcq_cqe :: c_int          \<comment> \<open>\<open>ibcq.cqe\<close>\<close>
  cq_cqe_circ :: circ_buf
  cq_cqe_lock :: bool           \<comment> \<open>held\<close>
  cq_cqe_max :: u32

record dis_sge_map =
  sge_mr_pages :: "ptr \<times> nat"   \<comment> \<open>a pointer into a page array: the array and an index\<close>
  sge_base_offset :: u64
  sge_page_offset :: u64
  sge_page_count :: u64
  sge_sge_len :: u64
  sge_is_dma :: u8

text \<open>
  \<open>sci_msg_t\<close> is a type of the SCI library; the driver sets two fields of it. The first points
  either into the page map embedded in the same work queue entry or to a separate array.
\<close>

datatype iov_ptr = IovNull | IovStatic nat | IovDynamic ptr

record sci_msg =
  msg_iov :: iov_ptr
  msg_iovlen :: u64

record dis_wqe =
  wqe_ibqp :: ptr
  wqe_page_map_dynamic :: ptr
  wqe_page_map_static :: "iovec list"
  wqe_sci_msq :: "wq_ref option" \<comment> \<open>\<open>&wq->sci_msq\<close>, as the queue it lies in\<close>
  wqe_sci_msg :: sci_msg
  wqe_wr_id :: u32
  wqe_l_qpn :: u32
  wqe_byte_len :: u32
  wqe_opcode :: u8

type_synonym sci_msq_queue_t = nat \<comment> \<open>an opaque handle of the SCI library, 0 when zeroed\<close>

record dis_wq =
  wq_cq :: ptr
  wq_ibqp :: ptr
  wq_wqe_circ :: circ_buf
  wq_thread :: "int + ptr"       \<comment> \<open>\<open>Inl\<close> is an \<open>ERR_PTR\<close>\<close>
  wq_wait_queue :: bool          \<comment> \<open>initialised\<close>
  wq_sci_msq :: sci_msq_queue_t
  wq_wq_flag :: dis_wq_flag
  wq_wq_state :: dis_wq_status
  wq_wq_type :: dis_wq_type
  wq_wqe_max :: u32
  wq_sge_max :: u32
  wq_inline_max :: u32
  wq_mtu :: u32
  wq_l_qpn :: u32
  wq_r_qpn :: u32

record dis_qp =
  qp_ibqp_pd :: ptr
  qp_ibqp_send_cq :: ptr
  qp_ibqp_recv_cq :: ptr
  qp_ibqp_srq :: ptr
  qp_ibqp_qp_type :: u32
  qp_ibqp_qp_num :: u32
  qp_dev :: ptr
  qp_sq :: dis_wq
  qp_rq :: dis_wq
  qp_sq_sig_type :: u32
  qp_type :: u32
  qp_state :: ib_qp_state
  qp_l_qpn :: u32
  qp_r_qpn :: u32
  qp_mtu :: u32
  qp_event_handler :: u64

record dis_srq =
  srq_rq :: dis_wq
  srq_srq_lock :: bool           \<comment> \<open>held\<close>
  srq_srq_type :: u32
  srq_srq_limit :: u32
  srq_sci_msq :: sci_msq_queue_t

record dis_pd =
  pd_ibpd_device :: ptr
  pd_dev :: ptr
  pd_qp_list :: "ptr list"       \<comment> \<open>\<open>DIS_QP_MAX\<close> slots\<close>
  pd_mr_list :: "ptr list"       \<comment> \<open>\<open>DIS_MR_MAX\<close> slots\<close>
  pd_qp_c :: u32
  pd_mr_c :: u32

text \<open>
  What the driver can see of a pinned user memory segment (\<open>struct ib_umem\<close>), and of a kernel
  thread. Both are objects of the kernel.
\<close>

record ib_umem =
  um_page_count :: u32           \<comment> \<open>\<open>ib_umem_page_count\<close>\<close>
  um_page_addrs :: "u64 list"    \<comment> \<open>\<open>page_address\<close> of each page visited, 0 for \<open>NULL\<close>\<close>
  um_offset :: u64               \<comment> \<open>\<open>ib_umem_offset\<close>\<close>

record kthread =
  kt_wq :: wq_ref                \<comment> \<open>the argument of the thread function\<close>
  kt_woken :: bool

section \<open>Zeroed structures\<close>

definition zero_iovec :: iovec where
  "zero_iovec = \<lparr>iov_base = 0, iov_len = 0\<rparr>"

definition zero_circ :: circ_buf where
  "zero_circ = \<lparr>circ_buf_mem = NULL, circ_head = 0, circ_tail = 0\<rparr>"

definition zero_mr :: dis_mr where
  "zero_mr = \<lparr>mr_lkey = 0, mr_ibumem = NULL, mr_pages = NULL, mr_mr_va = 0, mr_va_offset = 0,
     mr_mr_length = 0, mr_page_count = 0, mr_is_dma = 0\<rparr>"

definition zero_cqe :: dis_cqe where
  "zero_cqe = \<lparr>cqe_ibqp = NULL, cqe_wr_id = 0, cqe_status = 0, cqe_byte_len = 0,
     cqe_opcode = 0\<rparr>"

definition zero_wqe :: dis_wqe where
  "zero_wqe = \<lparr>wqe_ibqp = NULL, wqe_page_map_dynamic = NULL,
     wqe_page_map_static = replicate DIS_SGE_PER_WQE zero_iovec, wqe_sci_msq = None,
     wqe_sci_msg = \<lparr>msg_iov = IovNull, msg_iovlen = 0\<rparr>,
     wqe_wr_id = 0, wqe_l_qpn = 0, wqe_byte_len = 0, wqe_opcode = 0\<rparr>"

definition zero_wq :: dis_wq where
  "zero_wq = \<lparr>wq_cq = NULL, wq_ibqp = NULL, wq_wqe_circ = zero_circ, wq_thread = Inr NULL,
     wq_wait_queue = False, wq_sci_msq = 0, wq_wq_flag = DIS_WQ_EMPTY,
     wq_wq_state = DIS_WQ_UNINITIALIZED, wq_wq_type = DIS_SQ, wq_wqe_max = 0, wq_sge_max = 0,
     wq_inline_max = 0, wq_mtu = 0, wq_l_qpn = 0, wq_r_qpn = 0\<rparr>"

definition zero_qp :: dis_qp where
  "zero_qp = \<lparr>qp_ibqp_pd = NULL, qp_ibqp_send_cq = NULL, qp_ibqp_recv_cq = NULL,
     qp_ibqp_srq = NULL, qp_ibqp_qp_type = 0, qp_ibqp_qp_num = 0, qp_dev = NULL,
     qp_sq = zero_wq, qp_rq = zero_wq, qp_sq_sig_type = 0, qp_type = 0,
     qp_state = IB_QPS_RESET, qp_l_qpn = 0, qp_r_qpn = 0, qp_mtu = 0, qp_event_handler = 0\<rparr>"

definition zero_cq :: dis_cq where
  "zero_cq = \<lparr>cq_ibcq_cqe = 0, cq_cqe_circ = zero_circ, cq_cqe_lock = False, cq_cqe_max = 0\<rparr>"

definition zero_srq :: dis_srq where
  "zero_srq = \<lparr>srq_rq = zero_wq, srq_srq_lock = False, srq_srq_type = 0, srq_srq_limit = 0,
     srq_sci_msq = 0\<rparr>"

end
