(* ===== verification/Heap.thy ===== *)
theory Heap
  imports Dis_Types
begin

text \<open>
  The store of kernel objects, one map per type of object, with the counter that hands out fresh
  identities; the requests the driver makes to the allocator; and access to embedded work queues.
\<close>

section \<open>The store\<close>

record heap =
  h_next :: ptr
  h_pd :: "ptr \<rightharpoonup> dis_pd"
  h_mr :: "ptr \<rightharpoonup> dis_mr"
  h_umem :: "ptr \<rightharpoonup> ib_umem"
  h_iov :: "ptr \<rightharpoonup> iovec list"
  h_cq :: "ptr \<rightharpoonup> dis_cq"
  h_cqe :: "ptr \<rightharpoonup> dis_cqe list"
  h_qp :: "ptr \<rightharpoonup> dis_qp"
  h_wqe :: "ptr \<rightharpoonup> dis_wqe list"
  h_srq :: "ptr \<rightharpoonup> dis_srq"
  h_thread :: "ptr \<rightharpoonup> kthread"

definition empty_heap :: heap where
  "empty_heap = \<lparr>h_next = 1, h_pd = Map.empty, h_mr = Map.empty, h_umem = Map.empty,
     h_iov = Map.empty, h_cq = Map.empty, h_cqe = Map.empty, h_qp = Map.empty,
     h_wqe = Map.empty, h_srq = Map.empty, h_thread = Map.empty\<rparr>"

text \<open>Identities at or above the counter are unused, and \<open>NULL\<close> names nothing.\<close>

definition fresh_in :: "(ptr \<rightharpoonup> 'a) \<Rightarrow> ptr \<Rightarrow> bool" where
  "fresh_in m n \<longleftrightarrow> m NULL = None \<and> (\<forall>p \<ge> n. m p = None)"

definition heap_ok :: "heap \<Rightarrow> bool" where
  "heap_ok h \<longleftrightarrow> 0 < h_next h
     \<and> fresh_in (h_pd h) (h_next h) \<and> fresh_in (h_mr h) (h_next h)
     \<and> fresh_in (h_umem h) (h_next h) \<and> fresh_in (h_iov h) (h_next h)
     \<and> fresh_in (h_cq h) (h_next h) \<and> fresh_in (h_cqe h) (h_next h)
     \<and> fresh_in (h_qp h) (h_next h) \<and> fresh_in (h_wqe h) (h_next h)
     \<and> fresh_in (h_srq h) (h_next h) \<and> fresh_in (h_thread h) (h_next h)"

lemma fresh_in_next: "fresh_in m n \<Longrightarrow> m n = None"
  by (simp add: fresh_in_def)

lemma fresh_in_NULL: "fresh_in m n \<Longrightarrow> m 0 = None"
  by (simp add: fresh_in_def)

lemma fresh_in_upd [intro]: "fresh_in m n \<Longrightarrow> 0 < n \<Longrightarrow> fresh_in (m(n \<mapsto> x)) (Suc n)"
  by (simp add: fresh_in_def)

lemma fresh_in_Suc [intro]: "fresh_in m n \<Longrightarrow> fresh_in m (Suc n)"
  by (simp add: fresh_in_def)

lemma fresh_in_del [intro]: "fresh_in m n \<Longrightarrow> fresh_in (m(p := None)) n"
  by (simp add: fresh_in_def)

lemma fresh_in_overwrite [intro]: "fresh_in m n \<Longrightarrow> m p = Some y \<Longrightarrow> fresh_in (m(p \<mapsto> x)) n"
  by (cases "p = 0") (auto simp: fresh_in_def)

lemma fresh_in_live: "fresh_in m n \<Longrightarrow> m p = Some x \<Longrightarrow> p \<noteq> NULL \<and> p < n"
  by (metis fresh_in_def not_le option.distinct(1))

section \<open>What the driver asks of the kernel\<close>

text \<open>
  Whether an allocation succeeds is up to the allocator: \<open>k_alloc h r\<close> is its answer to the
  request \<open>r\<close> in the state \<open>h\<close>. Memory from \<open>kmalloc\<close> and automatic variables are not
  initialised: \<open>k_kmalloc_iov\<close> and \<open>k_stack_sge\<close> are what they happen to hold.
  \<open>k_umem_get\<close> is \<open>ib_umem_get\<close>: the pinned segment, or an error pointer (\<open>None\<close>);
  \<open>k_kthread_create\<close> is the error of \<open>kthread_create\<close>, if it fails.
\<close>

datatype alloc_request =
    AllocMr                 \<comment> \<open>\<open>sizeof(struct dis_mr)\<close>\<close>
  | AllocPages u32          \<comment> \<open>\<open>sizeof(struct iovec) * n\<close>\<close>
  | AllocCqes u32           \<comment> \<open>\<open>sizeof(struct dis_cqe) * n\<close>\<close>
  | AllocQp                 \<comment> \<open>\<open>sizeof(struct dis_qp)\<close>\<close>
  | AllocWqes dis_wq_type u32 \<comment> \<open>\<open>sizeof(struct dis_wqe) * n\<close>\<close>
  | AllocIov u64            \<comment> \<open>\<open>sizeof(struct iovec) * n\<close>\<close>

record kenv =
  k_alloc :: "heap \<Rightarrow> alloc_request \<Rightarrow> bool"
  k_kmalloc_iov :: "heap \<Rightarrow> u64 \<Rightarrow> iovec list"
  k_stack_sge :: "heap \<Rightarrow> dis_sge_map"
  k_umem_get :: "u64 \<Rightarrow> u64 \<Rightarrow> int \<Rightarrow> ib_umem option"
  k_kthread_create :: "heap \<Rightarrow> int option"

text \<open>Two kernels for examples: one that serves every request, and one out of memory.\<close>

definition roomy_env :: kenv where
  "roomy_env = \<lparr>k_alloc = \<lambda>_ _. True, k_kmalloc_iov = \<lambda>_ n. replicate (unat n) zero_iovec,
     k_stack_sge = \<lambda>_. \<lparr>sge_mr_pages = (NULL, 0), sge_base_offset = 0, sge_page_offset = 0,
       sge_page_count = 0, sge_sge_len = 0, sge_is_dma = 0\<rparr>,
     k_umem_get = \<lambda>start len _. Some \<lparr>um_page_count = 2, um_page_addrs = [0x10000, 0x70000],
       um_offset = start mod PAGE_SIZE\<rparr>,
     k_kthread_create = \<lambda>_. None\<rparr>"

definition full_env :: kenv where
  "full_env = roomy_env\<lparr>k_alloc := \<lambda>_ _. False, k_umem_get := \<lambda>_ _ _. None\<rparr>"

section \<open>Embedded work queues\<close>

fun get_wq :: "heap \<Rightarrow> wq_ref \<Rightarrow> dis_wq kres" where
  "get_wq h (SqOf p) = rbind (deref (h_qp h) p) (\<lambda>qp. Inr (qp_sq qp))"
| "get_wq h (RqOf p) = rbind (deref (h_qp h) p) (\<lambda>qp. Inr (qp_rq qp))"
| "get_wq h (SrqRqOf p) = rbind (deref (h_srq h) p) (\<lambda>srq. Inr (srq_rq srq))"

text \<open>Writing back a queue that was read: nothing happens if the object is gone.\<close>

fun set_wq :: "heap \<Rightarrow> wq_ref \<Rightarrow> dis_wq \<Rightarrow> heap" where
  "set_wq h (SqOf p) w = (case h_qp h p of None \<Rightarrow> h
     | Some qp \<Rightarrow> h\<lparr>h_qp := (h_qp h)(p \<mapsto> qp\<lparr>qp_sq := w\<rparr>)\<rparr>)"
| "set_wq h (RqOf p) w = (case h_qp h p of None \<Rightarrow> h
     | Some qp \<Rightarrow> h\<lparr>h_qp := (h_qp h)(p \<mapsto> qp\<lparr>qp_rq := w\<rparr>)\<rparr>)"
| "set_wq h (SrqRqOf p) w = (case h_srq h p of None \<Rightarrow> h
     | Some srq \<Rightarrow> h\<lparr>h_srq := (h_srq h)(p \<mapsto> srq\<lparr>srq_rq := w\<rparr>)\<rparr>)"

lemma set_wq_frame [heap_simps]:
  "h_next (set_wq h r w) = h_next h" "h_pd (set_wq h r w) = h_pd h"
  "h_mr (set_wq h r w) = h_mr h" "h_umem (set_wq h r w) = h_umem h"
  "h_iov (set_wq h r w) = h_iov h" "h_cq (set_wq h r w) = h_cq h"
  "h_cqe (set_wq h r w) = h_cqe h" "h_wqe (set_wq h r w) = h_wqe h"
  "h_thread (set_wq h r w) = h_thread h"
  by (cases r; simp split: option.splits)+

lemma get_wq_set_wq [heap_simps]: "get_wq h r = Inr w \<Longrightarrow> get_wq (set_wq h r w') r = Inr w'"
  by (cases r) (auto simp: deref_eq_Inr rbind_eq_Inr)

lemma get_wq_set_wq_other [heap_simps]:
  "r' \<noteq> r \<Longrightarrow> get_wq (set_wq h r w) r' = get_wq h r'"
  by (cases r; cases r') (auto simp: deref_def split: option.splits)

lemma get_wq_frame [heap_simps]:
  "get_wq (h_next_update f1 h) r = get_wq h r" "get_wq (h_pd_update f2 h) r = get_wq h r"
  "get_wq (h_mr_update f3 h) r = get_wq h r" "get_wq (h_umem_update f4 h) r = get_wq h r"
  "get_wq (h_iov_update f5 h) r = get_wq h r" "get_wq (h_cq_update f6 h) r = get_wq h r"
  "get_wq (h_cqe_update f7 h) r = get_wq h r" "get_wq (h_wqe_update f8 h) r = get_wq h r"
  "get_wq (h_thread_update f9 h) r = get_wq h r"
  by (cases r; simp)+

lemma set_wq_set_wq [heap_simps]: "set_wq (set_wq h r w) r w' = set_wq h r w'"
  by (cases r) (auto split: option.splits)

lemma set_wq_get_wq: "get_wq h r = Inr w \<Longrightarrow> set_wq h r w = h"
  by (cases r) (auto simp: deref_eq_Inr rbind_eq_Inr map_upd_triv)

lemma heap_ok_set_wq [intro]: "heap_ok h \<Longrightarrow> heap_ok (set_wq h r w)"
  by (cases r) (auto simp: heap_ok_def split: option.splits)

end
