(* ===== verification/Circ_Buf.thy ===== *)
theory Circ_Buf
  imports Ring Heap
begin

text \<open>
  The kernel's \<open>struct circ_buf\<close> over an array of entries, as both queues of the driver use it:
  well-formedness, the list of entries it holds, and the effect of the driver's tests and index
  updates on that list.
\<close>

definition circ_ok :: "circ_buf \<Rightarrow> u32 \<Rightarrow> 'a list \<Rightarrow> bool" where
  "circ_ok c n slots \<longleftrightarrow> ring_size n \<and> unat (circ_head c) < unat n \<and> unat (circ_tail c) < unat n
     \<and> length slots = unat n"

definition circ_list :: "circ_buf \<Rightarrow> u32 \<Rightarrow> 'a list \<Rightarrow> 'a list" where
  "circ_list c n slots = ring_list slots (unat (circ_head c)) (unat (circ_tail c)) (unat n)"

lemma circ_ok_bounds:
  assumes "circ_ok c n slots"
  shows "ring_size n" "unat (int_to_ulong (circ_head c)) = unat (circ_head c)"
    "unat (int_to_ulong (circ_tail c)) = unat (circ_tail c)"
    "unat (circ_head c) < unat n" "unat (circ_tail c) < unat n" "length slots = unat n"
  using assms int_to_ulong_ring [of n] by (simp_all add: circ_ok_def)

lemma circ_full_iff:
  assumes "circ_ok c n slots"
  shows "CIRC_SPACE (int_to_ulong (circ_head c)) (int_to_ulong (circ_tail c)) n < 1
    \<longleftrightarrow> length (circ_list c n slots) = unat n - 1"
proof -
  note b = circ_ok_bounds [OF assms]
  have "ring_cnt (unat (circ_head c)) (unat (circ_tail c)) (unat n) < unat n"
    using b(4) by (intro ring_cnt_less) simp
  moreover have "unat (CIRC_SPACE (int_to_ulong (circ_head c)) (int_to_ulong (circ_tail c)) n) =
      unat n - 1 - ring_cnt (unat (circ_head c)) (unat (circ_tail c)) (unat n)"
    using b by (simp add: CIRC_SPACE_ring)
  ultimately show ?thesis
    by (simp only: word_less_1_iff circ_list_def length_ring_list) arith
qed

lemma circ_empty_iff:
  assumes "circ_ok c n slots"
  shows "CIRC_CNT (int_to_ulong (circ_head c)) (int_to_ulong (circ_tail c)) n < 1
    \<longleftrightarrow> circ_list c n slots = []"
proof -
  note b = circ_ok_bounds [OF assms]
  have "circ_list c n slots = [] \<longleftrightarrow>
      ring_cnt (unat (circ_head c)) (unat (circ_tail c)) (unat n) = 0"
    by (simp add: circ_list_def flip: length_0_conv)
  moreover have "unat (CIRC_CNT (int_to_ulong (circ_head c)) (int_to_ulong (circ_tail c)) n) =
      ring_cnt (unat (circ_head c)) (unat (circ_tail c)) (unat n)"
    using b by (simp add: CIRC_CNT_ring)
  ultimately show ?thesis
    by (simp only: word_less_1_iff)
qed

lemma circ_put:
  assumes "circ_ok c n slots" "length (circ_list c n slots) < unat n - 1"
  defines "c' \<equiv> c\<lparr>circ_head := circ_next (int_to_ulong (circ_head c)) n\<rparr>"
  shows "circ_ok c' n (slots[unat (circ_head c) := x])"
    "circ_list c' n (slots[unat (circ_head c) := x]) = circ_list c n slots @ [x]"
proof -
  note b = circ_ok_bounds [OF assms(1)]
  have h: "unat (circ_head c') = Suc (unat (circ_head c)) mod unat n"
    using b by (simp add: c'_def circ_next_ring)
  show "circ_ok c' n (slots[unat (circ_head c) := x])"
    using b h by (simp add: circ_ok_def) (simp add: c'_def)
  show "circ_list c' n (slots[unat (circ_head c) := x]) = circ_list c n slots @ [x]"
    using b h assms(2) by (simp add: circ_list_def ring_list_push) (simp add: c'_def ring_list_push)
qed

lemma circ_get:
  assumes "circ_ok c n slots" "circ_list c n slots \<noteq> []"
  defines "c' \<equiv> c\<lparr>circ_tail := circ_next (int_to_ulong (circ_tail c)) n\<rparr>"
  shows "circ_ok c' n slots" 
    "circ_list c n slots = slots ! unat (circ_tail c) # circ_list c' n slots"
proof -
  note b = circ_ok_bounds [OF assms(1)]
  have t: "unat (circ_tail c') = Suc (unat (circ_tail c)) mod unat n"
    using b by (simp add: c'_def circ_next_ring)
  have "circ_head c \<noteq> circ_tail c"
    using assms(2) b by (auto simp: circ_list_def ring_list_empty)
  then have ne: "unat (circ_head c) \<noteq> unat (circ_tail c)" by (simp add: word_unat_eq_iff)
  show "circ_ok c' n slots"
    using b t by (simp add: circ_ok_def) (simp add: c'_def)
  show "circ_list c n slots = slots ! unat (circ_tail c) # circ_list c' n slots"
    using b t ne ring_list_pop [of "unat (circ_head c)" "unat n" "unat (circ_tail c)" slots]
    by (simp add: circ_list_def) (simp add: c'_def)
qed

lemma circ_list_bound: 
  assumes "circ_ok c n slots" shows "length (circ_list c n slots) \<le> unat n - 1"
  using circ_ok_bounds(4) [OF assms] ring_cnt_less [of "unat n" "unat (circ_head c)" "unat (circ_tail c)"]
  by (simp add: circ_list_def)

end
