(* ===== verification/Completion_Queue.thy ===== *)
theory Completion_Queue
  imports Circ_Buf
begin

text \<open>
  Completion queues: creation and destruction (\<open>dis_verbs.c\<close>), posting by the worker threads
  (\<open>dis_wq_post_sqe_cqe\<close> and \<open>dis_wq_post_rqe_cqe\<close> of \<open>dis_qp.c\<close>) and polling. The queue is a
  circular buffer in the store; its abstraction is the list of completions from tail to head.
\<close>

section \<open>Operations\<close>

text \<open>\<open>spin_lock_irqsave\<close> and \<open>spin_unlock_irqrestore\<close> on the lock of a completion queue.\<close>

definition cq_lock :: "heap \<Rightarrow> ptr \<Rightarrow> heap kres" where
  "cq_lock h p = rbind (deref (h_cq h) p) (\<lambda>cq.
     if cq_cqe_lock cq then Inl Deadlock
     else Inr (h\<lparr>h_cq := (h_cq h)(p \<mapsto> cq\<lparr>cq_cqe_lock := True\<rparr>)\<rparr>))"

definition cq_unlock :: "heap \<Rightarrow> ptr \<Rightarrow> heap kres" where
  "cq_unlock h p = rbind (deref (h_cq h) p) (\<lambda>cq.
     Inr (h\<lparr>h_cq := (h_cq h)(p \<mapsto> cq\<lparr>cq_cqe_lock := False\<rparr>)\<rparr>))"

definition dis_wq_post_sqe_cqe :: "heap \<Rightarrow> wq_ref \<Rightarrow> dis_wqe \<Rightarrow> u32 \<Rightarrow> (int \<times> heap) kres" where
  "dis_wq_post_sqe_cqe h wq wqe wq_status =
     rbind (get_wq h wq) (\<lambda>w.
     let cqp = wq_cq w in
     rbind (cq_lock h cqp) (\<lambda>h1.
     rbind (deref (h_cq h1) cqp) (\<lambda>cq.
     let hd = int_to_ulong (circ_head (cq_cqe_circ cq));
         tl = int_to_ulong (circ_tail (cq_cqe_circ cq)) in
     if CIRC_SPACE hd tl (cq_cqe_max cq) < 1
     then rbind (cq_unlock h1 cqp) (\<lambda>h2. Inr (-42, h2))
     else
       rbind (deref (h_cqe h1) (circ_buf_mem (cq_cqe_circ cq))) (\<lambda>slots.
       rbind (array_get slots (unat hd)) (\<lambda>cqe.
       let cqe' = cqe\<lparr>cqe_wr_id := wqe_wr_id wqe, cqe_opcode := wqe_opcode wqe,
             cqe_byte_len := ucast (wqe_byte_len wqe), cqe_ibqp := wqe_ibqp wqe,
             cqe_status := ucast wq_status\<rparr> in
       rbind (array_put slots (unat hd) cqe') (\<lambda>slots'.
       let cq' = cq\<lparr>cq_cqe_circ := (cq_cqe_circ cq)\<lparr>circ_head :=
             circ_next hd (cq_cqe_max cq)\<rparr>\<rparr> in
       rbind (cq_unlock (h1\<lparr>h_cqe := (h_cqe h1)(circ_buf_mem (cq_cqe_circ cq) \<mapsto> slots'),
             h_cq := (h_cq h1)(cqp \<mapsto> cq')\<rparr>) cqp) (\<lambda>h2.
       Inr (0, h2))))))))"

definition dis_wq_post_rqe_cqe :: "heap \<Rightarrow> wq_ref \<Rightarrow> dis_wqe \<Rightarrow> u32 \<Rightarrow> (int \<times> heap) kres" where
  "dis_wq_post_rqe_cqe h wq wqe wq_status =
     rbind (get_wq h wq) (\<lambda>w.
     let cqp = wq_cq w in
     rbind (cq_lock h cqp) (\<lambda>h1.
     rbind (deref (h_cq h1) cqp) (\<lambda>cq.
     let hd = int_to_ulong (circ_head (cq_cqe_circ cq));
         tl = int_to_ulong (circ_tail (cq_cqe_circ cq)) in
     if CIRC_SPACE hd tl (cq_cqe_max cq) < 1
     then rbind (cq_unlock h1 cqp) (\<lambda>h2. Inr (-42, h2))
     else
       rbind (deref (h_cqe h1) (circ_buf_mem (cq_cqe_circ cq))) (\<lambda>slots.
       rbind (array_get slots (unat hd)) (\<lambda>cqe.
       let cqe' = cqe\<lparr>cqe_wr_id := wqe_wr_id wqe, cqe_opcode := wqe_opcode wqe,
             cqe_byte_len := ucast (wqe_byte_len wqe), cqe_ibqp := wqe_ibqp wqe,
             cqe_status := ucast wq_status\<rparr> in
       rbind (array_put slots (unat hd) cqe') (\<lambda>slots'.
       let cq' = cq\<lparr>cq_cqe_circ := (cq_cqe_circ cq)\<lparr>circ_head :=
             circ_next hd (cq_cqe_max cq)\<rparr>\<rparr> in
       rbind (cq_unlock (h1\<lparr>h_cqe := (h_cqe h1)(circ_buf_mem (cq_cqe_circ cq) \<mapsto> slots'),
             h_cq := (h_cq h1)(cqp \<mapsto> cq')\<rparr>) cqp) (\<lambda>h2.
       Inr (0, h2))))))))"

text \<open>The work completion array of the caller: the fields \<open>dis_poll_cq\<close> writes.\<close>

record ib_wc =
  wc_wr_id :: u64
  wc_status :: u32
  wc_opcode :: u32
  wc_byte_len :: u32
  wc_qp :: ptr

definition set_wc :: "ib_wc \<Rightarrow> dis_cqe \<Rightarrow> ib_wc" where
  "set_wc wc cqe = wc\<lparr>wc_wr_id := ucast (cqe_wr_id cqe), wc_status := ucast (cqe_status cqe),
     wc_opcode := ucast (cqe_opcode cqe), wc_byte_len := ucast (cqe_byte_len cqe),
     wc_qp := cqe_ibqp cqe\<rparr>"

text \<open>
  The loop of \<open>dis_poll_cq\<close>: the first argument counts the iterations left, the last one is
  \<open>wc_count\<close>, which is also the index of \<open>ibwc_iter\<close> in the caller's array.
\<close>

fun poll_loop :: "nat \<Rightarrow> heap \<Rightarrow> ptr \<Rightarrow> ib_wc list \<Rightarrow> nat \<Rightarrow> (nat \<times> ib_wc list \<times> heap) kres" where
  "poll_loop 0 h cqp ibwc wc_count = Inr (wc_count, ibwc, h)"
| "poll_loop (Suc i) h cqp ibwc wc_count =
     rbind (deref (h_cq h) cqp) (\<lambda>cq.
     let hd = int_to_ulong (circ_head (cq_cqe_circ cq));
         tl = int_to_ulong (circ_tail (cq_cqe_circ cq)) in
     if CIRC_CNT hd tl (cq_cqe_max cq) < 1 then Inr (wc_count, ibwc, h)
     else
       rbind (deref (h_cqe h) (circ_buf_mem (cq_cqe_circ cq))) (\<lambda>slots.
       rbind (array_get slots (unat tl)) (\<lambda>cqe.
       rbind (array_get ibwc wc_count) (\<lambda>wc.
       rbind (array_put ibwc wc_count (set_wc wc cqe)) (\<lambda>ibwc'.
       poll_loop i
         (h\<lparr>h_cq := (h_cq h)(cqp \<mapsto> cq\<lparr>cq_cqe_circ := (cq_cqe_circ cq)\<lparr>circ_tail :=
            circ_next tl (cq_cqe_max cq)\<rparr>\<rparr>)\<rparr>)
         cqp ibwc' (Suc wc_count))))))"

definition dis_poll_cq :: "heap \<Rightarrow> ptr \<Rightarrow> c_int \<Rightarrow> ib_wc list \<Rightarrow> (nat \<times> ib_wc list \<times> heap) kres" where
  "dis_poll_cq h ibcq num_wc ibwc = poll_loop (nat (sint num_wc)) h ibcq ibwc 0"

definition dis_create_cq :: "kenv \<Rightarrow> heap \<Rightarrow> ptr \<Rightarrow> u32 \<Rightarrow> (int \<times> heap) kres" where
  "dis_create_cq env h ibcq init_cqe =
     rbind (deref (h_cq h) ibcq) (\<lambda>cq.
     rbind (roundup_pow_of_two (ucast (init_cqe + 1))) (\<lambda>n.
     let cqe_max = ucast n;
         cq1 = cq\<lparr>cq_cqe_lock := False, cq_cqe_max := cqe_max, cq_ibcq_cqe := cqe_max\<rparr> in
     if k_alloc env h (AllocCqes cqe_max)
     then Inr (0, h\<lparr>h_next := Suc (h_next h),
            h_cqe := (h_cqe h)(h_next h \<mapsto> replicate (unat cqe_max) zero_cqe),
            h_cq := (h_cq h)(ibcq \<mapsto> cq1\<lparr>cq_cqe_circ := (cq_cqe_circ cq1)\<lparr>circ_buf_mem :=
              h_next h\<rparr>\<rparr>)\<rparr>)
     else Inr (-42, h\<lparr>h_cq := (h_cq h)(ibcq \<mapsto> cq1\<lparr>cq_cqe_circ := (cq_cqe_circ cq1)
              \<lparr>circ_buf_mem := NULL\<rparr>\<rparr>)\<rparr>)))"

definition dis_req_notify_cq :: "heap \<Rightarrow> ptr \<Rightarrow> (int \<times> heap) kres" where
  "dis_req_notify_cq h ibcq = Inr (-42, h)"

definition dis_destroy_cq :: "heap \<Rightarrow> ptr \<Rightarrow> heap kres" where
  "dis_destroy_cq h ibcq =
     rbind (deref (h_cq h) ibcq) (\<lambda>cq.
     rbind (kfree (h_cqe h) (circ_buf_mem (cq_cqe_circ cq))) (\<lambda>m.
     Inr (h\<lparr>h_cqe := m\<rparr>)))"

section \<open>Well-formed completion queues and their contents\<close>

definition cq_ok :: "heap \<Rightarrow> ptr \<Rightarrow> bool" where
  "cq_ok h p = (p \<noteq> NULL \<and> (case h_cq h p of None \<Rightarrow> False
     | Some cq \<Rightarrow> \<not> cq_cqe_lock cq \<and> circ_buf_mem (cq_cqe_circ cq) \<noteq> NULL
         \<and> (case h_cqe h (circ_buf_mem (cq_cqe_circ cq)) of None \<Rightarrow> False
            | Some slots \<Rightarrow> circ_ok (cq_cqe_circ cq) (cq_cqe_max cq) slots)))"

definition cq_list :: "heap \<Rightarrow> ptr \<Rightarrow> dis_cqe list" where
  "cq_list h p = (case h_cq h p of None \<Rightarrow> []
     | Some cq \<Rightarrow> (case h_cqe h (circ_buf_mem (cq_cqe_circ cq)) of None \<Rightarrow> []
         | Some slots \<Rightarrow> circ_list (cq_cqe_circ cq) (cq_cqe_max cq) slots))"

definition cq_cap :: "heap \<Rightarrow> ptr \<Rightarrow> nat" where
  "cq_cap h p = (case h_cq h p of None \<Rightarrow> 0 | Some cq \<Rightarrow> unat (cq_cqe_max cq) - 1)"

definition cqe_of :: "dis_wqe \<Rightarrow> u32 \<Rightarrow> dis_cqe" where
  "cqe_of wqe st = \<lparr>cqe_ibqp = wqe_ibqp wqe, cqe_wr_id = wqe_wr_id wqe, cqe_status = ucast st,
     cqe_byte_len = ucast (wqe_byte_len wqe), cqe_opcode = wqe_opcode wqe\<rparr>"

lemma cq_okE:
  assumes "cq_ok h p"
  obtains cq slots where "p \<noteq> 0" "h_cq h p = Some cq" "\<not> cq_cqe_lock cq"
    "circ_buf_mem (cq_cqe_circ cq) \<noteq> 0" "h_cqe h (circ_buf_mem (cq_cqe_circ cq)) = Some slots"
    "circ_ok (cq_cqe_circ cq) (cq_cqe_max cq) slots"
  using assms by (auto simp: cq_ok_def split: option.splits)

section \<open>Posting\<close>

lemma post_rqe_eq_sqe: "dis_wq_post_rqe_cqe = dis_wq_post_sqe_cqe"
  by (intro ext) (simp add: dis_wq_post_rqe_cqe_def dis_wq_post_sqe_cqe_def)

lemma cq_put_result:
  "cqe\<lparr>cqe_wr_id := a, cqe_opcode := b, cqe_byte_len := c, cqe_ibqp := d, cqe_status := e\<rparr>
    = \<lparr>cqe_ibqp = d, cqe_wr_id = a, cqe_status = e, cqe_byte_len = c, cqe_opcode = b\<rparr>"
  by simp

text \<open>The store after a completion was posted, and after one was taken.\<close>

definition cq_pushed :: "heap \<Rightarrow> ptr \<Rightarrow> dis_cqe \<Rightarrow> heap" where
  "cq_pushed h p x = (case h_cq h p of None \<Rightarrow> h | Some cq \<Rightarrow>
     (case h_cqe h (circ_buf_mem (cq_cqe_circ cq)) of None \<Rightarrow> h | Some slots \<Rightarrow>
       h\<lparr>h_cqe := (h_cqe h)(circ_buf_mem (cq_cqe_circ cq)
             \<mapsto> slots[unat (circ_head (cq_cqe_circ cq)) := x]),
         h_cq := (h_cq h)(p \<mapsto> cq\<lparr>cq_cqe_circ := (cq_cqe_circ cq)\<lparr>circ_head :=
             circ_next (int_to_ulong (circ_head (cq_cqe_circ cq))) (cq_cqe_max cq)\<rparr>\<rparr>)\<rparr>))"

definition cq_popped :: "heap \<Rightarrow> ptr \<Rightarrow> heap" where
  "cq_popped h p = (case h_cq h p of None \<Rightarrow> h | Some cq \<Rightarrow>
     h\<lparr>h_cq := (h_cq h)(p \<mapsto> cq\<lparr>cq_cqe_circ := (cq_cqe_circ cq)\<lparr>circ_tail :=
             circ_next (int_to_ulong (circ_tail (cq_cqe_circ cq))) (cq_cqe_max cq)\<rparr>\<rparr>)\<rparr>)"

lemma cq_pushed_frame [heap_simps]:
  "h_mr (cq_pushed h p x) = h_mr h" "h_iov (cq_pushed h p x) = h_iov h"
  "h_wqe (cq_pushed h p x) = h_wqe h" "h_qp (cq_pushed h p x) = h_qp h"
  "h_pd (cq_pushed h p x) = h_pd h" "h_srq (cq_pushed h p x) = h_srq h"
  "h_next (cq_pushed h p x) = h_next h" "h_umem (cq_pushed h p x) = h_umem h"
  "get_wq (cq_pushed h p x) r = get_wq h r"
  by (simp_all add: cq_pushed_def heap_simps split: option.splits)

lemma cq_popped_frame [heap_simps]:
  "h_mr (cq_popped h p) = h_mr h" "h_iov (cq_popped h p) = h_iov h"
  "h_wqe (cq_popped h p) = h_wqe h" "h_qp (cq_popped h p) = h_qp h"
  "h_pd (cq_popped h p) = h_pd h" "h_srq (cq_popped h p) = h_srq h"
  "h_cqe (cq_popped h p) = h_cqe h" "h_next (cq_popped h p) = h_next h"
  "h_umem (cq_popped h p) = h_umem h" "get_wq (cq_popped h p) r = get_wq h r"
  by (simp_all add: cq_popped_def heap_simps split: option.splits)

lemma cq_list_bound: "cq_ok h p \<Longrightarrow> length (cq_list h p) \<le> cq_cap h p"
  by (erule cq_okE) (auto simp: cq_list_def cq_cap_def dest: circ_list_bound)

lemma post_sqe_cqe_full:
  assumes "cq_ok h p" "get_wq h wq = Inr w" "wq_cq w = p" "length (cq_list h p) = cq_cap h p"
  shows "dis_wq_post_sqe_cqe h wq wqe st = Inr (-42, h)"
  using assms(1)
proof (cases rule: cq_okE)
  case (1 cq slots)
  then have "length (circ_list (cq_cqe_circ cq) (cq_cqe_max cq) slots) = unat (cq_cqe_max cq) - 1"
    using assms(4) by (simp add: cq_list_def cq_cap_def)
  then have full: "CIRC_SPACE (int_to_ulong (circ_head (cq_cqe_circ cq)))
      (int_to_ulong (circ_tail (cq_cqe_circ cq))) (cq_cqe_max cq) < 1"
    using circ_full_iff [OF 1(6)] by blast
  have "cq\<lparr>cq_cqe_lock := False\<rparr> = cq" using 1(3) by simp
  with 1 full assms(2,3) show ?thesis
    by (simp add: dis_wq_post_sqe_cqe_def cq_lock_def cq_unlock_def kres_simps map_upd_triv)
qed

lemma post_sqe_cqe_room:
  assumes "cq_ok h p" "get_wq h wq = Inr w" "wq_cq w = p" "length (cq_list h p) < cq_cap h p"
  shows "dis_wq_post_sqe_cqe h wq wqe st = Inr (0, cq_pushed h p (cqe_of wqe st))"
  using assms(1)
proof (cases rule: cq_okE)
  case (1 cq slots)
  note b = circ_ok_bounds [OF 1(6)]
  have "length (circ_list (cq_cqe_circ cq) (cq_cqe_max cq) slots) \<noteq> unat (cq_cqe_max cq) - 1"
    using assms(4) 1 by (simp add: cq_list_def cq_cap_def)
  then have room: "\<not> CIRC_SPACE (int_to_ulong (circ_head (cq_cqe_circ cq)))
      (int_to_ulong (circ_tail (cq_cqe_circ cq))) (cq_cqe_max cq) < 1"
    using circ_full_iff [OF 1(6)] by blast
  have unlocked: "cq\<lparr>cq_cqe_circ := c, cq_cqe_lock := False\<rparr> = cq\<lparr>cq_cqe_circ := c\<rparr>" for c
    using 1(3) by (cases cq) simp
  from 1 room b assms(2,3) show ?thesis
    by (simp add: dis_wq_post_sqe_cqe_def cq_lock_def cq_unlock_def kres_simps cq_pushed_def
        cqe_of_def cq_put_result unlocked)
qed

lemma cq_pushed_ok:
  assumes "cq_ok h p" "length (cq_list h p) < cq_cap h p"
  shows "cq_ok (cq_pushed h p x) p" "cq_list (cq_pushed h p x) p = cq_list h p @ [x]"
    "cq_cap (cq_pushed h p x) p = cq_cap h p"
proof -
  from assms(1) obtain cq slots where 1: "p \<noteq> 0" "h_cq h p = Some cq" "\<not> cq_cqe_lock cq"
    "circ_buf_mem (cq_cqe_circ cq) \<noteq> 0" "h_cqe h (circ_buf_mem (cq_cqe_circ cq)) = Some slots"
    "circ_ok (cq_cqe_circ cq) (cq_cqe_max cq) slots" by (rule cq_okE)
  then have "length (circ_list (cq_cqe_circ cq) (cq_cqe_max cq) slots) < unat (cq_cqe_max cq) - 1"
    using assms(2) by (simp add: cq_list_def cq_cap_def)
  note put = circ_put [OF 1(6) this]
  show "cq_ok (cq_pushed h p x) p" "cq_list (cq_pushed h p x) p = cq_list h p @ [x]"
    "cq_cap (cq_pushed h p x) p = cq_cap h p"
    using 1 put by (simp_all add: cq_ok_def cq_list_def cq_cap_def cq_pushed_def)
qed

section \<open>Polling\<close>

lemma poll_loop_empty:
  "cq_ok h p \<Longrightarrow> cq_list h p = [] \<Longrightarrow> poll_loop (Suc i) h p ws n = Inr (n, ws, h)"
  by (erule cq_okE) (frule circ_empty_iff, simp add: kres_simps cq_list_def)

lemma poll_loop_step:
  assumes "cq_ok h p" "cq_list h p = x # xs" "n < length ws"
  shows "poll_loop (Suc i) h p ws n =
    poll_loop i (cq_popped h p) p (ws[n := set_wc (ws ! n) x]) (Suc n)"
  using assms(1)
proof (cases rule: cq_okE)
  case (1 cq slots)
  note b = circ_ok_bounds [OF 1(6)]
  have ne: "circ_list (cq_cqe_circ cq) (cq_cqe_max cq) slots = x # xs"
    using assms(2) 1 by (simp add: cq_list_def)
  then have "slots ! unat (circ_tail (cq_cqe_circ cq)) = x"
    using circ_get(2) [OF 1(6)] by simp
  with 1 b ne assms(3) circ_empty_iff [OF 1(6)] show ?thesis
    by (simp add: kres_simps cq_popped_def)
qed

lemma cq_popped_ok:
  assumes "cq_ok h p" "cq_list h p = x # xs"
  shows "cq_ok (cq_popped h p) p" "cq_list (cq_popped h p) p = xs"
    "cq_cap (cq_popped h p) p = cq_cap h p"
proof -
  from assms(1) obtain cq slots where 1: "p \<noteq> 0" "h_cq h p = Some cq" "\<not> cq_cqe_lock cq"
    "circ_buf_mem (cq_cqe_circ cq) \<noteq> 0" "h_cqe h (circ_buf_mem (cq_cqe_circ cq)) = Some slots"
    "circ_ok (cq_cqe_circ cq) (cq_cqe_max cq) slots" by (rule cq_okE)
  then have l: "circ_list (cq_cqe_circ cq) (cq_cqe_max cq) slots = x # xs"
    using assms(2) by (simp add: cq_list_def)
  then have "circ_list (cq_cqe_circ cq) (cq_cqe_max cq) slots \<noteq> []" by simp
  note get = circ_get [OF 1(6) this]
  show "cq_ok (cq_popped h p) p" "cq_list (cq_popped h p) p = xs"
    "cq_cap (cq_popped h p) p = cq_cap h p"
    using 1 get l by (simp_all add: cq_ok_def cq_list_def cq_cap_def cq_popped_def)
qed

fun cq_popn :: "nat \<Rightarrow> heap \<Rightarrow> ptr \<Rightarrow> heap" where
  "cq_popn 0 h p = h"
| "cq_popn (Suc n) h p = cq_popn n (cq_popped h p) p"

lemma poll_loop_spec:
  assumes "cq_ok h p" "k = min i (length (cq_list h p))" "n + k \<le> length ws"
  shows "poll_loop i h p ws n = Inr (n + k,
      take n ws @ map2 set_wc (take k (drop n ws)) (take k (cq_list h p)) @ drop (n + k) ws,
      cq_popn k h p)
    \<and> cq_ok (cq_popn k h p) p \<and> cq_list (cq_popn k h p) p = drop k (cq_list h p)"
  using assms
proof (induction i arbitrary: h n k ws)
  case 0
  then show ?case by simp
next
  case (Suc i)
  show ?case
  proof (cases "cq_list h p")
    case Nil
    with Suc.prems show ?thesis by (simp add: poll_loop_empty del: poll_loop.simps)
  next
    case (Cons x xs)
    with Suc.prems obtain j where k: "k = Suc j" "j = min i (length xs)" by auto
    note pop = cq_popped_ok [OF Suc.prems(1) Cons]
    have n: "n < length ws" using Suc.prems k by simp
    then have ws: "drop n ws = ws ! n # drop (Suc n) ws"
      by (simp add: Cons_nth_drop_Suc)
    have t: "take (Suc n) (ws[n := y]) = take n ws @ [y]" for y
      using n by (simp add: take_Suc_conv_app_nth)
    have "poll_loop (Suc i) h p ws n =
        poll_loop i (cq_popped h p) p (ws[n := set_wc (ws ! n) x]) (Suc n)"
      by (rule poll_loop_step [OF Suc.prems(1) Cons n])
    moreover note Suc.IH [OF pop(1), of j "Suc n" "ws[n := set_wc (ws ! n) x]"]
    ultimately show ?thesis
      using Suc.prems k pop Cons by (simp add: ws t del: poll_loop.simps)
  qed
qed

section \<open>The completion queue as a bounded queue\<close>

definition blank_wc :: ib_wc where
  "blank_wc = \<lparr>wc_wr_id = 0, wc_status = 0, wc_opcode = 0, wc_byte_len = 0, wc_qp = NULL\<rparr>"

lemma set_wc_blank: "set_wc wc cqe = set_wc blank_wc cqe"
  by (cases wc) (simp add: set_wc_def blank_wc_def)

definition poll_one :: "heap \<Rightarrow> ptr \<Rightarrow> (ib_wc option \<times> heap) kres" where
  "poll_one h p = rbind (dis_poll_cq h p 1 [blank_wc]) (\<lambda>(n, ws, h').
     Inr (if n = 0 then None else Some (hd ws), h'))"

definition posts_to :: "heap \<Rightarrow> wq_ref \<Rightarrow> ptr \<Rightarrow> bool" where
  "posts_to h wq p \<longleftrightarrow> (case get_wq h wq of Inl _ \<Rightarrow> False | Inr w \<Rightarrow> wq_cq w = p)"

lemma posts_to_frame [heap_simps]:
  "posts_to (cq_pushed h p' x) wq p = posts_to h wq p"
  "posts_to (cq_popped h p') wq p = posts_to h wq p"
  by (simp_all add: posts_to_def heap_simps)

lemma posts_toE:
  assumes "posts_to h wq p"
  obtains w where "get_wq h wq = Inr w" "wq_cq w = p"
  using assms by (auto simp: posts_to_def split: sum.splits)

lemma poll_one_some:
  assumes "cq_ok h p" "cq_list h p = x # xs"
  shows "poll_one h p = Inr (Some (set_wc blank_wc x), cq_popped h p)"
proof -
  have "poll_loop (Suc 0) h p [blank_wc] 0 =
      poll_loop 0 (cq_popped h p) p [set_wc blank_wc x] (Suc 0)"
    using poll_loop_step [OF assms, of 0 "[blank_wc]" 0] by simp
  then show ?thesis
    by (simp add: poll_one_def dis_poll_cq_def del: poll_loop.simps(2))
qed

lemma poll_one_none:
  "cq_ok h p \<Longrightarrow> cq_list h p = [] \<Longrightarrow> poll_one h p = Inr (None, h)"
  using poll_loop_empty [of h p 0 "[blank_wc]" 0]
  by (simp add: poll_one_def dis_poll_cq_def del: poll_loop.simps(2))

interpretation cqq: bounded_queue
  "\<lambda>h. cq_ok h p \<and> posts_to h wq p"
  "\<lambda>h. map (set_wc blank_wc) (cq_list h p)"
  "\<lambda>h. cq_cap h p"
  "\<lambda>h r. True"
  "\<lambda>h (wqe, st). set_wc blank_wc (cqe_of wqe st)"
  "\<lambda>h (wqe, st). dis_wq_post_sqe_cqe h wq wqe st"
  "\<lambda>h. poll_one h p" for p wq
proof (unfold_locales, goal_cases)
  case (1 h)
  then show ?case by (simp add: cq_list_bound)
next
  case (2 h r)
  obtain wqe st where r: "r = (wqe, st)" by (cases r)
  from 2 obtain w where w: "get_wq h wq = Inr w" "wq_cq w = p" by (auto elim: posts_toE)
  from 2 have len: "cq_ok h p" "length (cq_list h p) < cq_cap h p" by simp_all
  with post_sqe_cqe_room [OF len(1) w len(2)] cq_pushed_ok [OF len] 2 r show ?case
    by (simp add: heap_simps)
next
  case (3 h r)
  then show ?case
    by (cases r) (auto elim!: posts_toE simp: post_sqe_cqe_full)
next
  case (4 h x xs)
  then obtain y ys where "cq_list h p = y # ys" "x = set_wc blank_wc y"
      "xs = map (set_wc blank_wc) ys" by auto
  with 4 poll_one_some [of h p y ys] cq_popped_ok [of h p y ys] show ?case
    by (simp add: heap_simps)
next
  case (5 h)
  then show ?case by (simp add: poll_one_none)
qed

section \<open>Creation and destruction\<close>

lemma create_cq_size:
  assumes "unat (n :: u32) < 2 ^ 31"
  obtains m where "roundup_pow_of_two (ucast (n + 1)) = Inr m" "ring_size (ucast m)"
    "unat (ucast m :: u32) = unat m" "Suc (unat n) \<le> unat m" "unat m \<le> 2 * unat n + 1"
proof -
  have n1: "unat (n + 1) = Suc (unat n)"
    using assms by (simp add: unat_plus_if')
  then obtain m where m: "roundup_pow_of_two (ucast (n + 1)) = Inr m"
    using roundup_pow_of_two_spec [of "ucast (n + 1)"] assms by auto
  have "ring_size (ucast m) \<and> unat (ucast m :: u32) = unat m \<and> Suc (unat n) \<le> unat m
      \<and> unat m < 2 * Suc (unat n)"
    using roundup_pow_of_two_ring_size [OF _ _ m] assms n1 by simp
  with m show ?thesis by (auto intro: that)
qed

lemma create_cq_ok:
  assumes "heap_ok h" "ibcq \<noteq> NULL" "h_cq h ibcq = Some cq"
    and "circ_head (cq_cqe_circ cq) = 0" "circ_tail (cq_cqe_circ cq) = 0" "unat n < 2 ^ 31"
  shows "(\<exists>h' cq'. dis_create_cq env h ibcq n = Inr (0, h') \<and> heap_ok h' \<and> cq_ok h' ibcq
      \<and> cq_list h' ibcq = [] \<and> unat n \<le> cq_cap h' ibcq \<and> cq_cap h' ibcq \<le> 2 * unat n
      \<and> h_cq h' ibcq = Some cq' \<and> unat (cq_ibcq_cqe cq') = Suc (cq_cap h' ibcq))
    \<or> (\<exists>h'. dis_create_cq env h ibcq n = Inr (-42, h') \<and> h_cqe h' = h_cqe h)"
proof -
  obtain m where m: "roundup_pow_of_two (ucast (n + 1)) = Inr m" "ring_size (ucast m)"
    "unat (ucast m :: u32) = unat m" "Suc (unat n) \<le> unat m" "unat m \<le> 2 * unat n + 1"
    by (rule create_cq_size [OF assms(6)])
  show ?thesis
  proof (cases "k_alloc env h (AllocCqes (ucast m))")
    case False
    with assms m(1) show ?thesis by (simp add: dis_create_cq_def kres_simps Let_def)
  next
    case True
    have "0 < h_next h" using assms(1) by (simp add: heap_ok_def)
    moreover have "heap_ok (h\<lparr>h_next := Suc (h_next h),
        h_cqe := (h_cqe h)(h_next h \<mapsto> x), h_cq := (h_cq h)(ibcq \<mapsto> y)\<rparr>)" for x y
      using assms(1,3) by (auto simp: heap_ok_def)
    moreover have "unat n \<le> unat m - Suc 0 \<and> unat m - Suc 0 \<le> 2 * unat n"
      using m(4,5) by arith
    ultimately show ?thesis
      using assms m True
      by (simp add: dis_create_cq_def kres_simps cq_ok_def cq_list_def cq_cap_def circ_ok_def
          circ_list_def ring_list_empty Let_def)
  qed
qed

text \<open>Destroying a queue that was created gives back the memory of its entries.\<close>

lemma create_destroy_cq:
  assumes "heap_ok h" "ibcq \<noteq> NULL" "dis_create_cq env h ibcq n = Inr (0, h1)"
  shows "\<exists>h2. dis_destroy_cq h1 ibcq = Inr h2 \<and> h_cqe h2 = h_cqe h"
proof -
  have "0 < h_next h" "h_cqe h (h_next h) = None"
    using assms(1) by (simp_all add: heap_ok_def fresh_in_next)
  with assms(2,3) show ?thesis
    by (auto simp: dis_create_cq_def dis_destroy_cq_def rbind_eq_Inr deref_eq_Inr Let_def kres_simps
        map_upd_restore fun_upd_idem split: if_splits)
qed

section \<open>Properties\<close>

text \<open>
  A concrete store for the witnesses: a completion queue (object 5, entries in object 6, four
  slots, the head about to wrap around) and a queue pair (object 7) whose send queue reports to it.
\<close>

definition ex_cqe :: "u32 \<Rightarrow> dis_cqe" where
  "ex_cqe i = zero_cqe\<lparr>cqe_wr_id := i\<rparr>"

definition ex_cq_heap :: "c_int \<Rightarrow> c_int \<Rightarrow> heap" where
  "ex_cq_heap hi ti = empty_heap\<lparr>h_next := 8,
     h_cq := [5 \<mapsto> zero_cq\<lparr>cq_cqe_max := 4,
       cq_cqe_circ := \<lparr>circ_buf_mem = 6, circ_head = hi, circ_tail = ti\<rparr>\<rparr>],
     h_cqe := [6 \<mapsto> [ex_cqe 10, ex_cqe 11, ex_cqe 12, ex_cqe 13]],
     h_qp := [7 \<mapsto> zero_qp\<lparr>qp_sq := zero_wq\<lparr>wq_cq := 5\<rparr>\<rparr>]\<rparr>"

lemma ex_cq_heap_ok: "unat hi < 4 \<Longrightarrow> unat ti < 4 \<Longrightarrow> cq_ok (ex_cq_heap hi ti) 5"
  by (simp add: cq_ok_def ex_cq_heap_def zero_cq_def circ_ok_def)

lemma ex_cq_heap_wq: "get_wq (ex_cq_heap hi ti) (SqOf 7) = Inr (zero_wq\<lparr>wq_cq := 5\<rparr>)"
  by (simp add: ex_cq_heap_def zero_qp_def kres_simps)

lemma ex_cq_heap_posts: "posts_to (ex_cq_heap hi ti) (SqOf 7) 5"
  by (simp add: posts_to_def ex_cq_heap_wq del: get_wq.simps)

lemma ex_cq_heap_list: "cq_list (ex_cq_heap 0 2) 5 = [ex_cqe 12, ex_cqe 13]"
  by (simp add: cq_list_def ex_cq_heap_def zero_cq_def circ_list_def ring_list_def ring_cnt_def
      upt_rec)

lemma ex_cq_heap_cap: "cq_cap (ex_cq_heap hi ti) 5 = 3"
  by (simp add: cq_cap_def ex_cq_heap_def)

text \<open>
  C8. Polling delivers the oldest completions in order: as many as were asked for or as there are,
  written to the front of the caller's array, and leaves exactly the rest in the queue.
\<close>

theorem poll_cq_delivers:
  assumes "cq_ok h p" and "k = min (nat (sint num_wc)) (length (cq_list h p))"
    and "k \<le> length ibwc"
  shows "\<exists>h'. dis_poll_cq h p num_wc ibwc =
      Inr (k, map2 set_wc (take k ibwc) (take k (cq_list h p)) @ drop k ibwc, h')
    \<and> cq_ok h' p \<and> cq_list h' p = drop k (cq_list h p)"
  using poll_loop_spec [OF assms(1,2), of 0 ibwc] assms(3)
  by (simp add: dis_poll_cq_def)

theorem poll_cq_delivers_witness:
  "\<exists>h'. dis_poll_cq (ex_cq_heap 0 2) 5 5 [blank_wc, blank_wc, blank_wc] =
     Inr (2, [set_wc blank_wc (ex_cqe 12), set_wc blank_wc (ex_cqe 13), blank_wc], h')
   \<and> cq_ok h' 5 \<and> cq_list h' 5 = []"
proof -
  have "2 = min (nat (sint (5 :: c_int))) (length (cq_list (ex_cq_heap 0 2) 5))"
    unfolding ex_cq_heap_list by simp
  from poll_cq_delivers [OF ex_cq_heap_ok this, of "[blank_wc, blank_wc, blank_wc]"]
  show ?thesis
    unfolding ex_cq_heap_list by simp
qed

text \<open>
  C9. Posting a completion appends it, or, on a full queue, fails with \<open>-42\<close> and leaves the whole
  store as it was (the lock released again); it never faults and never overwrites an entry.
\<close>

theorem post_cqe_appends:
  assumes "cq_ok h p" and "get_wq h wq = Inr w" and "wq_cq w = p"
  shows "if length (cq_list h p) < cq_cap h p
    then \<exists>h'. dis_wq_post_sqe_cqe h wq wqe st = Inr (0, h') \<and> cq_ok h' p
      \<and> cq_list h' p = cq_list h p @ [cqe_of wqe st]
    else dis_wq_post_sqe_cqe h wq wqe st = Inr (-42, h)"
  using cq_list_bound [OF assms(1)] post_sqe_cqe_full [OF assms] post_sqe_cqe_room [OF assms]
    cq_pushed_ok [OF assms(1)]
  by simp

theorem post_cqe_appends_witness:
  "\<exists>h'. dis_wq_post_sqe_cqe (ex_cq_heap 0 2) (SqOf 7) zero_wqe 0 = Inr (0, h') \<and> cq_ok h' 5
     \<and> cq_list h' 5 = [ex_cqe 12, ex_cqe 13, cqe_of zero_wqe 0]"
  using post_cqe_appends [OF ex_cq_heap_ok ex_cq_heap_wq, of 0 2 zero_wqe 0]
  by (simp add: ex_cq_heap_list ex_cq_heap_cap)

text \<open>
  C13. Over any history of posts and polls nothing is lost, invented, duplicated or reordered: the
  completions present at first followed by those accepted are those delivered followed by those
  still queued; and no operation of the history faults.
\<close>

theorem cq_history_fifo:
  assumes "cq_ok h p" and "posts_to h wq p"
  shows "\<exists>acc out h'. queue_run (\<lambda>h (wqe, st). dis_wq_post_sqe_cqe h wq wqe st)
        (\<lambda>h (wqe, st). set_wc blank_wc (cqe_of wqe st)) (\<lambda>h. poll_one h p) ops h
      = Inr (acc, out, h')
    \<and> cq_ok h' p \<and> map (set_wc blank_wc) (cq_list h p) @ acc = out @ map (set_wc blank_wc) (cq_list h' p)"
  using cqq.queue_run_fifo [of h p wq ops] assms by auto

theorem cq_history_fifo_witness:
  "\<exists>acc out h'. queue_run (\<lambda>h (wqe, st). dis_wq_post_sqe_cqe h (SqOf 7) wqe st)
        (\<lambda>h (wqe, st). set_wc blank_wc (cqe_of wqe st)) (\<lambda>h. poll_one h 5)
        [Put (zero_wqe, 0), Get, Get, Put (zero_wqe, 20), Get, Get, Get] (ex_cq_heap 0 2)
      = Inr (acc, out, h')
    \<and> cq_ok h' 5 \<and> map (set_wc blank_wc) [ex_cqe 12, ex_cqe 13] @ acc
        = out @ map (set_wc blank_wc) (cq_list h' 5)"
  using cq_history_fifo [OF ex_cq_heap_ok ex_cq_heap_posts, of 0 2
      "[Put (zero_wqe, 0), Get, Get, Put (zero_wqe, 20), Get, Get, Get]"]
  by (simp add: ex_cq_heap_list del: queue_run.simps)

text \<open>
  The two posting functions, which a comment in the code keeps apart only for tracing, are the
  same function.
\<close>

lemma post_cqe_same: "dis_wq_post_rqe_cqe h wq wqe st = dis_wq_post_sqe_cqe h wq wqe st"
  by (simp add: post_rqe_eq_sqe)

text \<open>
  C19. What a poller sees of a completed request: the identifier, opcode, queue pair and status
  survive, but the byte count is the count of the request modulo \<open>2 ^ 16\<close>, because a queue entry
  keeps only 16 bits of it.
\<close>

theorem completion_roundtrip:
  assumes "cq_ok h p" and "cq_list h p = []" and "0 < cq_cap h p"
    and "get_wq h wq = Inr w" and "wq_cq w = p" and "unat st < 2 ^ 16"
  shows "\<exists>h1 h2 wc. dis_wq_post_sqe_cqe h wq wqe st = Inr (0, h1)
    \<and> dis_poll_cq h1 p 1 [wc0] = Inr (1, [wc], h2)
    \<and> wc_wr_id wc = ucast (wqe_wr_id wqe) \<and> wc_opcode wc = ucast (wqe_opcode wqe)
    \<and> wc_qp wc = wqe_ibqp wqe \<and> wc_status wc = st
    \<and> unat (wc_byte_len wc) = unat (wqe_byte_len wqe) mod 2 ^ 16"
proof -
  have len: "length (cq_list h p) < cq_cap h p" using assms(2,3) by simp
  note post = post_sqe_cqe_room [OF assms(1,4,5) len]
  have "cq_list (cq_pushed h p (cqe_of wqe st)) p = [cqe_of wqe st]"
    using cq_pushed_ok(2) [OF assms(1) len] assms(2) by simp
  then have "dis_poll_cq (cq_pushed h p (cqe_of wqe st)) p 1 [wc0] =
      Inr (1, [set_wc wc0 (cqe_of wqe st)],
        cq_popn 1 (cq_pushed h p (cqe_of wqe st)) p)"
    using poll_loop_spec [OF cq_pushed_ok(1) [OF assms(1) len], of 1 1 "cqe_of wqe st" 0 "[wc0]"]
    by (simp add: dis_poll_cq_def del: poll_loop.simps)
  moreover have "(ucast (ucast st :: u16) :: u32) = st"
    using assms(6) by (simp add: word_unat_eq_iff unsigned_ucast_eq unsigned_take_bit_eq take_bit_nat_eq_self)
  moreover have "unat (ucast (ucast (wqe_byte_len wqe) :: u16) :: u32)
      = unat (wqe_byte_len wqe) mod 2 ^ 16"
    by (simp add: unat_ucast_mod)
  ultimately show ?thesis
    using post by (auto simp: set_wc_def cqe_of_def)
qed


theorem completion_roundtrip_witness:
  "\<exists>h1 h2 wc. dis_wq_post_sqe_cqe (ex_cq_heap 2 2) (SqOf 7) (zero_wqe\<lparr>wqe_byte_len := 65537\<rparr>) 20
      = Inr (0, h1) \<and> dis_poll_cq h1 5 1 [blank_wc] = Inr (1, [wc], h2)
    \<and> wc_status wc = 20 \<and> unat (wc_byte_len wc) = 1"
proof -
  have "cq_list (ex_cq_heap 2 2) 5 = []"
    by (simp add: cq_list_def ex_cq_heap_def circ_list_def ring_list_empty)
  from completion_roundtrip [OF ex_cq_heap_ok this _ ex_cq_heap_wq, of 20 "zero_wqe\<lparr>wqe_byte_len := 65537\<rparr>" blank_wc]
  show ?thesis by (auto simp: ex_cq_heap_cap)
qed

text \<open>
  C26. Creating a completion queue for \<open>n\<close> entries gives an empty, well-formed queue with room for
  at least \<open>n\<close> and at most \<open>2 * n\<close> completions, or fails with \<open>-42\<close> when memory is short, leaking
  nothing. The number of entries it reports to the core is one more than it can hold.
\<close>

theorem create_cq_capacity:
  assumes "heap_ok h" "ibcq \<noteq> NULL" "h_cq h ibcq = Some cq"
    and "circ_head (cq_cqe_circ cq) = 0" "circ_tail (cq_cqe_circ cq) = 0" "unat n < 2 ^ 31"
  shows "(\<exists>h' cq'. dis_create_cq env h ibcq n = Inr (0, h') \<and> heap_ok h' \<and> cq_ok h' ibcq
      \<and> cq_list h' ibcq = [] \<and> unat n \<le> cq_cap h' ibcq \<and> cq_cap h' ibcq \<le> 2 * unat n
      \<and> h_cq h' ibcq = Some cq' \<and> unat (cq_ibcq_cqe cq') = Suc (cq_cap h' ibcq))
    \<or> (\<exists>h'. dis_create_cq env h ibcq n = Inr (-42, h') \<and> h_cqe h' = h_cqe h)"
  using assms by (rule create_cq_ok)

definition ex_fresh_cq_heap :: heap where
  "ex_fresh_cq_heap = empty_heap\<lparr>h_next := 8, h_cq := [7 \<mapsto> zero_cq]\<rparr>"

lemma ex_fresh_cq_heap_ok: "heap_ok ex_fresh_cq_heap"
  by (simp add: ex_fresh_cq_heap_def heap_ok_def empty_heap_def fresh_in_def)

theorem create_cq_capacity_witness:
  "(\<exists>h' cq'. dis_create_cq roomy_env ex_fresh_cq_heap 7 20 = Inr (0, h') \<and> heap_ok h'
      \<and> cq_ok h' 7 \<and> cq_list h' 7 = [] \<and> 20 \<le> cq_cap h' 7 \<and> cq_cap h' 7 \<le> 40
      \<and> h_cq h' 7 = Some cq' \<and> unat (cq_ibcq_cqe cq') = Suc (cq_cap h' 7))
    \<or> (\<exists>h'. dis_create_cq roomy_env ex_fresh_cq_heap 7 20 = Inr (-42, h')
      \<and> h_cqe h' = h_cqe ex_fresh_cq_heap)"
  using create_cq_capacity [OF ex_fresh_cq_heap_ok, of 7 zero_cq 20 roomy_env]
  by (simp add: ex_fresh_cq_heap_def zero_cq_def zero_circ_def)

text \<open>
  A completion queue that was created and is destroyed gives back the memory of its entries:
  the arrays of the store are those from before the creation.
\<close>

lemma create_destroy_cq_balanced:
  assumes "heap_ok h" "ibcq \<noteq> NULL" "dis_create_cq env h ibcq n = Inr (0, h1)"
  shows "\<exists>h2. dis_destroy_cq h1 ibcq = Inr h2 \<and> h_cqe h2 = h_cqe h"
  using assms by (rule create_destroy_cq)

end
