(* ===== verification/Key_Table.thy ===== *)
theory Key_Table
  imports Prelude
begin

text \<open>
  The contract of a table of objects indexed by consecutive keys, as a locale: what registering
  promises, and what follows for any sequence of registrations.
\<close>

section \<open>A table of registered objects\<close>

text \<open>
  The interface that the region table and the queue pair table of a protection domain have in
  common: registering hands out consecutive keys from a counter, a key names what was registered
  under it from then on, and the table has a limit. An object carries the number it was given, in the
  representation \<open>num\<close> of its own field.
\<close>

fun register_all :: "('s \<Rightarrow> 'r \<Rightarrow> (ptr \<times> 's) kres) \<Rightarrow> 'r list \<Rightarrow> 's \<Rightarrow> (ptr list \<times> 's) kres" where
  "register_all reg [] s = Inr ([], s)"
| "register_all reg (r # rs) s = rbind (reg s r) (\<lambda>(p, s1).
     rbind (register_all reg rs s1) (\<lambda>(ps, s2). Inr (if p = NULL then ps else p # ps, s2)))"

locale key_table =
  fixes ok :: "'s \<Rightarrow> bool"
    and count :: "'s \<Rightarrow> nat"
    and limit :: nat
    and lookup :: "'s \<Rightarrow> nat \<Rightarrow> ptr option"
    and reg :: "'s \<Rightarrow> 'r \<Rightarrow> (ptr \<times> 's) kres"
    and valid :: "'r \<Rightarrow> bool"
    and carried :: "'s \<Rightarrow> ptr \<Rightarrow> 'n option"
    and num :: "nat \<Rightarrow> 'n"
  assumes count_limit: "ok s \<Longrightarrow> count s \<le> limit"
    and lookup_count: "ok s \<Longrightarrow> count s \<le> k \<Longrightarrow> lookup s k = None"
    and reg_full: "ok s \<Longrightarrow> valid r \<Longrightarrow> count s = limit \<Longrightarrow> reg s r = Inr (NULL, s)"
    and reg_cases: "ok s \<Longrightarrow> valid r \<Longrightarrow> \<exists>p s'. reg s r = Inr (p, s') \<and> ok s'
      \<and> (if p = NULL then count s' = count s \<and> lookup s' = lookup s \<and> carried s' = carried s
         else count s' = Suc (count s) \<and> lookup s' = (lookup s)(count s \<mapsto> p)
           \<and> p \<notin> ran (lookup s) \<and> carried s p = None \<and> carried s' = (carried s)(p \<mapsto> num (count s)))"
begin

lemma regE:
  assumes "ok s" "valid r"
  obtains (refused) s' where "reg s r = Inr (NULL, s')" "ok s'" "count s' = count s"
      "lookup s' = lookup s" "carried s' = carried s"
    | (registered) p s' where "reg s r = Inr (p, s')" "p \<noteq> NULL" "ok s'" "count s < limit"
      "count s' = Suc (count s)" "lookup s' = (lookup s)(count s \<mapsto> p)" "p \<notin> ran (lookup s)"
      "carried s p = None" "carried s' = (carried s)(p \<mapsto> num (count s))"
proof -
  obtain p s' where *: "reg s r = Inr (p, s')" "ok s'"
    "if p = NULL then count s' = count s \<and> lookup s' = lookup s \<and> carried s' = carried s
     else count s' = Suc (count s) \<and> lookup s' = (lookup s)(count s \<mapsto> p)
       \<and> p \<notin> ran (lookup s) \<and> carried s p = None \<and> carried s' = (carried s)(p \<mapsto> num (count s))"
    using reg_cases [OF assms] by blast
  show ?thesis
  proof (cases "p = NULL")
    case True
    with * show ?thesis by (auto intro: refused)
  next
    case False
    moreover from this have "count s < limit"
      using reg_full [OF assms] count_limit [OF assms(1)] *(1) by (cases "count s = limit") auto
    ultimately show ?thesis using * by (auto intro: registered)
  qed
qed

lemma register_all_keys:
  assumes "ok s" "\<forall>r \<in> set rs. valid r"
  shows "\<exists>ps s'. register_all reg rs s = Inr (ps, s') \<and> ok s' \<and> count s' = count s + length ps
    \<and> distinct ps \<and> set ps \<inter> ran (lookup s) = {}
    \<and> (\<forall>i < length ps. lookup s' (count s + i) = Some (ps ! i))
    \<and> (\<forall>k < count s. lookup s' k = lookup s k)
    \<and> (\<forall>i < length ps. carried s' (ps ! i) = Some (num (count s + i)))
    \<and> (\<forall>p. carried s p \<noteq> None \<longrightarrow> carried s' p = carried s p)"
  using assms
proof (induction rs arbitrary: s)
  case Nil
  then show ?case by simp
next
  case (Cons r rs)
  then have "valid r" and rest: "\<forall>r \<in> set rs. valid r" by simp_all
  from \<open>ok s\<close> this(1) show ?case
  proof (cases rule: regE [of s r])
    case (refused s1)
    with Cons.IH [OF \<open>ok s1\<close> rest] show ?thesis by auto
  next
    case (registered p s1)
    obtain ps s2 where IH: "register_all reg rs s1 = Inr (ps, s2)" "ok s2"
      "count s2 = count s1 + length ps" "distinct ps" "set ps \<inter> ran (lookup s1) = {}"
      "\<forall>i < length ps. lookup s2 (count s1 + i) = Some (ps ! i)"
      "\<forall>k < count s1. lookup s2 k = lookup s1 k"
      "\<forall>i < length ps. carried s2 (ps ! i) = Some (num (count s1 + i))"
      "\<forall>p. carried s1 p \<noteq> None \<longrightarrow> carried s2 p = carried s1 p"
      using Cons.IH [OF \<open>ok s1\<close> rest] by blast
    have ran: "ran (lookup s1) = insert p (ran (lookup s))"
      using registered lookup_count [OF \<open>ok s\<close>, of "count s"] by (simp add: ran_map_upd)
    have "lookup s2 (count s + i) = Some ((p # ps) ! i)" if "i < length (p # ps)" for i
      using that IH(6,7) registered by (cases i) auto
    moreover have "carried s2 ((p # ps) ! i) = Some (num (count s + i))" if "i < length (p # ps)" for i
      using that IH(8,9) registered by (cases i) auto
    moreover have "carried s2 q = carried s q" if "carried s q \<noteq> None" for q
      using that IH(9) registered by (cases "q = p") auto
    ultimately show ?thesis
      using IH(1-7) registered ran by auto
  qed
qed

lemma register_all_limit:
  assumes "ok s" "\<forall>r \<in> set rs. valid r" "register_all reg rs s = Inr (ps, s')"
  shows "count s + length ps \<le> limit"
  using register_all_keys [OF assms(1,2)] assms(3) count_limit [of s'] by auto

end

end
