(* ===== verification/Memory_Region.thy ===== *)
theory Memory_Region
  imports Heap Ring Key_Table
begin

text \<open>
  Protection domains and memory regions of \<open>dis_verbs.c\<close>: the table of regions a protection
  domain keeps, indexed by the local key it hands out, and the registration and deregistration
  of regions, with every error path.
\<close>

section \<open>Protection domains\<close>

text \<open>
  \<open>container_of\<close> yields the enclosing structure, which is the same object; the conversions only
  keep \<open>NULL\<close> apart.
\<close>

definition to_dis_pd :: "ptr \<Rightarrow> ptr" where
  "to_dis_pd ibpd = (if ibpd \<noteq> NULL then ibpd else NULL)"

definition to_dis_dev :: "ptr \<Rightarrow> ptr" where
  "to_dis_dev ibdev = (if ibdev \<noteq> NULL then ibdev else NULL)"

definition to_dis_mr :: "ptr \<Rightarrow> ptr" where
  "to_dis_mr ibmr = (if ibmr \<noteq> NULL then ibmr else NULL)"

lemma container_simps [simp]: "to_dis_pd p = p" "to_dis_dev p = p" "to_dis_mr p = p"
  by (simp_all add: to_dis_pd_def to_dis_dev_def to_dis_mr_def)

definition dis_alloc_pd :: "heap \<Rightarrow> ptr \<Rightarrow> (int \<times> heap) kres" where
  "dis_alloc_pd h ibpd =
     rbind (deref (h_pd h) (to_dis_pd ibpd)) (\<lambda>pd.
     let dev = to_dis_dev (pd_ibpd_device pd) in
     Inr (0, h\<lparr>h_pd := (h_pd h)(to_dis_pd ibpd \<mapsto>
       pd\<lparr>pd_dev := dev, pd_qp_c := DIS_QP_INI, pd_mr_c := DIS_MR_INI\<rparr>)\<rparr>))"

definition dis_dealloc_pd :: "heap \<Rightarrow> ptr \<Rightarrow> heap kres" where
  "dis_dealloc_pd h ibpd = Inr h"

section \<open>Registration\<close>

text \<open>
  Both registrations end alike: the key is the number of regions registered so far, the region
  goes into the slot of that number, and the number grows. The \<open>ib_mr *\<close> result is \<open>Inl\<close> of an
  error (\<open>ERR_PTR\<close>) or \<open>Inr\<close> of the region.
\<close>

definition register_mr :: "heap \<Rightarrow> ptr \<Rightarrow> ptr \<Rightarrow> dis_mr \<Rightarrow> ((int + ptr) \<times> heap) kres" where
  "register_mr h pdp mrp mr =
     rbind (deref (h_pd h) pdp) (\<lambda>pd.
     rbind (array_put (pd_mr_list pd) (unat (pd_mr_c pd)) mrp) (\<lambda>lst.
     Inr (Inr mrp, h\<lparr>h_mr := (h_mr h)(mrp \<mapsto> mr\<lparr>mr_lkey := pd_mr_c pd\<rparr>),
       h_pd := (h_pd h)(pdp \<mapsto> pd\<lparr>pd_mr_list := lst, pd_mr_c := pd_mr_c pd + 1\<rparr>)\<rparr>)))"

definition dis_get_dma_mr :: "kenv \<Rightarrow> heap \<Rightarrow> ptr \<Rightarrow> int \<Rightarrow> ((int + ptr) \<times> heap) kres" where
  "dis_get_dma_mr env h ibpd access =
     rbind (deref (h_pd h) (to_dis_pd ibpd)) (\<lambda>pd.
     if pd_mr_c pd \<ge> DIS_MR_MAX then Inr (Inl (- EINVAL), h)
     else if \<not> k_alloc env h AllocMr then Inr (Inl (- EINVAL), h)
     else
       let mrp = h_next h; mr = zero_mr\<lparr>mr_is_dma := 1\<rparr> in
       register_mr (h\<lparr>h_next := Suc mrp, h_mr := (h_mr h)(mrp \<mapsto> mr)\<rparr>) (to_dis_pd ibpd) mrp mr)"

text \<open>
  The loop over the pinned pages: \<open>None\<close> if a page has no kernel address (the
  \<open>page_address_err\<close> exit), else the filled array. Writing past the array is a fault.
\<close>

fun fill_pages :: "u64 list \<Rightarrow> iovec list \<Rightarrow> nat \<Rightarrow> iovec list option kres" where
  "fill_pages [] pages i = Inr (Some pages)"
| "fill_pages (a # as) pages i =
     rbind (array_get pages i) (\<lambda>page.
     rbind (array_put pages i (page\<lparr>iov_base := a\<rparr>)) (\<lambda>pages1.
     if a = 0 then Inr None
     else
       rbind (array_put pages1 i (page\<lparr>iov_base := a, iov_len := PAGE_SIZE\<rparr>)) (\<lambda>pages2.
       fill_pages as pages2 (Suc i))))"

definition dis_reg_user_mr ::
  "kenv \<Rightarrow> heap \<Rightarrow> ptr \<Rightarrow> u64 \<Rightarrow> u64 \<Rightarrow> u64 \<Rightarrow> int \<Rightarrow> ((int + ptr) \<times> heap) kres" where
  "dis_reg_user_mr env h ibpd start len va access =
     rbind (deref (h_pd h) (to_dis_pd ibpd)) (\<lambda>pd.
     if pd_mr_c pd \<ge> DIS_MR_MAX then Inr (Inl (- EINVAL), h)
     else if \<not> k_alloc env h AllocMr then Inr (Inl (- EINVAL), h)
     else
       let mrp = h_next h;
           h1 = h\<lparr>h_next := Suc mrp, h_mr := (h_mr h)(mrp \<mapsto> zero_mr)\<rparr> in
     case k_umem_get env start len access of
       None \<Rightarrow> rbind (kfree (h_mr h1) mrp) (\<lambda>mrs. Inr (Inl (- EINVAL), h1\<lparr>h_mr := mrs\<rparr>))
     | Some um \<Rightarrow>
       let ump = h_next h1;
           h2 = h1\<lparr>h_next := Suc ump, h_umem := (h_umem h1)(ump \<mapsto> um)\<rparr>;
           mr1 = zero_mr\<lparr>mr_ibumem := ump, mr_page_count := um_page_count um\<rparr>;
           release = (\<lambda>h. rbind (kfree (h_umem h) ump) (\<lambda>ums.
             rbind (kfree (h_mr h) mrp) (\<lambda>mrs.
             Inr (Inl (- EINVAL), h\<lparr>h_umem := ums, h_mr := mrs\<rparr>)))) in
       if mr_page_count mr1 = 0 then release h2
       else if \<not> k_alloc env h2 (AllocPages (mr_page_count mr1)) then release h2
       else
         let pgp = h_next h2; mr2 = mr1\<lparr>mr_pages := pgp\<rparr> in
         rbind (fill_pages (um_page_addrs um)
             (replicate (unat (mr_page_count mr2)) zero_iovec) 0) (\<lambda>filled.
         case filled of
           None \<Rightarrow>
             let h3 = h2\<lparr>h_next := Suc pgp, h_iov := (h_iov h2)(pgp \<mapsto>
                   replicate (unat (mr_page_count mr2)) zero_iovec)\<rparr> in
             rbind (kfree (h_iov h3) pgp) (\<lambda>iovs. release (h3\<lparr>h_iov := iovs\<rparr>))
         | Some pages \<Rightarrow>
             register_mr (h2\<lparr>h_next := Suc pgp, h_iov := (h_iov h2)(pgp \<mapsto> pages)\<rparr>)
               (to_dis_pd ibpd) mrp
               (mr2\<lparr>mr_mr_va := va, mr_mr_length := len, mr_va_offset := um_offset um\<rparr>)))"

definition dis_dereg_mr :: "heap \<Rightarrow> ptr \<Rightarrow> (int \<times> heap) kres" where
  "dis_dereg_mr h ibmr =
     (let mrp = to_dis_mr ibmr in
     rbind (deref (h_mr h) mrp) (\<lambda>mr.
     rbind (if mr_is_dma mr = 0
            then rbind (kfree (h_iov h) (mr_pages mr)) (\<lambda>iovs.
                 rbind (kfree (h_umem h) (mr_ibumem mr)) (\<lambda>ums.
                 Inr (h\<lparr>h_iov := iovs, h_umem := ums\<rparr>)))
            else Inr h) (\<lambda>h1.
     rbind (kfree (h_mr h1) mrp) (\<lambda>mrs.
     Inr (0, h1\<lparr>h_mr := mrs\<rparr>)))))"

section \<open>Well-formed protection domains\<close>

text \<open>
  The tables have their declared sizes, the counters are within them, every key below the counter
  names a slot that was filled, and no slot above it was.
\<close>

definition pd_ok :: "dis_pd \<Rightarrow> bool" where
  "pd_ok pd \<longleftrightarrow> length (pd_mr_list pd) = unat DIS_MR_MAX \<and> length (pd_qp_list pd) = unat DIS_QP_MAX
     \<and> pd_mr_c pd \<le> DIS_MR_MAX \<and> DIS_QP_INI \<le> pd_qp_c pd \<and> pd_qp_c pd \<le> DIS_QP_MAX
     \<and> (\<forall>i < unat DIS_MR_MAX. pd_mr_list pd ! i = NULL \<longleftrightarrow> unat (pd_mr_c pd) \<le> i)
     \<and> (\<forall>i < unat DIS_QP_MAX. pd_qp_list pd ! i \<noteq> NULL \<longleftrightarrow>
          unat DIS_QP_INI \<le> i \<and> i < unat (pd_qp_c pd))"

text \<open>What the table says of a key, and how many keys were handed out.\<close>

definition mr_lookup :: "heap \<Rightarrow> ptr \<Rightarrow> nat \<Rightarrow> ptr option" where
  "mr_lookup h pdp lkey = (case h_pd h pdp of None \<Rightarrow> None
     | Some pd \<Rightarrow> if lkey < unat (pd_mr_c pd) then Some (pd_mr_list pd ! lkey) else None)"

definition mr_count :: "heap \<Rightarrow> ptr \<Rightarrow> nat" where
  "mr_count h pdp = (case h_pd h pdp of None \<Rightarrow> 0 | Some pd \<Rightarrow> unat (pd_mr_c pd))"

text \<open>The pages of a registered user region: as many as were pinned, in order, each one full.\<close>

definition user_mr_ok :: "heap \<Rightarrow> dis_mr \<Rightarrow> bool" where
  "user_mr_ok h mr \<longleftrightarrow> mr_is_dma mr = 0 \<and> mr_va_offset mr < PAGE_SIZE
     \<and> (case h_umem h (mr_ibumem mr) of None \<Rightarrow> False
        | Some um \<Rightarrow> mr_page_count mr = um_page_count um \<and> mr_va_offset mr = um_offset um
            \<and> h_iov h (mr_pages mr) =
                Some (map (\<lambda>a. \<lparr>iov_base = a, iov_len = PAGE_SIZE\<rparr>) (um_page_addrs um)))"

text \<open>
  What is documented of a pinned segment: the pages visited are the pages counted, and the first
  byte of the segment lies in the first page.
\<close>

definition umem_documented :: "ib_umem \<Rightarrow> bool" where
  "umem_documented um \<longleftrightarrow> length (um_page_addrs um) = unat (um_page_count um)
     \<and> um_offset um < PAGE_SIZE"

definition umem_contract :: "kenv \<Rightarrow> bool" where
  "umem_contract env \<longleftrightarrow> (\<forall>start len acc um. k_umem_get env start len acc = Some um \<longrightarrow>
     umem_documented um)"

section \<open>Lemmas on registration\<close>

definition mr_table_ok :: "heap \<Rightarrow> ptr \<Rightarrow> bool" where
  "mr_table_ok h pdp \<longleftrightarrow> heap_ok h \<and> (case h_pd h pdp of None \<Rightarrow> False
     | Some pd \<Rightarrow> pd_ok pd \<and> (\<forall>p \<in> set (pd_mr_list pd). p < h_next h))"

lemma mr_table_okE:
  assumes "mr_table_ok h pdp"
  obtains pd where "heap_ok h" "0 < h_next h" "pdp \<noteq> NULL" "h_pd h pdp = Some pd" "pd_ok pd"
    "\<forall>p \<in> set (pd_mr_list pd). p < h_next h"
  using assms by (cases pdp) (auto simp: mr_table_ok_def heap_ok_def fresh_in_def split: option.splits)

lemma DIS_MR_MAX_unat [simp]: "unat DIS_MR_MAX = 100"
  by (simp add: DIS_MR_MAX_def)

lemma DIS_QP_unat [simp]: "unat DIS_QP_INI = 100" "unat DIS_QP_MAX = 200"
  by (simp_all add: DIS_QP_INI_def DIS_QP_MAX_def)

lemma pd_ok_register:
  assumes "pd_ok pd" "pd_mr_c pd < DIS_MR_MAX" "p \<noteq> NULL"
  shows "pd_ok (pd\<lparr>pd_mr_list := (pd_mr_list pd)[unat (pd_mr_c pd) := p],
    pd_mr_c := pd_mr_c pd + 1\<rparr>)"
proof -
  have "unat (pd_mr_c pd) < 100" using assms(2) by (simp add: word_less_nat_alt)
  then have "unat (pd_mr_c pd + 1) = Suc (unat (pd_mr_c pd))"
    by (simp add: unat_plus_if')
  with assms show ?thesis
    by (auto simp: pd_ok_def word_le_nat_alt word_less_nat_alt nth_list_update)
qed

text \<open>Registering a region that was just allocated.\<close>

lemma register_mr_ok:
  assumes "mr_table_ok h pdp" "h_pd h pdp = Some pd" "pd_mr_c pd < DIS_MR_MAX"
    and "h_mr h' mrp = Some mr0" "h_next h \<le> mrp" "mrp < h_next h'" "heap_ok h'"
    and "h_pd h' = h_pd h"
  shows "\<exists>h2. register_mr h' pdp mrp mr = Inr (Inr mrp, h2) \<and> mr_table_ok h2 pdp
    \<and> h_mr h2 = (h_mr h')(mrp \<mapsto> mr\<lparr>mr_lkey := pd_mr_c pd\<rparr>)
    \<and> h_pd h2 = (h_pd h)(pdp \<mapsto> pd\<lparr>pd_mr_list := (pd_mr_list pd)[unat (pd_mr_c pd) := mrp],
        pd_mr_c := pd_mr_c pd + 1\<rparr>)
    \<and> h_umem h2 = h_umem h' \<and> h_iov h2 = h_iov h' \<and> h_next h2 = h_next h'"
proof -
  obtain pd' where pd: "heap_ok h" "0 < h_next h" "pdp \<noteq> NULL" "h_pd h pdp = Some pd'" "pd_ok pd'"
    "\<forall>p \<in> set (pd_mr_list pd'). p < h_next h" by (rule mr_table_okE [OF assms(1)])
  then have "pd_ok (pd\<lparr>pd_mr_list := (pd_mr_list pd)[unat (pd_mr_c pd) := mrp],
    pd_mr_c := pd_mr_c pd + 1\<rparr>)"
    using assms(2,3,5) by (intro pd_ok_register) auto
  moreover have "unat (pd_mr_c pd) < length (pd_mr_list pd)"
    using pd assms(2,3) by (simp add: pd_ok_def word_less_nat_alt)
  moreover have "\<forall>p \<in> set ((pd_mr_list pd)[unat (pd_mr_c pd) := mrp]). p < h_next h'"
    using pd(4,6) assms(2,5,6) by (auto dest!: subsetD [OF set_update_subset_insert])
  ultimately show ?thesis
    using pd assms by (auto simp: register_mr_def kres_simps mr_table_ok_def heap_ok_def)
qed

lemma get_dma_mr_cases:
  assumes "mr_table_ok h ibpd" "h_pd h ibpd = Some pd"
  shows "dis_get_dma_mr env h ibpd acc =
      (if pd_mr_c pd \<ge> DIS_MR_MAX \<or> \<not> k_alloc env h AllocMr then Inr (Inl (- EINVAL), h)
       else register_mr (h\<lparr>h_next := Suc (h_next h),
         h_mr := (h_mr h)(h_next h \<mapsto> zero_mr\<lparr>mr_is_dma := 1\<rparr>)\<rparr>) ibpd (h_next h)
         (zero_mr\<lparr>mr_is_dma := 1\<rparr>))"
  using assms by (auto elim!: mr_table_okE simp: dis_get_dma_mr_def kres_simps Let_def)

lemma get_dma_mr_ok:
  assumes "mr_table_ok h ibpd" "h_pd h ibpd = Some pd" "pd_mr_c pd < DIS_MR_MAX"
    and "k_alloc env h AllocMr"
  shows "\<exists>h'. dis_get_dma_mr env h ibpd acc = Inr (Inr (h_next h), h') \<and> mr_table_ok h' ibpd
    \<and> h_mr h' = (h_mr h)(h_next h \<mapsto> zero_mr\<lparr>mr_is_dma := 1, mr_lkey := pd_mr_c pd\<rparr>)
    \<and> h_pd h' = (h_pd h)(ibpd \<mapsto> pd\<lparr>pd_mr_list := (pd_mr_list pd)[unat (pd_mr_c pd) := h_next h],
        pd_mr_c := pd_mr_c pd + 1\<rparr>)
    \<and> h_umem h' = h_umem h \<and> h_iov h' = h_iov h"
proof -
  let ?h' = "h\<lparr>h_next := Suc (h_next h), h_mr := (h_mr h)(h_next h \<mapsto> zero_mr\<lparr>mr_is_dma := 1\<rparr>)\<rparr>"
  have "heap_ok ?h'"
    using assms(1) by (auto elim!: mr_table_okE simp: heap_ok_def)
  with register_mr_ok [OF assms(1-3), of ?h' "h_next h" "zero_mr\<lparr>mr_is_dma := 1\<rparr>"
      "zero_mr\<lparr>mr_is_dma := 1\<rparr>"]
  show ?thesis
    using get_dma_mr_cases [OF assms(1,2)] assms(3,4) by (auto simp: not_le)
qed

lemma fill_pages_spec:
  "i + length as \<le> length pages \<Longrightarrow> fill_pages as pages i = Inr (if 0 \<in> set as then None
     else Some (take i pages @ map (\<lambda>a. \<lparr>iov_base = a, iov_len = PAGE_SIZE\<rparr>) as
       @ drop (i + length as) pages))"
proof (induction as arbitrary: pages i)
  case Nil
  then show ?case by simp
next
  case (Cons a as)
  let ?p = "pages[i := \<lparr>iov_base = a, iov_len = PAGE_SIZE\<rparr>]"
  have "take (Suc i) ?p = take i pages @ [\<lparr>iov_base = a, iov_len = PAGE_SIZE\<rparr>]"
    using Cons.prems by (simp add: take_Suc_conv_app_nth)
  moreover have set_both: "r\<lparr>iov_base := a, iov_len := l\<rparr> = \<lparr>iov_base = a, iov_len = l\<rparr>" for r l
    by (cases r) simp
  ultimately show ?case
    using Cons.prems Cons.IH [of "Suc i" ?p] by (simp add: kres_simps set_both)
qed

lemma fill_pages_new:
  "length as = n \<Longrightarrow> fill_pages as (replicate n z) 0 = Inr (if 0 \<in> set as then None
     else Some (map (\<lambda>a. \<lparr>iov_base = a, iov_len = PAGE_SIZE\<rparr>) as))"
  using fill_pages_spec [of 0 as "replicate n z"] by simp

text \<open>
  Registering user memory: refused without a leak (only object identities were used up), or done
  with a complete page table.
\<close>

lemma reg_user_mr_ok:
  assumes "mr_table_ok h ibpd" "h_pd h ibpd = Some pd"
    and "umem_contract env"
  shows "(\<exists>n. dis_reg_user_mr env h ibpd start len va acc = Inr (Inl (- EINVAL), h\<lparr>h_next := n\<rparr>)
      \<and> h_next h \<le> n)
    \<or> (\<exists>h' mr. dis_reg_user_mr env h ibpd start len va acc = Inr (Inr (h_next h), h')
      \<and> pd_mr_c pd < DIS_MR_MAX \<and> mr_table_ok h' ibpd \<and> h_mr h' = (h_mr h)(h_next h \<mapsto> mr)
      \<and> mr_lkey mr = pd_mr_c pd \<and> mr_mr_va mr = va \<and> mr_mr_length mr = len \<and> user_mr_ok h' mr
      \<and> h_pd h' = (h_pd h)(ibpd \<mapsto> pd\<lparr>pd_mr_list := (pd_mr_list pd)
          [unat (pd_mr_c pd) := h_next h], pd_mr_c := pd_mr_c pd + 1\<rparr>)
      \<and> h_umem h (mr_ibumem mr) = None \<and> h_umem h' = (h_umem h)(mr_ibumem mr := h_umem h' (mr_ibumem mr))
      \<and> h_iov h (mr_pages mr) = None \<and> h_iov h' = (h_iov h)(mr_pages mr := h_iov h' (mr_pages mr))
      \<and> mr_ibumem mr \<noteq> NULL \<and> mr_pages mr \<noteq> NULL)"
proof -
  obtain pd': "heap_ok h" "0 < h_next h" "ibpd \<noteq> NULL"
    by (rule mr_table_okE [OF assms(1)])
  then have fresh: "h_mr h (h_next h) = None" "h_umem h (Suc (h_next h)) = None"
      "h_iov h (Suc (Suc (h_next h))) = None"
    by (auto simp: heap_ok_def fresh_in_def)
  show ?thesis
  proof (cases "pd_mr_c pd < DIS_MR_MAX \<and> k_alloc env h AllocMr")
    case False
    then have "dis_reg_user_mr env h ibpd start len va acc = Inr (Inl (- EINVAL), h)"
      using assms(2) \<open>ibpd \<noteq> NULL\<close> by (auto simp: dis_reg_user_mr_def kres_simps not_less)
    then show ?thesis by (intro disjI1 exI [of _ "h_next h"]) simp
  next
    case True
    then have room: "\<not> DIS_MR_MAX \<le> pd_mr_c pd" by (simp add: not_le)
    note unfold = dis_reg_user_mr_def kres_simps Let_def fun_upd_idem
    note known = True room assms(2) \<open>ibpd \<noteq> NULL\<close> \<open>0 < h_next h\<close> fresh
    show ?thesis
    proof (cases "k_umem_get env start len acc")
      case None
      then show ?thesis
        using known by (intro disjI1 exI [of _ "Suc (h_next h)"]) (simp add: unfold)
    next
      case (Some um)
      then have um: "length (um_page_addrs um) = unat (um_page_count um)" "um_offset um < PAGE_SIZE"
        using assms(3) by (auto simp: umem_contract_def umem_documented_def)
      let ?h2 = "h\<lparr>h_mr := (h_mr h)(h_next h \<mapsto> zero_mr), h_next := Suc (Suc (h_next h)),
        h_umem := (h_umem h)(Suc (h_next h) \<mapsto> um)\<rparr>"
      consider (release) "um_page_count um = 0 \<or> \<not> k_alloc env ?h2 (AllocPages (um_page_count um))"
        | (hole) "um_page_count um \<noteq> 0" "k_alloc env ?h2 (AllocPages (um_page_count um))"
            "0 \<in> set (um_page_addrs um)"
        | (full) "um_page_count um \<noteq> 0" "k_alloc env ?h2 (AllocPages (um_page_count um))"
            "0 \<notin> set (um_page_addrs um)" by blast
      then show ?thesis
      proof cases
        case release
        then show ?thesis
          using known Some by (intro disjI1 exI [of _ "Suc (Suc (h_next h))"]) (auto simp: unfold)
      next
        case hole
        then show ?thesis
          using known Some um
          by (intro disjI1 exI [of _ "Suc (Suc (Suc (h_next h)))"])
            (simp add: unfold fill_pages_new)
      next
        case full
        let ?pages = "map (\<lambda>a. \<lparr>iov_base = a, iov_len = PAGE_SIZE\<rparr>) (um_page_addrs um)"
        let ?h3 = "h\<lparr>h_mr := (h_mr h)(h_next h \<mapsto> zero_mr),
          h_umem := (h_umem h)(Suc (h_next h) \<mapsto> um), h_next := Suc (Suc (Suc (h_next h))),
          h_iov := (h_iov h)(Suc (Suc (h_next h)) \<mapsto> ?pages)\<rparr>"
        let ?mr = "zero_mr\<lparr>mr_ibumem := Suc (h_next h), mr_page_count := um_page_count um,
          mr_pages := Suc (Suc (h_next h)), mr_mr_va := va, mr_mr_length := len,
          mr_va_offset := um_offset um\<rparr>"
        have "dis_reg_user_mr env h ibpd start len va acc = register_mr ?h3 ibpd (h_next h) ?mr"
          using full known Some um by (simp add: unfold fill_pages_new)
        moreover have "heap_ok ?h3"
          using \<open>heap_ok h\<close> by (auto simp: heap_ok_def intro!: fresh_in_upd)
        ultimately obtain h' where "dis_reg_user_mr env h ibpd start len va acc
            = Inr (Inr (h_next h), h')" and h': "mr_table_ok h' ibpd"
          "h_mr h' = (h_mr ?h3)(h_next h \<mapsto> ?mr\<lparr>mr_lkey := pd_mr_c pd\<rparr>)"
          "h_pd h' = (h_pd h)(ibpd \<mapsto> pd\<lparr>pd_mr_list := (pd_mr_list pd)
            [unat (pd_mr_c pd) := h_next h], pd_mr_c := pd_mr_c pd + 1\<rparr>)"
          "h_umem h' = h_umem ?h3" "h_iov h' = h_iov ?h3"
          using register_mr_ok [OF assms(1,2) conjunct1 [OF True], of ?h3 "h_next h" zero_mr ?mr]
          by auto
        then show ?thesis
          using True fresh um(2)
          by (intro disjI2 exI [of _ h'] exI [of _ "?mr\<lparr>mr_lkey := pd_mr_c pd\<rparr>"])
            (simp add: user_mr_ok_def zero_mr_def)
      qed
    qed
  qed
qed

section \<open>The region table as a table of keys\<close>

datatype mr_request = DmaMr int | UserMr u64 u64 u64 int

definition reg_mr :: "kenv \<Rightarrow> ptr \<Rightarrow> heap \<Rightarrow> mr_request \<Rightarrow> (ptr \<times> heap) kres" where
  "reg_mr env pdp h r =
     rbind (case r of DmaMr acc \<Rightarrow> dis_get_dma_mr env h pdp acc
            | UserMr start len va acc \<Rightarrow> dis_reg_user_mr env h pdp start len va acc)
       (\<lambda>(res, h'). Inr (case res of Inl _ \<Rightarrow> NULL | Inr p \<Rightarrow> p, h'))"

lemma mr_table_ok_next: "mr_table_ok h pdp \<Longrightarrow> h_next h \<le> n \<Longrightarrow> mr_table_ok (h\<lparr>h_next := n\<rparr>) pdp"
  by (auto simp: mr_table_ok_def heap_ok_def fresh_in_def split: option.splits)

lemma mr_registered_lookup:
  assumes "mr_table_ok h pdp" "h_pd h pdp = Some pd" "pd_mr_c pd < DIS_MR_MAX"
    and "h_pd h' = (h_pd h)(pdp \<mapsto> pd\<lparr>pd_mr_list := (pd_mr_list pd)[unat (pd_mr_c pd) := p],
        pd_mr_c := pd_mr_c pd + 1\<rparr>)"
  shows "mr_count h' pdp = Suc (mr_count h pdp)"
    "mr_lookup h' pdp = (mr_lookup h pdp)(mr_count h pdp \<mapsto> p)"
proof -
  have c: "unat (pd_mr_c pd) < 100" using assms(3) by (simp add: word_less_nat_alt)
  then have c1: "unat (pd_mr_c pd + 1) = Suc (unat (pd_mr_c pd))" by (simp add: unat_plus_if')
  have "length (pd_mr_list pd) = 100"
    using assms(1,2) by (auto elim!: mr_table_okE simp: pd_ok_def)
  with assms(2,4) c c1 show "mr_count h' pdp = Suc (mr_count h pdp)"
    "mr_lookup h' pdp = (mr_lookup h pdp)(mr_count h pdp \<mapsto> p)"
    by (auto simp: mr_count_def mr_lookup_def fun_eq_iff)
qed

lemma mr_lookup_next:
  assumes "mr_table_ok h pdp"
  shows "h_next h \<notin> ran (mr_lookup h pdp)"
proof -
  obtain pd where pd: "h_pd h pdp = Some pd" "pd_ok pd" "\<forall>p \<in> set (pd_mr_list pd). p < h_next h"
    by (rule mr_table_okE [OF assms])
  then have "pd_mr_list pd ! k < h_next h" if "k < unat (pd_mr_c pd)" for k
    using that by (simp add: pd_ok_def word_le_nat_alt)
  with pd(1) show ?thesis
    by (fastforce simp: ran_def mr_lookup_def split: if_splits)
qed

lemma reg_mr_cases:
  assumes "mr_table_ok h pdp" "umem_contract env"
  shows "(\<exists>n \<ge> h_next h. reg_mr env pdp h r = Inr (NULL, h\<lparr>h_next := n\<rparr>))
    \<or> (\<exists>h' pd. reg_mr env pdp h r = Inr (h_next h, h') \<and> mr_table_ok h' pdp
      \<and> h_pd h pdp = Some pd \<and> pd_mr_c pd < DIS_MR_MAX
      \<and> h_pd h' = (h_pd h)(pdp \<mapsto> pd\<lparr>pd_mr_list := (pd_mr_list pd)
          [unat (pd_mr_c pd) := h_next h], pd_mr_c := pd_mr_c pd + 1\<rparr>)
      \<and> (\<exists>mr. h_mr h' = (h_mr h)(h_next h \<mapsto> mr) \<and> mr_lkey mr = pd_mr_c pd))"
proof -
  obtain pd where pd: "h_pd h pdp = Some pd" by (rule mr_table_okE [OF assms(1)])
  show ?thesis
  proof (cases r)
    case (DmaMr acc)
    show ?thesis
    proof (cases "pd_mr_c pd < DIS_MR_MAX \<and> k_alloc env h AllocMr")
      case True
      then obtain h' where h': "dis_get_dma_mr env h pdp acc = Inr (Inr (h_next h), h')"
        "mr_table_ok h' pdp"
        "h_mr h' = (h_mr h)(h_next h \<mapsto> zero_mr\<lparr>mr_is_dma := 1, mr_lkey := pd_mr_c pd\<rparr>)"
        "h_pd h' = (h_pd h)(pdp \<mapsto> pd\<lparr>pd_mr_list := (pd_mr_list pd)
          [unat (pd_mr_c pd) := h_next h], pd_mr_c := pd_mr_c pd + 1\<rparr>)"
        using get_dma_mr_ok [OF assms(1) pd, of env acc] by auto
      have "\<exists>mr. h_mr h' = (h_mr h)(h_next h \<mapsto> mr) \<and> mr_lkey mr = pd_mr_c pd"
        using h'(3) by (intro exI conjI) (assumption, simp add: zero_mr_def)
      with True DmaMr pd h'(1,2,4) show ?thesis by (auto simp: reg_mr_def)
    next
      case False
      then have "reg_mr env pdp h r = Inr (NULL, h)"
        using get_dma_mr_cases [OF assms(1) pd, of env acc] DmaMr
        by (auto simp: reg_mr_def not_less)
      then show ?thesis by (intro disjI1 exI [of _ "h_next h"]) simp
    qed
  next
    case (UserMr start len va acc)
    from reg_user_mr_ok [OF assms(1) pd assms(2), of start len va acc] UserMr pd show ?thesis
      by (auto simp: reg_mr_def)
  qed
qed

text \<open>The key a region carries, which is what registration hands out.\<close>

definition mr_key :: "heap \<Rightarrow> ptr \<Rightarrow> u32 option" where
  "mr_key h p = map_option mr_lkey (h_mr h p)"

interpretation mrt: key_table
  "\<lambda>h. mr_table_ok h pdp \<and> umem_contract env"
  "\<lambda>h. mr_count h pdp" "unat DIS_MR_MAX" "\<lambda>h. mr_lookup h pdp" "reg_mr env pdp"
  "\<lambda>_. True" mr_key of_nat for env pdp
proof (unfold_locales, goal_cases)
  case (1 h)
  then show ?case
    by (auto elim!: mr_table_okE simp: mr_count_def pd_ok_def word_le_nat_alt)
next
  case (2 h k)
  then show ?case
    by (auto simp: mr_lookup_def mr_count_def split: option.splits)
next
  case (3 h r)
  obtain pd where pd: "h_pd h pdp = Some pd" "pdp \<noteq> NULL"
    using 3 by (auto elim: mr_table_okE)
  with 3 have "\<not> pd_mr_c pd < DIS_MR_MAX" by (simp add: mr_count_def word_less_nat_alt)
  then show ?case
    using pd by (cases r)
      (simp_all add: reg_mr_def dis_get_dma_mr_def dis_reg_user_mr_def kres_simps not_less)
next
  case (4 h r)
  then have ok: "mr_table_ok h pdp" by simp
  then have fresh: "0 < h_next h" "h_mr h (h_next h) = None"
    by (auto elim!: mr_table_okE simp: heap_ok_def fresh_in_next)
  from 4 consider (refused) n where "h_next h \<le> n" "reg_mr env pdp h r = Inr (NULL, h\<lparr>h_next := n\<rparr>)"
    | (registered) h' pd where "reg_mr env pdp h r = Inr (h_next h, h')" "mr_table_ok h' pdp"
      "h_pd h pdp = Some pd" "pd_mr_c pd < DIS_MR_MAX"
      "h_pd h' = (h_pd h)(pdp \<mapsto> pd\<lparr>pd_mr_list := (pd_mr_list pd)
          [unat (pd_mr_c pd) := h_next h], pd_mr_c := pd_mr_c pd + 1\<rparr>)"
      "\<exists>mr. h_mr h' = (h_mr h)(h_next h \<mapsto> mr) \<and> mr_lkey mr = pd_mr_c pd"
    using reg_mr_cases [of h pdp env r] by blast
  then show ?case
  proof cases
    case refused
    with 4 mr_table_ok_next [OF ok] show ?thesis by (simp add: mr_count_def mr_lookup_def mr_key_def fun_eq_iff)
  next
    case registered
    then have "mr_key h' = (mr_key h)(h_next h \<mapsto> of_nat (mr_count h pdp))" "mr_key h (h_next h) = None"
      using fresh by (auto simp: mr_key_def mr_count_def)
    with 4 mr_registered_lookup [OF ok registered(3-5)] mr_lookup_next [OF ok] fresh registered(1,2)
    show ?thesis by simp
  qed
qed

section \<open>Deregistration\<close>

lemma dereg_user_mr:
  assumes "h_mr h p = Some mr" "p \<noteq> NULL" "mr_is_dma mr = 0"
    and "h_iov h (mr_pages mr) = Some pages" "mr_pages mr \<noteq> NULL"
    and "h_umem h (mr_ibumem mr) = Some um" "mr_ibumem mr \<noteq> NULL"
  shows "dis_dereg_mr h p = Inr (0, h\<lparr>h_iov := (h_iov h)(mr_pages mr := None),
    h_umem := (h_umem h)(mr_ibumem mr := None), h_mr := (h_mr h)(p := None)\<rparr>)"
  using assms by (simp add: dis_dereg_mr_def kres_simps)

lemma dereg_pd: "dis_dereg_mr h p = Inr (ret, h') \<Longrightarrow> h_pd h' = h_pd h"
  by (auto simp: dis_dereg_mr_def rbind_eq_Inr split: if_splits)

lemma dereg_mr_gone: "dis_dereg_mr h p = Inr (ret, h') \<Longrightarrow> ret = 0 \<and> p \<noteq> NULL \<and> h_mr h' p = None"
  by (auto simp: dis_dereg_mr_def rbind_eq_Inr deref_eq_Inr kfree_def split: if_splits option.splits)

lemma reg_dereg_user_mr:
  assumes "mr_table_ok h ibpd" and "umem_contract env"
    and "dis_reg_user_mr env h ibpd start len va acc = Inr (Inr p, h1)"
  shows "\<exists>h2. dis_dereg_mr h1 p = Inr (0, h2)
    \<and> h_mr h2 = h_mr h \<and> h_iov h2 = h_iov h \<and> h_umem h2 = h_umem h"
proof -
  obtain pd where pd: "h_pd h ibpd = Some pd" "heap_ok h" "0 < h_next h"
    by (rule mr_table_okE [OF assms(1)])
  then have "h_mr h (h_next h) = None" by (simp add: heap_ok_def fresh_in_next)
  from reg_user_mr_ok [OF assms(1) pd(1) assms(2), of start len va acc] assms(3)
  obtain mr where mr: "p = h_next h" "h_mr h1 = (h_mr h)(h_next h \<mapsto> mr)" "user_mr_ok h1 mr"
    "h_umem h (mr_ibumem mr) = None" "h_umem h1 = (h_umem h)(mr_ibumem mr := h_umem h1 (mr_ibumem mr))"
    "h_iov h (mr_pages mr) = None" "h_iov h1 = (h_iov h)(mr_pages mr := h_iov h1 (mr_pages mr))"
    "mr_ibumem mr \<noteq> NULL" "mr_pages mr \<noteq> NULL"
    by auto
  then obtain um pages where "mr_is_dma mr = 0" "h_umem h1 (mr_ibumem mr) = Some um"
    "h_iov h1 (mr_pages mr) = Some pages"
    by (auto simp: user_mr_ok_def split: option.splits)
  with mr pd(3) have "dis_dereg_mr h1 p = Inr (0, h1\<lparr>h_iov := (h_iov h1)(mr_pages mr := None),
      h_umem := (h_umem h1)(mr_ibumem mr := None), h_mr := (h_mr h1)(p := None)\<rparr>)"
    by (intro dereg_user_mr) auto
  moreover have "(h_umem h1)(mr_ibumem mr := None) = h_umem h"
    using mr(4) by (subst mr(5)) (simp add: fun_upd_idem)
  moreover have "(h_iov h1)(mr_pages mr := None) = h_iov h"
    using mr(6) by (subst mr(7)) (simp add: fun_upd_idem)
  ultimately show ?thesis
    using mr(1,2) \<open>h_mr h (h_next h) = None\<close> by (simp add: fun_upd_idem)
qed

section \<open>Properties\<close>

text \<open>A store with one freshly allocated protection domain (object 7), for the witnesses.\<close>

definition ex_pd_heap :: heap where
  "ex_pd_heap = empty_heap\<lparr>h_next := 8, h_pd := [7 \<mapsto> \<lparr>pd_ibpd_device = 2, pd_dev = 2,
     pd_qp_list = replicate 200 NULL, pd_mr_list = replicate 100 NULL,
     pd_qp_c = DIS_QP_INI, pd_mr_c = DIS_MR_INI\<rparr>]\<rparr>"

lemma ex_pd_heap_ok: "mr_table_ok ex_pd_heap 7"
  by (auto simp: mr_table_ok_def ex_pd_heap_def heap_ok_def empty_heap_def fresh_in_def pd_ok_def
      dis_limits)

lemma roomy_env_contract: "umem_contract roomy_env"
  by (simp add: umem_contract_def roomy_env_def umem_documented_def PAGE_SIZE_def word_less_nat_alt
      unat_mod)

lemma ex_reg_user_mr:
  "\<exists>h1. dis_reg_user_mr roomy_env ex_pd_heap 7 5000 4000 5000 1 = Inr (Inr 8, h1)
    \<and> mr_lookup h1 7 0 = Some 8"
proof -
  have "fill_pages [0x10000, 0x70000] (replicate 2 zero_iovec) 0
      = Inr (Some [\<lparr>iov_base = 0x10000, iov_len = PAGE_SIZE\<rparr>, \<lparr>iov_base = 0x70000, iov_len = PAGE_SIZE\<rparr>])"
    by (simp add: fill_pages_new del: fill_pages.simps)
  then show ?thesis
    by (simp add: dis_reg_user_mr_def ex_pd_heap_def roomy_env_def kres_simps Let_def dis_limits
        register_mr_def mr_lookup_def del: fill_pages.simps)
qed

text \<open>
  C27. Allocating a protection domain on the zeroed structure the core provides establishes the
  invariant of its two tables, with no region and no queue pair registered.
\<close>

theorem alloc_pd_establishes:
  assumes "heap_ok h" and "h_pd h p = Some pd"
    and "pd_qp_list pd = replicate 200 NULL" and "pd_mr_list pd = replicate 100 NULL"
  shows "\<exists>h'. dis_alloc_pd h p = Inr (0, h') \<and> mr_table_ok h' p \<and> mr_count h' p = 0
    \<and> h_mr h' = h_mr h \<and> h_qp h' = h_qp h"
proof -
  have "p \<noteq> NULL" "0 < h_next h"
    using assms(1,2) fresh_in_live [of "h_pd h" "h_next h" p] by (auto simp: heap_ok_def)
  with assms show ?thesis
    by (auto simp: dis_alloc_pd_def kres_simps Let_def mr_table_ok_def mr_count_def pd_ok_def
        heap_ok_def dis_limits)
qed

theorem alloc_pd_establishes_witness:
  "\<exists>h'. dis_alloc_pd ex_pd_heap 7 = Inr (0, h') \<and> mr_table_ok h' 7 \<and> mr_count h' 7 = 0
    \<and> h_mr h' = h_mr ex_pd_heap \<and> h_qp h' = h_qp ex_pd_heap"
  by (rule alloc_pd_establishes [where pd = "the (h_pd ex_pd_heap 7)"],
      insert ex_pd_heap_ok, simp_all add: mr_table_ok_def) (simp_all add: ex_pd_heap_def)

text \<open>
  C7. Registering user memory either is refused with \<open>-EINVAL\<close> and leaves every object of the
  store as it was (each error path releases all it took), or registers a region with the next key,
  the given addresses and the complete list of pinned pages, and keeps the table invariant.
\<close>

theorem reg_user_mr_all_or_nothing:
  assumes "mr_table_ok h ibpd" and "h_pd h ibpd = Some pd" and "umem_contract env"
  shows "(\<exists>n. dis_reg_user_mr env h ibpd start len va acc = Inr (Inl (- EINVAL), h\<lparr>h_next := n\<rparr>))
    \<or> (\<exists>mrp h' mr. dis_reg_user_mr env h ibpd start len va acc = Inr (Inr mrp, h')
      \<and> mr_table_ok h' ibpd \<and> h_mr h mrp = None \<and> h_mr h' = (h_mr h)(mrp \<mapsto> mr)
      \<and> mr_lookup h' ibpd = (mr_lookup h ibpd)(mr_count h ibpd \<mapsto> mrp)
      \<and> unat (mr_lkey mr) = mr_count h ibpd
      \<and> mr_mr_va mr = va \<and> mr_mr_length mr = len \<and> user_mr_ok h' mr)"
proof -
  have "h_mr h (h_next h) = None"
    using assms(1) by (auto elim!: mr_table_okE simp: heap_ok_def fresh_in_next)
  moreover have "unat (pd_mr_c pd) = mr_count h ibpd"
    using assms(2) by (simp add: mr_count_def)
  ultimately show ?thesis
    using reg_user_mr_ok [OF assms, of start len va acc]
      mr_registered_lookup(2) [OF assms(1,2)] by metis
qed

theorem reg_user_mr_all_or_nothing_witness:
  "(\<exists>n. dis_reg_user_mr roomy_env ex_pd_heap 7 5000 4000 5000 1
        = Inr (Inl (- EINVAL), ex_pd_heap\<lparr>h_next := n\<rparr>))
    \<or> (\<exists>mrp h' mr. dis_reg_user_mr roomy_env ex_pd_heap 7 5000 4000 5000 1 = Inr (Inr mrp, h')
      \<and> mr_table_ok h' 7 \<and> h_mr ex_pd_heap mrp = None \<and> h_mr h' = (h_mr ex_pd_heap)(mrp \<mapsto> mr)
      \<and> mr_lookup h' 7 = (mr_lookup ex_pd_heap 7)(mr_count ex_pd_heap 7 \<mapsto> mrp)
      \<and> unat (mr_lkey mr) = mr_count ex_pd_heap 7
      \<and> mr_mr_va mr = 5000 \<and> mr_mr_length mr = 4000 \<and> user_mr_ok h' mr)"
  by (rule reg_user_mr_all_or_nothing
      [OF ex_pd_heap_ok _ roomy_env_contract, of "the (h_pd ex_pd_heap 7)"])
    (simp add: ex_pd_heap_def)

text \<open>
  C15. Over any sequence of registrations, of DMA and of user regions, the keys handed out (the \<open>lkey\<close>
  of the regions) are consecutive, the table names under each key the region that carries it, from
  then on, no region has two keys, and there are at most \<open>DIS_MR_MAX\<close> of them.
\<close>

theorem mr_keys_unique:
  assumes "mr_table_ok h pdp" and "umem_contract env"
  shows "\<exists>ps h'. register_all (reg_mr env pdp) rs h = Inr (ps, h') \<and> mr_table_ok h' pdp
    \<and> distinct ps \<and> mr_count h' pdp = mr_count h pdp + length ps
    \<and> mr_count h' pdp \<le> unat DIS_MR_MAX
    \<and> (\<forall>i < length ps. mr_lookup h' pdp (mr_count h pdp + i) = Some (ps ! i))
    \<and> (\<forall>k < mr_count h pdp. mr_lookup h' pdp k = mr_lookup h pdp k)
    \<and> (\<forall>i < length ps. mr_key h' (ps ! i) = Some (of_nat (mr_count h pdp + i)))
    \<and> (\<forall>p. mr_key h p \<noteq> None \<longrightarrow> mr_key h' p = mr_key h p)"
proof -
  obtain ps h' where *: "register_all (reg_mr env pdp) rs h = Inr (ps, h')" "mr_table_ok h' pdp"
    "mr_count h' pdp = mr_count h pdp + length ps" "distinct ps"
    "\<forall>i < length ps. mr_lookup h' pdp (mr_count h pdp + i) = Some (ps ! i)"
    "\<forall>k < mr_count h pdp. mr_lookup h' pdp k = mr_lookup h pdp k"
    "\<forall>i < length ps. mr_key h' (ps ! i) = Some (of_nat (mr_count h pdp + i))"
    "\<forall>p. mr_key h p \<noteq> None \<longrightarrow> mr_key h' p = mr_key h p"
    using mrt.register_all_keys [of h pdp env rs] assms by blast
  moreover have "mr_count h' pdp \<le> unat DIS_MR_MAX"
    using mrt.count_limit [of h' pdp env] *(2) assms(2) by blast
  ultimately show ?thesis by blast
qed

theorem mr_keys_unique_witness:
  "\<exists>ps h'. register_all (reg_mr roomy_env 7) [DmaMr 1, UserMr 5000 4000 5000 1, DmaMr 1] ex_pd_heap
      = Inr (ps, h') \<and> distinct ps \<and> mr_count h' 7 = 0 + length ps
    \<and> (\<forall>i < length ps. mr_key h' (ps ! i) = Some (of_nat i))"
  using mr_keys_unique [OF ex_pd_heap_ok roomy_env_contract,
      of "[DmaMr 1, UserMr 5000 4000 5000 1, DmaMr 1]"]
  by (auto simp: mr_count_def ex_pd_heap_def dis_limits)

text \<open>
  C21. Deregistering a user region gives back everything its registration took: the regions, the
  page arrays and the pinned segments are those from before the registration.
\<close>

theorem reg_dereg_balanced:
  assumes "mr_table_ok h ibpd" and "umem_contract env"
    and "dis_reg_user_mr env h ibpd start len va acc = Inr (Inr p, h1)"
  shows "\<exists>h2. dis_dereg_mr h1 p = Inr (0, h2)
    \<and> h_mr h2 = h_mr h \<and> h_iov h2 = h_iov h \<and> h_umem h2 = h_umem h"
  using assms by (rule reg_dereg_user_mr)

theorem reg_dereg_balanced_witness:
  "\<exists>h1 h2. dis_reg_user_mr roomy_env ex_pd_heap 7 5000 4000 5000 1 = Inr (Inr 8, h1)
    \<and> dis_dereg_mr h1 8 = Inr (0, h2) \<and> h_mr h2 = h_mr ex_pd_heap"
  using ex_reg_user_mr reg_dereg_balanced [OF ex_pd_heap_ok roomy_env_contract] by blast

text \<open>
  C32. Deregistering does not touch the protection domain: the key of the region stays in the table
  and names an object that is no longer there, and the slot is never free again.
\<close>

theorem dereg_leaves_dangling_key:
  assumes "mr_lookup h pdp k = Some p" and "dis_dereg_mr h p = Inr (ret, h')"
  shows "mr_lookup h' pdp k = Some p \<and> h_mr h' p = None \<and> mr_count h' pdp = mr_count h pdp"
  using assms dereg_pd [OF assms(2)] dereg_mr_gone [OF assms(2)]
  by (simp add: mr_lookup_def mr_count_def)

theorem dereg_leaves_dangling_key_witness:
  "\<exists>h1 h2. dis_dereg_mr h1 8 = Inr (0, h2) \<and> mr_lookup h2 7 0 = Some 8 \<and> h_mr h2 8 = None"
proof -
  obtain h1 where h1: "dis_reg_user_mr roomy_env ex_pd_heap 7 5000 4000 5000 1 = Inr (Inr 8, h1)"
      "mr_lookup h1 7 0 = Some 8"
    using ex_reg_user_mr by blast
  then obtain h2 where "dis_dereg_mr h1 8 = Inr (0, h2)"
    using reg_dereg_user_mr [OF ex_pd_heap_ok roomy_env_contract] by blast
  with dereg_leaves_dangling_key [OF h1(2) this] show ?thesis by blast
qed

end
