(* ===== verification/Gather.thy ===== *)
theory Gather
  imports Memory_Region Circ_Buf
begin

text \<open>
  Posting a work request (\<open>dis_qp_post_one_sqe\<close> and \<open>dis_qp_post_one_rqe\<close> of \<open>dis_qp.c\<close>): the
  scatter/gather elements of the request are translated through the page tables of their memory
  regions into the list of physical segments that the SCI library will move, and the entry is
  published in the work queue.
\<close>

section \<open>Work requests\<close>

text \<open>\<open>struct ib_sge\<close>, and the fields the driver reads of \<open>ib_send_wr\<close> and \<open>ib_recv_wr\<close>.\<close>

record ib_sge =
  sge_addr :: u64
  sge_length :: u32
  sge_lkey :: u32

record ib_wr =
  wr_wr_id :: u64
  wr_sg_list :: "ib_sge list"
  wr_num_sge :: c_int

definition sge_limit :: "ib_wr \<Rightarrow> nat" where
  \<comment> \<open>\<open>min(wr->num_sge, DIS_SGE_PER_WQE)\<close>, the bound of both loops\<close>
  "sge_limit wr = nat (min (sint (wr_num_sge wr)) (int DIS_SGE_PER_WQE))"

section \<open>The first loop: pages spanned by each segment\<close>

definition map_user_sge :: "dis_mr \<Rightarrow> ib_sge \<Rightarrow> dis_sge_map \<Rightarrow> dis_sge_map" where
  "map_user_sge mr ibsge e =
     (let base_offset = (sge_addr ibsge - mr_mr_va mr) + mr_va_offset mr;
          page_offset = base_offset div PAGE_SIZE;
          base_offset' = base_offset - page_offset * PAGE_SIZE;
          sge_len = ucast (sge_length ibsge)
      in e\<lparr>sge_is_dma := 0, sge_sge_len := sge_len, sge_page_offset := page_offset,
           sge_base_offset := base_offset', sge_mr_pages := (mr_pages mr, unat page_offset),
           sge_page_count := (sge_len + base_offset') div PAGE_SIZE + 1\<rparr>)"

fun map_sges :: "heap \<Rightarrow> ptr \<Rightarrow> dis_sge_map \<Rightarrow> ib_sge list \<Rightarrow> nat \<Rightarrow> nat \<Rightarrow> dis_wqe
    \<Rightarrow> dis_sge_map list \<Rightarrow> (bool \<times> dis_wqe \<times> dis_sge_map list) kres" where
  "map_sges h pdp junk sgl 0 i wqe maps = Inr (True, wqe, maps)"
| "map_sges h pdp junk sgl (Suc n) i wqe maps =
     rbind (array_get sgl i) (\<lambda>ibsge.
     rbind (deref (h_pd h) pdp) (\<lambda>pd.
     rbind (array_get (pd_mr_list pd) (unat (sge_lkey ibsge))) (\<lambda>mrp.
     if mrp = NULL then Inr (False, wqe, maps)
     else rbind (deref (h_mr h) mrp) (\<lambda>mr.
       if mr_is_dma mr \<noteq> 0 then
         rbind (array_put (wqe_page_map_static wqe) i
             \<lparr>iov_base = sge_addr ibsge, iov_len = ucast (sge_length ibsge)\<rparr>) (\<lambda>static.
         map_sges h pdp junk sgl n (Suc i)
           (wqe\<lparr>wqe_page_map_static := static,
                wqe_byte_len := wqe_byte_len wqe + sge_length ibsge,
                wqe_sci_msg := \<lparr>msg_iov = IovStatic i,
                   msg_iovlen = msg_iovlen (wqe_sci_msg wqe) + 1\<rparr>\<rparr>)
           (maps @ [junk\<lparr>sge_is_dma := 1\<rparr>]))
       else
         let e = map_user_sge mr ibsge junk in
         map_sges h pdp junk sgl n (Suc i)
           (wqe\<lparr>wqe_sci_msg := (wqe_sci_msg wqe)\<lparr>msg_iovlen :=
              msg_iovlen (wqe_sci_msg wqe) + sge_page_count e\<rparr>\<rparr>)
           (maps @ [e])))))"

section \<open>The second loop: one entry per page\<close>

lemma rbind_fundef_cong [fundef_cong]:
  "r = r' \<Longrightarrow> (\<And>x. r' = Inr x \<Longrightarrow> f x = g x) \<Longrightarrow> rbind r f = rbind r' g"
  by (rule rbind_cong)

function fill_sge :: "heap \<Rightarrow> ptr \<Rightarrow> nat \<Rightarrow> u64 \<Rightarrow> u64 \<Rightarrow> iovec list \<Rightarrow> nat \<Rightarrow> u32
    \<Rightarrow> (iovec list \<times> nat \<times> u32) kres" where
  \<comment> \<open>\<open>while (sge->sge_len > 0)\<close>, with \<open>mr_page\<close> as array and index, \<open>sge_page\<close> as index\<close>
  "fill_sge h blk mr_page sge_len base_offset out sge_page byte_len =
     (if 0 < sge_len then
        let sge_chunk = min sge_len (PAGE_SIZE - base_offset) in
        rbind (deref (h_iov h) blk) (\<lambda>pages.
        rbind (array_get pages mr_page) (\<lambda>pg.
        rbind (array_put out sge_page
            \<lparr>iov_base = iov_base pg + base_offset, iov_len = sge_chunk\<rparr>) (\<lambda>out'.
        fill_sge h blk (Suc mr_page) (sge_len - sge_chunk) 0 out' (Suc sge_page)
          (byte_len + ucast sge_chunk))))
      else Inr (out, sge_page, byte_len))"
  by pat_completeness auto
termination
proof (relation "measure (\<lambda>(h, blk, mr_page, len, off, out, j, bl).
      2 * unat len + (if off = 0 then 0 else 1))", goal_cases)
  case 1
  then show ?case by simp
next
  case (2 h blk mr_page len off out j bl c pages pg out')
  show ?case
  proof (cases "c = 0")
    case True
    then have "off \<noteq> 0"
      using 2 by (auto simp: min_def PAGE_SIZE_def split: if_splits)
    with True show ?thesis by simp
  next
    case False
    then have "0 < unat c" by (simp add: unat_gt_0)
    moreover have le: "c \<le> len" using 2 by simp
    then have "unat c \<le> unat len" by (simp add: word_le_nat_alt)
    ultimately show ?thesis
      using unat_sub [OF le] by simp
  qed
qed

declare fill_sge.simps [simp del]

fun fill_sges :: "heap \<Rightarrow> dis_sge_map list \<Rightarrow> iovec list \<Rightarrow> nat \<Rightarrow> u32
    \<Rightarrow> (iovec list \<times> u32) kres" where
  "fill_sges h [] out sge_page byte_len = Inr (out, byte_len)"
| "fill_sges h (e # maps) out sge_page byte_len =
     (if sge_is_dma e \<noteq> 0 then fill_sges h maps out sge_page byte_len
      else rbind (fill_sge h (fst (sge_mr_pages e)) (snd (sge_mr_pages e)) (sge_sge_len e)
             (sge_base_offset e) out sge_page byte_len) (\<lambda>(out', sge_page', byte_len').
        fill_sges h maps out' sge_page' byte_len'))"

section \<open>Posting\<close>

definition store_wqe :: "heap \<Rightarrow> ptr \<Rightarrow> dis_wqe list \<Rightarrow> nat \<Rightarrow> dis_wqe \<Rightarrow> heap" where
  "store_wqe h mem slots i wqe = h\<lparr>h_wqe := (h_wqe h)(mem \<mapsto> slots[i := wqe])\<rparr>"

definition publish :: "heap \<Rightarrow> wq_ref \<Rightarrow> dis_wq \<Rightarrow> u64 \<Rightarrow> heap" where
  \<comment> \<open>\<open>smp_store_release(&wq->wqe_circ.head, (head + 1) & (wq->wqe_max - 1))\<close>\<close>
  "publish h wq w i = set_wq h wq (w\<lparr>wq_wqe_circ := (wq_wqe_circ w)\<lparr>circ_head :=
     circ_next i (wq_wqe_max w)\<rparr>\<rparr>)"

definition dis_qp_post_one_sqe :: "kenv \<Rightarrow> heap \<Rightarrow> wq_ref \<Rightarrow> ib_wr \<Rightarrow> (int \<times> heap) kres" where
  "dis_qp_post_one_sqe env h wq wr =
     rbind (get_wq h wq) (\<lambda>w.
     rbind (deref (h_qp h) (wq_ibqp w)) (\<lambda>qp.
     let pdp = to_dis_pd (qp_ibqp_pd qp);
         hd = int_to_ulong (circ_head (wq_wqe_circ w));
         tl = int_to_ulong (circ_tail (wq_wqe_circ w));
         mem = circ_buf_mem (wq_wqe_circ w) in
     if CIRC_SPACE hd tl (wq_wqe_max w) < 1 then Inr (-42, h)
     else
     rbind (deref (h_wqe h) mem) (\<lambda>slots.
     rbind (array_get slots (unat hd)) (\<lambda>slot.
     let wqe = slot\<lparr>wqe_opcode := ucast IB_WC_SEND, wqe_sci_msq := Some wq, wqe_byte_len := 0,
           wqe_ibqp := wq_ibqp w, wqe_wr_id := ucast (wr_wr_id wr),
           wqe_sci_msg := (wqe_sci_msg slot)\<lparr>msg_iovlen := 0\<rparr>\<rparr>;
         store = (\<lambda>h x. store_wqe h mem slots (unat hd) x) in
     rbind (map_sges h pdp (k_stack_sge env h) (wr_sg_list wr) (sge_limit wr) 0 wqe [])
       (\<lambda>(found, wqe1, maps).
     let n = msg_iovlen (wqe_sci_msg wqe1) in
     if \<not> found then Inr (-42, store h wqe1)
     else if n > DIS_MAX_IOVLEN then Inr (-42, store h wqe1)
     else if n \<le> of_nat DIS_SGE_PER_WQE then
       rbind (fill_sges h maps (wqe_page_map_static wqe1) 0 (wqe_byte_len wqe1))
         (\<lambda>(out, byte_len).
       Inr (0, publish (store h (wqe1\<lparr>wqe_page_map_static := out, wqe_byte_len := byte_len,
         wqe_sci_msg := (wqe_sci_msg wqe1)\<lparr>msg_iov := IovStatic 0\<rparr>\<rparr>)) wq w hd))
     else if \<not> k_alloc env h (AllocIov n)
       then Inr (-42, store h (wqe1\<lparr>wqe_page_map_dynamic := NULL\<rparr>))
     else
       let p = h_next h in
       rbind (fill_sges h maps (k_kmalloc_iov env h n) 0 (wqe_byte_len wqe1))
         (\<lambda>(out, byte_len).
       Inr (0, publish (store (h\<lparr>h_next := Suc p, h_iov := (h_iov h)(p \<mapsto> out)\<rparr>)
         (wqe1\<lparr>wqe_page_map_dynamic := p, wqe_byte_len := byte_len,
           wqe_sci_msg := (wqe_sci_msg wqe1)\<lparr>msg_iov := IovDynamic p\<rparr>\<rparr>)) wq w hd)))))))"

definition dis_qp_post_one_rqe :: "kenv \<Rightarrow> heap \<Rightarrow> wq_ref \<Rightarrow> ib_wr \<Rightarrow> (int \<times> heap) kres" where
  "dis_qp_post_one_rqe env h wq wr =
     rbind (get_wq h wq) (\<lambda>w.
     rbind (deref (h_qp h) (wq_ibqp w)) (\<lambda>qp.
     let pdp = to_dis_pd (qp_ibqp_pd qp);
         hd = int_to_ulong (circ_head (wq_wqe_circ w));
         tl = int_to_ulong (circ_tail (wq_wqe_circ w));
         mem = circ_buf_mem (wq_wqe_circ w) in
     if CIRC_SPACE hd tl (wq_wqe_max w) < 1 then Inr (-42, h)
     else
     rbind (deref (h_wqe h) mem) (\<lambda>slots.
     rbind (array_get slots (unat hd)) (\<lambda>slot.
     let wqe = slot\<lparr>wqe_opcode := ucast IB_WC_RECV, wqe_sci_msq := Some wq, wqe_byte_len := 0,
           wqe_ibqp := wq_ibqp w, wqe_wr_id := ucast (wr_wr_id wr),
           wqe_sci_msg := (wqe_sci_msg slot)\<lparr>msg_iovlen := 0\<rparr>\<rparr>;
         store = (\<lambda>h x. store_wqe h mem slots (unat hd) x) in
     rbind (map_sges h pdp (k_stack_sge env h) (wr_sg_list wr) (sge_limit wr) 0 wqe [])
       (\<lambda>(found, wqe1, maps).
     let n = msg_iovlen (wqe_sci_msg wqe1) in
     if \<not> found then Inr (-42, store h wqe1)
     else if n > DIS_MAX_IOVLEN then Inr (-42, store h wqe1)
     else if n \<le> of_nat DIS_SGE_PER_WQE then
       rbind (fill_sges h maps (wqe_page_map_static wqe1) 0 (wqe_byte_len wqe1))
         (\<lambda>(out, byte_len).
       Inr (0, publish (store h (wqe1\<lparr>wqe_page_map_static := out, wqe_byte_len := byte_len,
         wqe_sci_msg := (wqe_sci_msg wqe1)\<lparr>msg_iov := IovStatic 0\<rparr>\<rparr>)) wq w hd))
     else if \<not> k_alloc env h (AllocIov n)
       then Inr (-42, store h (wqe1\<lparr>wqe_page_map_dynamic := NULL\<rparr>))
     else
       let p = h_next h in
       rbind (fill_sges h maps (k_kmalloc_iov env h n) 0 (wqe_byte_len wqe1))
         (\<lambda>(out, byte_len).
       Inr (0, publish (store (h\<lparr>h_next := Suc p, h_iov := (h_iov h)(p \<mapsto> out)\<rparr>)
         (wqe1\<lparr>wqe_page_map_dynamic := p, wqe_byte_len := byte_len,
           wqe_sci_msg := (wqe_sci_msg wqe1)\<lparr>msg_iov := IovDynamic p\<rparr>\<rparr>)) wq w hd)))))))"

text \<open>
  The two halves of a posting routine, for what other threads can do between them: everything up to
  the filled slot, whose index is local to the caller, and the release of the new head, which reads
  the queue again. The routines take no lock.
\<close>

definition post_prepare :: "u8 \<Rightarrow> kenv \<Rightarrow> heap \<Rightarrow> wq_ref \<Rightarrow> ib_wr \<Rightarrow> ((int + u64) \<times> heap) kres" where
  "post_prepare opc env h wq wr =
     rbind (get_wq h wq) (\<lambda>w.
     rbind (deref (h_qp h) (wq_ibqp w)) (\<lambda>qp.
     let pdp = to_dis_pd (qp_ibqp_pd qp);
         hd = int_to_ulong (circ_head (wq_wqe_circ w));
         tl = int_to_ulong (circ_tail (wq_wqe_circ w));
         mem = circ_buf_mem (wq_wqe_circ w) in
     if CIRC_SPACE hd tl (wq_wqe_max w) < 1 then Inr (Inl (-42), h)
     else
     rbind (deref (h_wqe h) mem) (\<lambda>slots.
     rbind (array_get slots (unat hd)) (\<lambda>slot.
     let wqe = slot\<lparr>wqe_opcode := opc, wqe_sci_msq := Some wq, wqe_byte_len := 0,
           wqe_ibqp := wq_ibqp w, wqe_wr_id := ucast (wr_wr_id wr),
           wqe_sci_msg := (wqe_sci_msg slot)\<lparr>msg_iovlen := 0\<rparr>\<rparr>;
         store = (\<lambda>h x. store_wqe h mem slots (unat hd) x) in
     rbind (map_sges h pdp (k_stack_sge env h) (wr_sg_list wr) (sge_limit wr) 0 wqe [])
       (\<lambda>(found, wqe1, maps).
     let n = msg_iovlen (wqe_sci_msg wqe1) in
     if \<not> found then Inr (Inl (-42), store h wqe1)
     else if n > DIS_MAX_IOVLEN then Inr (Inl (-42), store h wqe1)
     else if n \<le> of_nat DIS_SGE_PER_WQE then
       rbind (fill_sges h maps (wqe_page_map_static wqe1) 0 (wqe_byte_len wqe1))
         (\<lambda>(out, byte_len).
       Inr (Inr hd, store h (wqe1\<lparr>wqe_page_map_static := out, wqe_byte_len := byte_len,
         wqe_sci_msg := (wqe_sci_msg wqe1)\<lparr>msg_iov := IovStatic 0\<rparr>\<rparr>)))
     else if \<not> k_alloc env h (AllocIov n)
       then Inr (Inl (-42), store h (wqe1\<lparr>wqe_page_map_dynamic := NULL\<rparr>))
     else
       let p = h_next h in
       rbind (fill_sges h maps (k_kmalloc_iov env h n) 0 (wqe_byte_len wqe1))
         (\<lambda>(out, byte_len).
       Inr (Inr hd, store (h\<lparr>h_next := Suc p, h_iov := (h_iov h)(p \<mapsto> out)\<rparr>)
         (wqe1\<lparr>wqe_page_map_dynamic := p, wqe_byte_len := byte_len,
           wqe_sci_msg := (wqe_sci_msg wqe1)\<lparr>msg_iov := IovDynamic p\<rparr>\<rparr>))))))))"

definition post_publish :: "heap \<Rightarrow> wq_ref \<Rightarrow> u64 \<Rightarrow> (int \<times> heap) kres" where
  "post_publish h wq head = rbind (get_wq h wq) (\<lambda>w. Inr (0, publish h wq w head))"

definition post_one :: "u8 \<Rightarrow> kenv \<Rightarrow> heap \<Rightarrow> wq_ref \<Rightarrow> ib_wr \<Rightarrow> (int \<times> heap) kres" where
  "post_one opc env h wq wr = rbind (post_prepare opc env h wq wr) (\<lambda>(res, h1). case res of
     Inl ret \<Rightarrow> Inr (ret, h1) | Inr c \<Rightarrow> post_publish h1 wq c)"

end
