(* ===== verification/Segments.thy ===== *)
theory Segments
  imports Gather
begin

text \<open>
  What the two loops of the posting routines compute, on numbers instead of machine words: the
  physical segments (\<open>chunks\<close>) that cover a range of a region, one per page, and the bytes they
  stand for. The lemmas carry the loops over to this reference for requests whose segments lie in
  registered user regions.
\<close>

section \<open>Reference: the bytes of a segment\<close>

definition phys :: "iovec list \<Rightarrow> nat \<Rightarrow> u64" where
  "phys pages k = iov_base (pages ! (k div 4096)) + of_nat (k mod 4096)"

definition iov_bytes :: "iovec list \<Rightarrow> u64 list" where
  "iov_bytes iovs = concat (map (\<lambda>v. map (\<lambda>k. iov_base v + of_nat k) [0..<unat (iov_len v)]) iovs)"

function chunks :: "iovec list \<Rightarrow> nat \<Rightarrow> nat \<Rightarrow> nat \<Rightarrow> iovec list" where
  "chunks pages i off len =
     (if len = 0 \<or> 4096 \<le> off then []
      else let c = min len (4096 - off) in
        \<lparr>iov_base = iov_base (pages ! i) + of_nat off, iov_len = of_nat c\<rparr>
          # chunks pages (Suc i) 0 (len - c))"
  by pat_completeness auto
termination by (relation "measure (\<lambda>(pages, i, off, len). len)") auto

declare chunks.simps [simp del]

lemma chunks_0 [simp]: "chunks pages i off 0 = []"
  by (simp add: chunks.simps)

lemma length_chunks:
  "off < 4096 \<Longrightarrow> length (chunks pages i off len) = (if len = 0 then 0 else (off + len + 4095) div 4096)"
proof (induction pages i off len rule: chunks.induct)
  case (1 pages i off len)
  show ?case
  proof (cases "len = 0")
    case False
    let ?c = "min len (4096 - off)"
    from 1 False have "length (chunks pages i off len) = Suc (length (chunks pages (Suc i) 0 (len - ?c)))"
      by (subst chunks.simps) (simp add: Let_def)
    moreover have "length (chunks pages (Suc i) 0 (len - ?c))
        = (if len - ?c = 0 then 0 else (len - ?c + 4095) div 4096)"
      using 1 False by simp
    moreover have "(off + len + 4095) div 4096 = Suc ((len - ?c + 4095) div 4096)" if "len - ?c \<noteq> 0"
    proof -
      have e: "off + len + 4095 = len - ?c + 4095 + 4096"
        using that \<open>off < 4096\<close> by (auto simp: min_def split: if_splits)
      show ?thesis by (simp only: e)
    qed
    moreover have "(off + len + 4095) div 4096 = 1" if "len - ?c = 0"
      using that False \<open>off < 4096\<close> by (intro div_nat_eqI) (auto simp: min_def split: if_splits)
    ultimately show ?thesis using False by presburger
  qed simp
qed

lemma ucast_add_64_32: "(ucast (a + b :: u64) :: u32) = ucast a + ucast b"
  by (simp add: word_unat_eq_iff unat_ucast_mod unat_word_ariths mod_mod_cancel mod_add_eq)

lemma PAGE_SIZE_unat [simp]: "unat PAGE_SIZE = 4096"
  by (simp add: PAGE_SIZE_def)

lemma unat_chunk:
  "unat off < 4096 \<Longrightarrow> unat (min len (PAGE_SIZE - off)) = min (unat len) (4096 - unat off)"
  by (auto simp: min_def word_le_nat_alt unat_sub PAGE_SIZE_def)

lemma fill_sge_chunks:
  assumes "h_iov h blk = Some pages" "blk \<noteq> 0"
  shows "unat off < 4096 \<Longrightarrow> unat off + unat len \<le> 4096 * (length pages - i) \<Longrightarrow>
    j + length (chunks pages i (unat off) (unat len)) \<le> length out \<Longrightarrow>
    fill_sge h blk i len off out j bl =
      (let cs = chunks pages i (unat off) (unat len) in
       Inr (take j out @ cs @ drop (j + length cs) out, j + length cs, bl + ucast len))"
proof (induction "unat len" arbitrary: len i off out j bl rule: less_induct)
  case less
  show ?case
  proof (cases "len = 0")
    case True
    then show ?thesis by (simp add: fill_sge.simps)
  next
    case False
    define c where "c = min len (PAGE_SIZE - off)"
    have c: "unat c = min (unat len) (4096 - unat off)" "c \<le> len"
      using less.prems(1) by (simp_all add: c_def unat_chunk)
    have rest: "unat (len - c) = unat len - unat c" using unat_sub [OF c(2)] .
    have pos: "0 < unat len" using False by (simp add: unat_gt_0)
    define x where "x = \<lparr>iov_base = iov_base (pages ! i) + off, iov_len = c\<rparr>"
    have cs: "chunks pages i (unat off) (unat len) = x # chunks pages (Suc i) 0 (unat (len - c))"
      using less.prems(1) pos c by (subst chunks.simps) (simp add: Let_def x_def rest flip: c(1))
    then have j: "j < length out" using less.prems(3) by simp
    have i: "i < length pages" using less.prems(2) pos by (cases "i < length pages") auto
    have "fill_sge h blk i len off out j bl
        = fill_sge h blk (Suc i) (len - c) 0 (out[j := x]) (Suc j) (bl + ucast c)"
      using False assms i j
      by (subst fill_sge.simps) (simp add: word_gt_0 kres_simps Let_def x_def flip: c_def)
    also have "\<dots> = (let cs = chunks pages (Suc i) 0 (unat (len - c)) in
        Inr (take (Suc j) (out[j := x]) @ cs @ drop (Suc j + length cs) (out[j := x]),
          Suc j + length cs, bl + ucast c + ucast (len - c)))"
      using less.hyps [of "len - c" 0 "Suc i" "Suc j" "out[j := x]" "bl + ucast c"]
        less.prems pos c rest cs by (auto simp: min_def split: if_splits)
    also have "bl + ucast c + ucast (len - c) = bl + ucast len"
      using ucast_add_64_32 [of c "len - c"] by simp
    finally show ?thesis
      using j by (simp add: cs Let_def take_Suc_conv_app_nth)
  qed
qed

lemma iov_bytes_Cons:
  "iov_bytes (v # vs) = map (\<lambda>k. iov_base v + of_nat k) [0..<unat (iov_len v)] @ iov_bytes vs"
  by (simp add: iov_bytes_def)

lemma iov_bytes_append: "iov_bytes (vs @ ws) = iov_bytes vs @ iov_bytes ws"
  by (simp add: iov_bytes_def)

lemma chunks_bytes:
  "off < 4096 \<Longrightarrow>
    iov_bytes (chunks pages i off len) = map (phys pages) [4096 * i + off ..< 4096 * i + off + len]"
proof (induction pages i off len rule: chunks.induct)
  case (1 pages i off len)
  show ?case
  proof (cases "len = 0")
    case False
    let ?c = "min len (4096 - off)" and ?a = "4096 * i + off"
    have c: "chunks pages i off len = \<lparr>iov_base = iov_base (pages ! i) + of_nat off, iov_len = of_nat ?c\<rparr>
          # chunks pages (Suc i) 0 (len - ?c)"
      using 1 False by (subst chunks.simps) (simp add: Let_def)
    have u: "unat (of_nat ?c :: u64) = ?c"
      by (simp add: unat_of_nat)
    have "phys pages (?a + k) = iov_base (pages ! i) + of_nat off + of_nat k" if "k < ?c" for k
    proof -
      have e: "?a + k = off + k + 4096 * i" by simp
      have "off + k < 4096" using that \<open>off < 4096\<close> by linarith
      then have "(?a + k) div 4096 = i" "(?a + k) mod 4096 = off + k"
        unfolding e by (simp_all del: add.commute)
      then show ?thesis by (simp add: phys_def)
    qed
    then have "map (\<lambda>k. iov_base (pages ! i) + of_nat off + of_nat k) [0..<?c]
        = map (phys pages) [?a..<?a + ?c]"
      by (intro nth_equalityI) auto
    moreover have "iov_bytes (chunks pages (Suc i) 0 (len - ?c)) = map (phys pages) [?a + ?c..<?a + len]"
    proof (cases "len \<le> 4096 - off")
      case False
      then have "?a + ?c = 4096 * Suc i" "4096 * Suc i + (len - ?c) = ?a + len"
        using \<open>off < 4096\<close> by auto
      moreover have "iov_bytes (chunks pages (Suc i) 0 (len - ?c))
          = map (phys pages) [4096 * Suc i..<4096 * Suc i + (len - ?c)]"
        using 1 \<open>len \<noteq> 0\<close> by simp
      ultimately show ?thesis by (simp only:)
    qed (simp add: iov_bytes_def)
    moreover have "[?a..<?a + len] = [?a..<?a + ?c] @ [?a + ?c..<?a + len]"
      using upt_add_eq_append [of ?a "?a + ?c" "len - ?c"] by (simp add: add.assoc)
    ultimately show ?thesis by (simp add: c iov_bytes_Cons u)
  qed (simp add: iov_bytes_def)
qed

section \<open>Segments in user regions\<close>

text \<open>
  The page table and the byte offset in it that a segment names, if its key is that of a live user
  region and the segment lies inside the region's pages.
\<close>

definition user_span :: "heap \<Rightarrow> ptr \<Rightarrow> ib_sge \<Rightarrow> (iovec list \<times> nat) option" where
  "user_span h pdp s = (case h_pd h pdp of None \<Rightarrow> None | Some pd \<Rightarrow>
     if length (pd_mr_list pd) \<le> unat (sge_lkey s) \<or> pd_mr_list pd ! unat (sge_lkey s) = NULL then None
     else case h_mr h (pd_mr_list pd ! unat (sge_lkey s)) of None \<Rightarrow> None | Some mr \<Rightarrow>
       if mr_is_dma mr \<noteq> 0 \<or> mr_pages mr = NULL then None
       else case h_iov h (mr_pages mr) of None \<Rightarrow> None | Some pages \<Rightarrow>
         let off = unat (sge_addr s - mr_mr_va mr) + unat (mr_va_offset mr) in
         if length pages \<le> 2 ^ 32 \<and> off + unat (sge_length s) \<le> 4096 * length pages
         then Some (pages, off) else None)"

text \<open>Its segments, and the number of entries the first loop counts for it.\<close>

definition span_chunks :: "heap \<Rightarrow> ptr \<Rightarrow> ib_sge \<Rightarrow> iovec list" where
  "span_chunks h pdp s = (case user_span h pdp s of None \<Rightarrow> [] | Some (pages, off) \<Rightarrow>
     chunks pages (off div 4096) (off mod 4096) (unat (sge_length s)))"

definition span_count :: "heap \<Rightarrow> ptr \<Rightarrow> ib_sge \<Rightarrow> nat" where
  "span_count h pdp s = (case user_span h pdp s of None \<Rightarrow> 0 | Some (pages, off) \<Rightarrow>
     (unat (sge_length s) + off mod 4096) div 4096 + 1)"

definition span_bytes :: "heap \<Rightarrow> ptr \<Rightarrow> ib_sge \<Rightarrow> u64 list" where
  "span_bytes h pdp s = (case user_span h pdp s of None \<Rightarrow> [] | Some (pages, off) \<Rightarrow>
     map (phys pages) [off..<off + unat (sge_length s)])"

lemma user_spanE:
  assumes "user_span h pdp s = Some (pages, off)"
  obtains pd mrp mr where "h_pd h pdp = Some pd" "unat (sge_lkey s) < length (pd_mr_list pd)"
    "mrp = pd_mr_list pd ! unat (sge_lkey s)" "mrp \<noteq> 0" "h_mr h mrp = Some mr" "mr_is_dma mr = 0"
    "mr_pages mr \<noteq> 0" "h_iov h (mr_pages mr) = Some pages" "length pages \<le> 2 ^ 32"
    "off = unat (sge_addr s - mr_mr_va mr) + unat (mr_va_offset mr)"
    "off + unat (sge_length s) \<le> 4096 * length pages"
  using assms by (auto simp: user_span_def Let_def not_le split: option.splits if_splits)

lemma iov_bytes_Nil [simp]: "iov_bytes [] = []"
  by (simp add: iov_bytes_def)

lemma span_chunks_bytes: "iov_bytes (span_chunks h pdp s) = span_bytes h pdp s"
  by (auto simp: span_chunks_def span_bytes_def chunks_bytes iov_bytes_Nil split: option.splits)

lemma ceil_div_page:
  "(x + 4095) div 4096 = x div 4096 + (if x mod 4096 = 0 then 0 else 1)" for x :: nat
proof -
  define q r where "q = x div 4096" and "r = x mod 4096"
  then have x: "x = r + 4096 * q" and r: "r < 4096" by simp_all
  have "(r + 4095) div 4096 = (if r = 0 then 0 else 1)"
    using r by (auto intro: div_nat_eqI)
  moreover have "(x + 4095) div 4096 = (r + 4095) div 4096 + q"
    unfolding x by (simp add: add.commute add.left_commute)
  ultimately show ?thesis unfolding q_def [symmetric] r_def [symmetric] by simp
qed

lemma span_chunks_count:
  assumes "user_span h pdp s = Some (pages, off)"
  shows "span_count h pdp s = length (span_chunks h pdp s)
    + (if sge_length s = 0 \<or> (off + unat (sge_length s)) mod 4096 = 0 then 1 else 0)"
proof -
  let ?o = "off mod 4096" and ?l = "unat (sge_length s)"
  have m: "(off + ?l) mod 4096 = (?o + ?l) mod 4096" by (simp add: mod_add_left_eq)
  show ?thesis
    using assms ceil_div_page [of "?o + ?l"]
    by (auto simp: span_count_def span_chunks_def length_chunks m unat_eq_0 add.commute [of ?l])
qed

lemma unat_u32_less: "unat (x :: u32) < 2 ^ 32"
  by (rule order_less_le_trans [OF unsigned_less]) simp

lemma ucast_32_64_32 [simp]: "ucast (ucast (x :: u32) :: u64) = x"
  using unat_u32_less [of x] by (simp add: word_unat_eq_iff unat_ucast_mod)

lemma span_count_less:
  assumes "user_span h pdp s = Some x" shows "span_count h pdp s < 2 ^ 21"
proof -
  have "unat (sge_length s) < 2 ^ 32" by (rule unat_u32_less)
  with assms show ?thesis by (cases x) (auto simp: span_count_def)
qed


section \<open>The first loop\<close>

text \<open>The entry of the segment map that the first loop fills for a segment of a user region.\<close>

definition user_entry :: "heap \<Rightarrow> ptr \<Rightarrow> dis_sge_map \<Rightarrow> ib_sge \<Rightarrow> dis_sge_map" where
  "user_entry h pdp junk s = map_user_sge
     (the (h_mr h (pd_mr_list (the (h_pd h pdp)) ! unat (sge_lkey s)))) s junk"

lemma page_number:
  assumes "a + b \<le> 4096 * n" "n \<le> 2 ^ 32" "a = unat x"
  shows "unat (x div PAGE_SIZE) = a div 4096" "unat (x - x div PAGE_SIZE * PAGE_SIZE) = a mod 4096"
proof -
  show d: "unat (x div PAGE_SIZE) = a div 4096"
    using assms by (simp add: unat_div)
  have "x - x div PAGE_SIZE * PAGE_SIZE = x mod PAGE_SIZE"
    by (simp add: minus_div_mult_eq_mod)
  then show "unat (x - x div PAGE_SIZE * PAGE_SIZE) = a mod 4096"
    using assms by (simp add: unat_mod)
qed

lemma user_entry_spec:
  fixes junk
  assumes "user_span h pdp s = Some (pages, off)"
  defines "e \<equiv> user_entry h pdp junk s"
  shows "sge_is_dma e = 0" "h_iov h (fst (sge_mr_pages e)) = Some pages"
    "fst (sge_mr_pages e) \<noteq> 0" "snd (sge_mr_pages e) = off div 4096"
    "unat (sge_base_offset e) = off mod 4096" "unat (sge_sge_len e) = unat (sge_length s)"
    "unat (sge_page_count e) = span_count h pdp s"
    "ucast (sge_sge_len e) = sge_length s"
    "off + unat (sge_length s) \<le> 4096 * length pages"
proof -
  from assms(1) obtain pd mrp mr where r: "h_pd h pdp = Some pd" "unat (sge_lkey s) < length (pd_mr_list pd)"
    "mrp = pd_mr_list pd ! unat (sge_lkey s)" "mrp \<noteq> 0" "h_mr h mrp = Some mr" "mr_is_dma mr = 0"
    "mr_pages mr \<noteq> 0" "h_iov h (mr_pages mr) = Some pages" "length pages \<le> 2 ^ 32"
    "off = unat (sge_addr s - mr_mr_va mr) + unat (mr_va_offset mr)"
    "off + unat (sge_length s) \<le> 4096 * length pages" by (rule user_spanE)
  let ?b = "(sge_addr s - mr_mr_va mr) + mr_va_offset mr"
  have "off < 2 ^ 64" using r(9,11) by simp
  then have b: "unat ?b = off" using r(10) by (simp add: unat_word_ariths)
  note pn = page_number [OF r(11,9) b [symmetric]]
  have e: "e = map_user_sge mr s junk"
    using r by (simp add: e_def user_entry_def)
  have len: "unat (sge_length s) < 2 ^ 32" by (rule unat_u32_less)
  have "unat (ucast (sge_length s) + (?b - ?b div PAGE_SIZE * PAGE_SIZE)) = unat (sge_length s) + off mod 4096"
    using pn(2) len by (simp add: unat_word_ariths)
  then have "unat ((ucast (sge_length s) + (?b - ?b div PAGE_SIZE * PAGE_SIZE)) div PAGE_SIZE)
      = (unat (sge_length s) + off mod 4096) div 4096"
    by (simp add: unat_div)
  then have "unat ((ucast (sge_length s) + (?b - ?b div PAGE_SIZE * PAGE_SIZE)) div PAGE_SIZE + 1)
      = (unat (sge_length s) + off mod 4096) div 4096 + 1"
    using len by (simp add: unat_word_ariths)
  then show "unat (sge_page_count e) = span_count h pdp s"
    using assms(1) by (simp add: e map_user_sge_def Let_def span_count_def)
  show "sge_is_dma e = 0" "h_iov h (fst (sge_mr_pages e)) = Some pages"
    "fst (sge_mr_pages e) \<noteq> 0" "snd (sge_mr_pages e) = off div 4096"
    "unat (sge_base_offset e) = off mod 4096" "unat (sge_sge_len e) = unat (sge_length s)"
    "ucast (sge_sge_len e) = sge_length s"
    "off + unat (sge_length s) \<le> 4096 * length pages"
    using r pn by (simp_all add: e map_user_sge_def Let_def)
qed

lemma map_sges_user:
  assumes "pdp \<noteq> 0"
  shows "i + n \<le> length sgl \<Longrightarrow> \<forall>s \<in> set (take n (drop i sgl)). user_span h pdp s \<noteq> None \<Longrightarrow>
    map_sges h pdp junk sgl n i wqe maps =
    (let ss = take n (drop i sgl) in
     Inr (True, wqe\<lparr>wqe_sci_msg := (wqe_sci_msg wqe)\<lparr>msg_iovlen := msg_iovlen (wqe_sci_msg wqe)
          + of_nat (sum_list (map (span_count h pdp) ss))\<rparr>\<rparr>,
       maps @ map (user_entry h pdp junk) ss))"
proof (induction n arbitrary: i wqe maps)
  case 0
  then show ?case by simp
next
  case (Suc n)
  define s where "s = sgl ! i"
  have i: "i < length sgl" "take (Suc n) (drop i sgl) = s # take n (drop (Suc i) sgl)"
    using Suc.prems(1) by (simp_all add: s_def take_Suc_conv_app_nth Cons_nth_drop_Suc [symmetric])
  then obtain pages off where u: "user_span h pdp s = Some (pages, off)"
    using Suc.prems(2) by (force simp: s_def)
  have c: "sge_page_count (user_entry h pdp junk s) = of_nat (span_count h pdp s)"
    unfolding user_entry_spec(7) [OF u, of junk, symmetric] by simp
  from u show ?case
  proof (rule user_spanE)
    fix pd mrp mr
    assume r: "h_pd h pdp = Some pd" "unat (sge_lkey s) < length (pd_mr_list pd)"
      "mrp = pd_mr_list pd ! unat (sge_lkey s)" "mrp \<noteq> 0" "h_mr h mrp = Some mr" "mr_is_dma mr = 0"
    then have "map_user_sge mr s junk = user_entry h pdp junk s"
      by (simp add: user_entry_def)
    with r i assms Suc c show ?thesis
      by (simp add: kres_simps Let_def add.assoc flip: s_def)
  qed
qed

section \<open>The second loop\<close>

lemma fill_sges_user:
  assumes "\<forall>s \<in> set ss. user_span h pdp s \<noteq> None"
  shows "j + sum_list (map (length \<circ> span_chunks h pdp) ss) \<le> length out \<Longrightarrow>
    fill_sges h (map (user_entry h pdp junk) ss) out j bl =
      (let cs = concat (map (span_chunks h pdp) ss) in
       Inr (take j out @ cs @ drop (j + length cs) out, bl + sum_list (map sge_length ss)))"
  using assms
proof (induction ss arbitrary: out j bl)
  case Nil
  then show ?case by simp
next
  case (Cons s ss)
  then obtain pages off where u: "user_span h pdp s = Some (pages, off)" by force
  note e = user_entry_spec(1,4-8) [OF u, where junk = junk]
  and p = user_entry_spec(2,3) [OF u, where junk = junk] and bound = user_entry_spec(9) [OF u]
  let ?e = "user_entry h pdp junk s" and ?c = "span_chunks h pdp s"
  have c: "?c = chunks pages (off div 4096) (off mod 4096) (unat (sge_length s))"
    using u by (simp add: span_chunks_def)
  have m: "4096 * (off div 4096) + off mod 4096 = off" by simp
  have "off mod 4096 + unat (sge_length s) \<le> 4096 * (length pages - off div 4096)"
    unfolding diff_mult_distrib2 using bound m by linarith
  then have f: "fill_sge h (fst (sge_mr_pages ?e)) (off div 4096) (sge_sge_len ?e) (sge_base_offset ?e) out j bl
      = Inr (take j out @ ?c @ drop (j + length ?c) out, j + length ?c, bl + sge_length s)"
    using fill_sge_chunks [OF p, where off = "sge_base_offset ?e" and len = "sge_sge_len ?e"
        and i = "off div 4096" and j = j and out = out and bl = bl]
      Cons.prems(1) e by (simp add: c Let_def)
  let ?out = "take j out @ ?c @ drop (j + length ?c) out"
  have "length ?out = length out" using Cons.prems(1) by simp
  then have "fill_sges h (map (user_entry h pdp junk) ss) ?out (j + length ?c) (bl + sge_length s) =
      (let cs = concat (map (span_chunks h pdp) ss) in
       Inr (take (j + length ?c) ?out @ cs @ drop (j + length ?c + length cs) ?out,
         bl + sge_length s + sum_list (map sge_length ss)))"
    using Cons by simp
  moreover have "take (j + length ?c) ?out = take j out @ ?c"
    using Cons.prems(1) by simp
  moreover have "drop (j + length ?c + k) ?out = drop (j + length ?c + k) out" for k
    using Cons.prems(1) by (simp add: min_def ac_simps)
  ultimately show ?case
    using e(1,2) f by (simp add: Let_def add.assoc length_concat)
qed

end
