(* ===== verification/Sci_Interface.thy ===== *)
theory Sci_Interface
  imports Heap
begin

text \<open>
  The layer between the driver and the SCI message queue library (\<open>dis_sci_if.c\<close>): the identifiers
  of the message queues, the error codes of the library mapped to the driver's, and the module's
  own initialisation. The library is not part of the repository: its functions are a parameter,
  acting on a world \<open>'w\<close> of which nothing else is known.
\<close>

section \<open>The library as a parameter\<close>

datatype sci_error_t =
    SCI_ERR_OK | SCI_ERR_ILLEGAL_PARAMETER | SCI_ERR_NOSPC | SCI_ERR_CONNECTION_REFUSED
  | SCI_ERR_NO_SUCH_SEGMENT | SCI_ERR_EWOULD_BLOCK | SCI_ERR_NOT_CONNECTED | SCI_ERR_OUT_OF_RANGE
  | SCI_ERR_OTHER nat \<comment> \<open>any code the driver has no case for\<close>

text \<open>
  A call takes the world and gives back its error code, what it writes through its pointer
  arguments, and the world after. \<open>SCILSendVMsg\<close> and \<open>SCILReceiveVMsg\<close> are given the segments
  that the message lists. They also get the message descriptor itself by pointer
  (\<open>&wqe->sci_msg\<close>); that they read it and do not change it is an assumption of the model.
\<close>

record 'w scilib =
  SCILInit :: "'w \<Rightarrow> sci_error_t \<times> 'w"
  SCILReconf :: "'w \<Rightarrow> sci_error_t \<times> 'w"
  SCILDestroy :: "'w \<Rightarrow> sci_error_t \<times> 'w"
  SCILCreateMsgQueue :: "sci_msq_queue_t \<Rightarrow> u32 \<Rightarrow> u32 \<Rightarrow> c_int \<Rightarrow> c_int \<Rightarrow> u32 \<Rightarrow> u64 \<Rightarrow> 'w
    \<Rightarrow> sci_error_t \<times> sci_msq_queue_t \<times> 'w"
  SCILConnectMsgQueue :: "sci_msq_queue_t \<Rightarrow> u32 \<Rightarrow> u32 \<Rightarrow> c_int \<Rightarrow> c_int \<Rightarrow> u32 \<Rightarrow> u64 \<Rightarrow> 'w
    \<Rightarrow> sci_error_t \<times> sci_msq_queue_t \<times> 'w"
  SCILRemoveMsgQueue :: "sci_msq_queue_t \<Rightarrow> 'w \<Rightarrow> sci_msq_queue_t \<times> 'w"
  SCILDisconnectMsgQueue :: "sci_msq_queue_t \<Rightarrow> 'w \<Rightarrow> sci_msq_queue_t \<times> 'w"
  SCILSendVMsg :: "sci_msq_queue_t \<Rightarrow> iovec list \<Rightarrow> u32 \<Rightarrow> 'w \<Rightarrow> sci_error_t \<times> 'w"
  SCILReceiveVMsg :: "sci_msq_queue_t \<Rightarrow> iovec list \<Rightarrow> u32 \<Rightarrow> 'w \<Rightarrow> sci_error_t \<times> u32 \<times> 'w"

text \<open>The parameters of the module; their defaults are \<open>0\<close>, \<open>0\<close>, \<open>true\<close> and \<open>true\<close>.\<close>

record sci_params =
  local_adapter_no :: u32
  remote_node_id :: u32
  is_initiator :: bool
  use_l_qpn :: bool

definition default_params :: sci_params where
  "default_params = \<lparr>local_adapter_no = 0, remote_node_id = 0, is_initiator = True, use_l_qpn = True\<rparr>"

section \<open>Creating and connecting message queues\<close>

definition create_msq_ids :: "sci_params \<Rightarrow> dis_wq \<Rightarrow> c_int \<times> c_int" where
  "create_msq_ids p w =
     (let l_msq_id = wq_l_qpn w;
          r_msq_id = (if use_l_qpn p then wq_l_qpn w else wq_r_qpn w)
      in (if is_initiator p then l_msq_id * 2 else (l_msq_id * 2) + 1,
          if is_initiator p then r_msq_id * 2 else (r_msq_id * 2) + 1))"

definition connect_msq_ids :: "sci_params \<Rightarrow> dis_wq \<Rightarrow> c_int \<times> c_int" where
  "connect_msq_ids p w =
     (let l_msq_id = wq_l_qpn w;
          r_msq_id = (if use_l_qpn p then wq_l_qpn w else wq_r_qpn w)
      in (if is_initiator p then (l_msq_id * 2) + 1 else l_msq_id * 2,
          if is_initiator p then (r_msq_id * 2) + 1 else r_msq_id * 2))"

definition dis_sci_if_create_msq ::
  "sci_params \<Rightarrow> 'w scilib \<Rightarrow> heap \<Rightarrow> 'w \<Rightarrow> wq_ref \<Rightarrow> (int \<times> heap \<times> 'w) kres" where
  "dis_sci_if_create_msq p lib h s r =
     rbind (get_wq h r) (\<lambda>w.
     let (l_msq_id, r_msq_id) = create_msq_ids p w;
         (err, q, s') = SCILCreateMsgQueue lib (wq_sci_msq w) (local_adapter_no p) (remote_node_id p)
           l_msq_id r_msq_id DIS_MSG_MAX DIS_MSG_SIZE_MAX s;
         h' = set_wq h r (w\<lparr>wq_sci_msq := q\<rparr>)
     in Inr (case err of SCI_ERR_OK \<Rightarrow> 0 | SCI_ERR_ILLEGAL_PARAMETER \<Rightarrow> -42 | SCI_ERR_NOSPC \<Rightarrow> -42
         | _ \<Rightarrow> -42, h', s'))"

definition dis_sci_if_remove_msq :: "'w scilib \<Rightarrow> heap \<Rightarrow> 'w \<Rightarrow> wq_ref \<Rightarrow> (heap \<times> 'w) kres" where
  "dis_sci_if_remove_msq lib h s r =
     rbind (get_wq h r) (\<lambda>w.
     let (q, s') = SCILRemoveMsgQueue lib (wq_sci_msq w) s
     in Inr (set_wq h r (w\<lparr>wq_sci_msq := q\<rparr>), s'))"

definition dis_sci_if_connect_msq ::
  "sci_params \<Rightarrow> 'w scilib \<Rightarrow> heap \<Rightarrow> 'w \<Rightarrow> wq_ref \<Rightarrow> (int \<times> heap \<times> 'w) kres" where
  "dis_sci_if_connect_msq p lib h s r =
     rbind (get_wq h r) (\<lambda>w.
     let (l_msq_id, r_msq_id) = connect_msq_ids p w;
         (err, q, s') = SCILConnectMsgQueue lib (wq_sci_msq w) (local_adapter_no p) (remote_node_id p)
           l_msq_id r_msq_id DIS_MSG_MAX DIS_MSG_SIZE_MAX s;
         h' = set_wq h r (w\<lparr>wq_sci_msq := q\<rparr>)
     in Inr (case err of SCI_ERR_OK \<Rightarrow> 0 | SCI_ERR_CONNECTION_REFUSED \<Rightarrow> -42
         | SCI_ERR_NO_SUCH_SEGMENT \<Rightarrow> -42 | _ \<Rightarrow> -42, h', s'))"

definition dis_sci_if_disconnect_msq :: "'w scilib \<Rightarrow> heap \<Rightarrow> 'w \<Rightarrow> wq_ref \<Rightarrow> (heap \<times> 'w) kres" where
  "dis_sci_if_disconnect_msq lib h s r =
     rbind (get_wq h r) (\<lambda>w.
     let (q, s') = SCILDisconnectMsgQueue lib (wq_sci_msq w) s
     in Inr (set_wq h r (w\<lparr>wq_sci_msq := q\<rparr>), s'))"

section \<open>Moving messages\<close>

text \<open>A work queue entry is passed by address: the array it lies in and its index.\<close>

type_synonym wqe_ptr = "ptr \<times> nat"

fun get_wqe :: "heap \<Rightarrow> wqe_ptr \<Rightarrow> dis_wqe kres" where
  "get_wqe h (mem, i) = rbind (deref (h_wqe h) mem) (\<lambda>slots. array_get slots i)"

fun put_wqe :: "heap \<Rightarrow> wqe_ptr \<Rightarrow> dis_wqe \<Rightarrow> heap kres" where
  "put_wqe h (mem, i) e = rbind (deref (h_wqe h) mem) (\<lambda>slots.
     rbind (array_put slots i e) (\<lambda>slots'. Inr (h\<lparr>h_wqe := (h_wqe h)(mem \<mapsto> slots')\<rparr>)))"

text \<open>The segments the library reads: \<open>iovlen\<close> entries from where \<open>iov\<close> points.\<close>

definition msg_iovs :: "heap \<Rightarrow> dis_wqe \<Rightarrow> iovec list kres" where
  "msg_iovs h e =
     (let n = unat (msg_iovlen (wqe_sci_msg e)) in
      if n = 0 then Inr []
      else rbind (case msg_iov (wqe_sci_msg e) of IovNull \<Rightarrow> Inl NullDeref
          | IovStatic i \<Rightarrow> Inr (drop i (wqe_page_map_static e))
          | IovDynamic p \<Rightarrow> deref (h_iov h) p) (\<lambda>iovs.
        if n \<le> length iovs then Inr (take n iovs) else Inl OutOfBounds))"

definition wqe_handle :: "heap \<Rightarrow> dis_wqe \<Rightarrow> sci_msq_queue_t kres" where
  \<comment> \<open>\<open>*(wqe->sci_msq)\<close>\<close>
  "wqe_handle h e = (case wqe_sci_msq e of None \<Rightarrow> Inl NullDeref
     | Some r \<Rightarrow> rbind (get_wq h r) (\<lambda>w. Inr (wq_sci_msq w)))"

definition dis_sci_if_send_v_msg :: "'w scilib \<Rightarrow> heap \<Rightarrow> 'w \<Rightarrow> wqe_ptr \<Rightarrow> (int \<times> 'w) kres" where
  "dis_sci_if_send_v_msg lib h s p =
     rbind (get_wqe h p) (\<lambda>wqe.
     rbind (wqe_handle h wqe) (\<lambda>q.
     rbind (msg_iovs h wqe) (\<lambda>iovs.
     let (err, s') = SCILSendVMsg lib q iovs (wqe_byte_len wqe) s
     in Inr (case err of SCI_ERR_OK \<Rightarrow> 0 | SCI_ERR_EWOULD_BLOCK \<Rightarrow> -42 | SCI_ERR_NOT_CONNECTED \<Rightarrow> -42
         | SCI_ERR_OUT_OF_RANGE \<Rightarrow> -42 | _ \<Rightarrow> -42, s'))))"

definition dis_sci_if_receive_v_msg ::
  "'w scilib \<Rightarrow> heap \<Rightarrow> 'w \<Rightarrow> wqe_ptr \<Rightarrow> (int \<times> heap \<times> 'w) kres" where
  "dis_sci_if_receive_v_msg lib h s p =
     rbind (get_wqe h p) (\<lambda>wqe.
     rbind (wqe_handle h wqe) (\<lambda>q.
     rbind (msg_iovs h wqe) (\<lambda>iovs.
     let (err, byte_len, s') = SCILReceiveVMsg lib q iovs (wqe_byte_len wqe) s
     in rbind (put_wqe h p (wqe\<lparr>wqe_byte_len := byte_len\<rparr>)) (\<lambda>h'.
        Inr (case err of SCI_ERR_OK \<Rightarrow> 0 | SCI_ERR_EWOULD_BLOCK \<Rightarrow> -42 | SCI_ERR_NOT_CONNECTED \<Rightarrow> -42
          | SCI_ERR_ILLEGAL_PARAMETER \<Rightarrow> -42 | SCI_ERR_OUT_OF_RANGE \<Rightarrow> -42 | _ \<Rightarrow> -42, h', s')))))"

section \<open>The module\<close>

definition dis_sci_if_init :: "'w scilib \<Rightarrow> 'w \<Rightarrow> int \<times> 'w" where
  "dis_sci_if_init lib s =
     (let (ret, s1) = SCILInit lib s in
      if ret \<noteq> SCI_ERR_OK then (-1, s1)
      else let (ret, s2) = SCILReconf lib s1 in
        if ret \<noteq> SCI_ERR_OK then (-1, s2)
        else (0, s2))"

definition dis_sci_if_exit :: "'w scilib \<Rightarrow> 'w \<Rightarrow> 'w" where
  "dis_sci_if_exit lib s =
     (let (ret, s1) = SCILDestroy lib s in if ret \<noteq> SCI_ERR_OK then s1 else s1)"

section \<open>Lemmas\<close>

text \<open>Every error of the library is the same -42 to the driver.\<close>

lemma sci_ret_simps [simp]:
  "(case err of SCI_ERR_OK \<Rightarrow> 0 | SCI_ERR_ILLEGAL_PARAMETER \<Rightarrow> -42 | SCI_ERR_NOSPC \<Rightarrow> -42
     | _ \<Rightarrow> -42) = (if err = SCI_ERR_OK then 0 else (-42 :: int))"
  "(case err of SCI_ERR_OK \<Rightarrow> 0 | SCI_ERR_EWOULD_BLOCK \<Rightarrow> -42 | SCI_ERR_NOT_CONNECTED \<Rightarrow> -42
     | SCI_ERR_OUT_OF_RANGE \<Rightarrow> -42 | _ \<Rightarrow> -42) = (if err = SCI_ERR_OK then 0 else (-42 :: int))"
  by (cases err; simp)+

lemma create_msq_result:
  assumes "get_wq h r = Inr w"
  shows "\<exists>ret q s'. dis_sci_if_create_msq p lib h s r = Inr (ret, set_wq h r (w\<lparr>wq_sci_msq := q\<rparr>), s')
    \<and> (ret = 0 \<or> ret = -42)
    \<and> (ret = 0 \<longleftrightarrow> fst (SCILCreateMsgQueue lib (wq_sci_msq w) (local_adapter_no p) (remote_node_id p)
         (fst (create_msq_ids p w)) (snd (create_msq_ids p w)) DIS_MSG_MAX DIS_MSG_SIZE_MAX s) = SCI_ERR_OK)"
  using assms by (auto simp: dis_sci_if_create_msq_def split: prod.splits)

lemma connect_msq_result:
  assumes "get_wq h r = Inr w"
  shows "\<exists>ret q s'. dis_sci_if_connect_msq p lib h s r = Inr (ret, set_wq h r (w\<lparr>wq_sci_msq := q\<rparr>), s')
    \<and> (ret = 0 \<or> ret = -42)
    \<and> (ret = 0 \<longleftrightarrow> fst (SCILConnectMsgQueue lib (wq_sci_msq w) (local_adapter_no p) (remote_node_id p)
         (fst (connect_msq_ids p w)) (snd (connect_msq_ids p w)) DIS_MSG_MAX DIS_MSG_SIZE_MAX s) = SCI_ERR_OK)"
  using assms by (auto simp: dis_sci_if_connect_msq_def split: prod.splits)

section \<open>Message queue identifiers\<close>

lemma double_unat:
  assumes "unat (x :: u32) < 2 ^ 31"
  shows "unat (x * 2) = 2 * unat x" "unat (x * 2 + 1) = 2 * unat x + 1"
  using assms by (simp_all add: unat_word_ariths)

lemma double_inject:
  assumes "unat (x :: u32) < 2 ^ 31" "unat y < 2 ^ 31"
  shows "x * 2 = y * 2 \<longleftrightarrow> x = y" "x * 2 + 1 = y * 2 + 1 \<longleftrightarrow> x = y" "x * 2 \<noteq> y * 2 + 1"
  using double_unat [OF assms(1)] double_unat [OF assms(2)]
  by (metis (no_types) add_right_cancel double_not_eq_Suc_double mult_left_cancel
      word_unat_eq_iff zero_neq_numeral Suc_eq_plus1)+

text \<open>
  C24. The two ends of a connection find each other. On an initiator and a non-initiator node with
  the same \<open>use_l_qpn\<close> setting, let two queue pairs be each other's remote ends. Then the queue the
  one creates carries exactly the pair of identifiers, swapped, that the other connects to, if and
  only if the module was told to use the remote numbers or the two local numbers agree.
\<close>

theorem msq_ids_meet:
  assumes "is_initiator p' \<longleftrightarrow> \<not> is_initiator p" "use_l_qpn p' = use_l_qpn p"
    "wq_r_qpn w = wq_l_qpn w'" "wq_r_qpn w' = wq_l_qpn w"
    "unat (wq_l_qpn w) < 2 ^ 31" "unat (wq_l_qpn w') < 2 ^ 31"
  shows "connect_msq_ids p' w' = prod.swap (create_msq_ids p w)
    \<longleftrightarrow> (use_l_qpn p \<longrightarrow> wq_l_qpn w = wq_l_qpn w')"
  using assms double_inject [OF assms(5,6)]
  by (auto simp: connect_msq_ids_def create_msq_ids_def Let_def)

theorem msq_ids_meet_witness:
  "connect_msq_ids (default_params\<lparr>is_initiator := False\<rparr>) (zero_wq\<lparr>wq_l_qpn := 100, wq_r_qpn := 100\<rparr>)
     = prod.swap (create_msq_ids default_params (zero_wq\<lparr>wq_l_qpn := 100, wq_r_qpn := 100\<rparr>))
   \<and> connect_msq_ids (default_params\<lparr>is_initiator := False\<rparr>) (zero_wq\<lparr>wq_l_qpn := 101, wq_r_qpn := 100\<rparr>)
     \<noteq> prod.swap (create_msq_ids default_params (zero_wq\<lparr>wq_l_qpn := 100, wq_r_qpn := 101\<rparr>))"
  using msq_ids_meet [of "default_params\<lparr>is_initiator := False\<rparr>" default_params
      "zero_wq\<lparr>wq_l_qpn := 100, wq_r_qpn := 100\<rparr>" "zero_wq\<lparr>wq_l_qpn := 100, wq_r_qpn := 100\<rparr>"]
    msq_ids_meet [of "default_params\<lparr>is_initiator := False\<rparr>" default_params
      "zero_wq\<lparr>wq_l_qpn := 100, wq_r_qpn := 101\<rparr>" "zero_wq\<lparr>wq_l_qpn := 101, wq_r_qpn := 100\<rparr>"]
  by (simp add: default_params_def)

text \<open>
  C25. When two local identifiers of one node clash: exactly when both belong to queues of the same
  direction (both created, or both connected from) whose queue pairs have the same number. A created
  queue never clashes with one connected from. Numbers are unique only within a protection domain, so
  queue pairs of two domains that carry the same number do get the same identifiers.
\<close>

theorem msq_ids_distinct:
  assumes "unat (wq_l_qpn w) < 2 ^ 31" "unat (wq_l_qpn w') < 2 ^ 31"
  shows "fst (create_msq_ids p w) \<noteq> fst (connect_msq_ids p w')
    \<and> (fst (create_msq_ids p w) = fst (create_msq_ids p w') \<longleftrightarrow> wq_l_qpn w = wq_l_qpn w')
    \<and> (fst (connect_msq_ids p w) = fst (connect_msq_ids p w') \<longleftrightarrow> wq_l_qpn w = wq_l_qpn w')"
  using double_inject [OF assms] double_inject [OF assms(2,1)]
  by (auto simp: connect_msq_ids_def create_msq_ids_def Let_def)

theorem msq_ids_distinct_witness:
  "fst (create_msq_ids default_params (zero_wq\<lparr>wq_l_qpn := 100\<rparr>))
    \<noteq> fst (connect_msq_ids default_params (zero_wq\<lparr>wq_l_qpn := 199\<rparr>))"
  using msq_ids_distinct [of "zero_wq\<lparr>wq_l_qpn := 100\<rparr>" "zero_wq\<lparr>wq_l_qpn := 199\<rparr>" default_params]
  by simp

end
