(* ===== verification/Work_Queue.thy ===== *)
theory Work_Queue
  imports Segments Sci_Interface
begin

text \<open>
  Work queues: their well-formedness and contents, the two posting routines proved against the
  byte-level reference of \<open>Segments\<close>, the requests they turn down, and the worker's access to the
  queue; both routines implement the bounded queue interface of \<open>Ring\<close>.
\<close>

section \<open>Well-formed work queues and their contents\<close>

definition wq_ok :: "heap \<Rightarrow> wq_ref \<Rightarrow> bool" where
  "wq_ok h r = (case get_wq h r of Inl _ \<Rightarrow> False | Inr w \<Rightarrow>
     (case deref (h_qp h) (wq_ibqp w) of Inl _ \<Rightarrow> False | Inr qp \<Rightarrow>
        (case deref (h_pd h) (qp_ibqp_pd qp) of Inl _ \<Rightarrow> False | Inr pd \<Rightarrow>
           (case deref (h_wqe h) (circ_buf_mem (wq_wqe_circ w)) of Inl _ \<Rightarrow> False | Inr slots \<Rightarrow>
              circ_ok (wq_wqe_circ w) (wq_wqe_max w) slots
              \<and> (\<forall>e \<in> set slots. length (wqe_page_map_static e) = DIS_SGE_PER_WQE)))))"

definition wq_list :: "heap \<Rightarrow> wq_ref \<Rightarrow> dis_wqe list" where
  "wq_list h r = (case get_wq h r of Inl _ \<Rightarrow> [] | Inr w \<Rightarrow>
     (case h_wqe h (circ_buf_mem (wq_wqe_circ w)) of None \<Rightarrow> []
      | Some slots \<Rightarrow> circ_list (wq_wqe_circ w) (wq_wqe_max w) slots))"

definition wq_cap :: "heap \<Rightarrow> wq_ref \<Rightarrow> nat" where
  "wq_cap h r = (case get_wq h r of Inl _ \<Rightarrow> 0 | Inr w \<Rightarrow> unat (wq_wqe_max w) - 1)"

text \<open>The protection domain of the queue's queue pair, and the segments an entry names.\<close>

definition wq_pd :: "heap \<Rightarrow> wq_ref \<Rightarrow> ptr" where
  "wq_pd h r = (case get_wq h r of Inl _ \<Rightarrow> NULL | Inr w \<Rightarrow>
     (case h_qp h (wq_ibqp w) of None \<Rightarrow> NULL | Some qp \<Rightarrow> qp_ibqp_pd qp))"

definition entry_iovs :: "heap \<Rightarrow> dis_wqe \<Rightarrow> iovec list" where
  "entry_iovs h e = take (unat (msg_iovlen (wqe_sci_msg e))) (case msg_iov (wqe_sci_msg e) of
       IovNull \<Rightarrow> [] | IovStatic i \<Rightarrow> drop i (wqe_page_map_static e)
     | IovDynamic p \<Rightarrow> (case h_iov h p of None \<Rightarrow> [] | Some iovs \<Rightarrow> iovs))"

lemma wq_okE:
  assumes "wq_ok h r"
  obtains w qp pd slots where "get_wq h r = Inr w" "wq_ibqp w \<noteq> 0" "h_qp h (wq_ibqp w) = Some qp"
    "qp_ibqp_pd qp \<noteq> 0" "h_pd h (qp_ibqp_pd qp) = Some pd" "circ_buf_mem (wq_wqe_circ w) \<noteq> 0"
    "h_wqe h (circ_buf_mem (wq_wqe_circ w)) = Some slots"
    "circ_ok (wq_wqe_circ w) (wq_wqe_max w) slots"
    "\<forall>e \<in> set slots. length (wqe_page_map_static e) = DIS_SGE_PER_WQE"
  using assms by (auto simp: wq_ok_def deref_eq_Inr split: sum.splits)

lemma wq_list_bound: "wq_ok h r \<Longrightarrow> length (wq_list h r) \<le> wq_cap h r"
  by (erule wq_okE) (auto simp: wq_list_def wq_cap_def dest: circ_list_bound)

lemma wq_frame_iov [heap_simps]:
  "wq_ok (h\<lparr>h_next := n, h_iov := m\<rparr>) r = wq_ok h r"
  "wq_list (h\<lparr>h_next := n, h_iov := m\<rparr>) r = wq_list h r"
  "wq_cap (h\<lparr>h_next := n, h_iov := m\<rparr>) r = wq_cap h r"
  "wq_pd (h\<lparr>h_next := n, h_iov := m\<rparr>) r = wq_pd h r"
  by (simp_all add: wq_ok_def wq_list_def wq_cap_def wq_pd_def heap_simps split: sum.splits)

lemma set_wq_qp_pd:
  "h_qp h p = Some qp \<Longrightarrow> \<exists>qp'. h_qp (set_wq h r w) p = Some qp' \<and> qp_ibqp_pd qp' = qp_ibqp_pd qp"
  by (cases r) (auto split: option.splits)

lemma store_wqe_frame [heap_simps]:
  "h_next (store_wqe h m s i e) = h_next h" "h_pd (store_wqe h m s i e) = h_pd h"
  "h_mr (store_wqe h m s i e) = h_mr h" "h_umem (store_wqe h m s i e) = h_umem h"
  "h_iov (store_wqe h m s i e) = h_iov h" "h_cq (store_wqe h m s i e) = h_cq h"
  "h_cqe (store_wqe h m s i e) = h_cqe h" "h_qp (store_wqe h m s i e) = h_qp h"
  "h_srq (store_wqe h m s i e) = h_srq h" "h_thread (store_wqe h m s i e) = h_thread h"
  "get_wq (store_wqe h m s i e) r = get_wq h r"
  by (simp_all add: store_wqe_def heap_simps)

lemma publish_frame [heap_simps]:
  "h_next (publish h r w i) = h_next h" "h_pd (publish h r w i) = h_pd h"
  "h_mr (publish h r w i) = h_mr h" "h_umem (publish h r w i) = h_umem h"
  "h_iov (publish h r w i) = h_iov h" "h_cq (publish h r w i) = h_cq h"
  "h_cqe (publish h r w i) = h_cqe h" "h_wqe (publish h r w i) = h_wqe h"
  "h_thread (publish h r w i) = h_thread h"
  by (simp_all add: publish_def heap_simps)

lemma publish_wqe:
  assumes "wq_ok h r" "get_wq h r = Inr w" "h_wqe h (circ_buf_mem (wq_wqe_circ w)) = Some slots"
    "length (wq_list h r) < wq_cap h r" "length (wqe_page_map_static e) = DIS_SGE_PER_WQE"
  defines "i \<equiv> unat (circ_head (wq_wqe_circ w))" and "c \<equiv> int_to_ulong (circ_head (wq_wqe_circ w))"
  defines "h' \<equiv> publish (store_wqe h (circ_buf_mem (wq_wqe_circ w)) slots i e) r w c"
  shows "wq_ok h' r" "wq_list h' r = wq_list h r @ [e]" "wq_cap h' r = wq_cap h r"
    "wq_pd h' r = wq_pd h r"
proof -
  from assms(1) obtain w0 qp pd slots0 where r: "get_wq h r = Inr w0" "wq_ibqp w0 \<noteq> 0"
    "h_qp h (wq_ibqp w0) = Some qp" "qp_ibqp_pd qp \<noteq> 0" "h_pd h (qp_ibqp_pd qp) = Some pd"
    "circ_buf_mem (wq_wqe_circ w0) \<noteq> 0" "h_wqe h (circ_buf_mem (wq_wqe_circ w0)) = Some slots0"
    "circ_ok (wq_wqe_circ w0) (wq_wqe_max w0) slots0"
    "\<forall>e \<in> set slots0. length (wqe_page_map_static e) = DIS_SGE_PER_WQE" by (rule wq_okE)
  then have [simp]: "w0 = w" "slots0 = slots" using assms(2,3) by auto
  let ?c = "(wq_wqe_circ w)\<lparr>circ_head := circ_next c (wq_wqe_max w)\<rparr>"
  have len: "length (circ_list (wq_wqe_circ w) (wq_wqe_max w) slots) < unat (wq_wqe_max w) - 1"
    using assms(4) r by (simp add: wq_list_def wq_cap_def)
  note put = circ_put [OF r(8) [simplified] len, of e, folded i_def c_def]
  have g: "get_wq h' r = Inr (w\<lparr>wq_wqe_circ := ?c\<rparr>)"
    using r(1) by (simp add: h'_def publish_def heap_simps)
  obtain qp' where q: "h_qp h' (wq_ibqp w) = Some qp'" "qp_ibqp_pd qp' = qp_ibqp_pd qp"
    using set_wq_qp_pd [of "store_wqe h (circ_buf_mem (wq_wqe_circ w)) slots i e" "wq_ibqp w" qp r
        "w\<lparr>wq_wqe_circ := ?c\<rparr>"] r(3) by (auto simp: h'_def publish_def heap_simps)
  have s: "h_wqe h' (circ_buf_mem (wq_wqe_circ w)) = Some (slots[i := e])"
    "h_pd h' = h_pd h"
    by (simp_all add: h'_def heap_simps) (simp add: store_wqe_def)
  have "\<forall>x \<in> set (slots[i := e]). length (wqe_page_map_static x) = DIS_SGE_PER_WQE"
    using r(9) assms(5) by (auto dest: set_update_subset_insert [THEN subsetD])
  with g q s put r show "wq_ok h' r" "wq_list h' r = wq_list h r @ [e]" "wq_cap h' r = wq_cap h r"
    "wq_pd h' r = wq_pd h r"
    by (simp_all add: wq_ok_def wq_list_def wq_cap_def wq_pd_def deref_Some)
qed

section \<open>Posting\<close>

text \<open>
  The two posting routines are one, up to the opcode they write, and they are their two halves run
  one after the other.
\<close>

lemmas post_halves = post_one_def post_prepare_def post_publish_def Let_def rbind_assoc

lemma post_sqe_one: "dis_qp_post_one_sqe = post_one (ucast IB_WC_SEND)"
  by (intro ext) (auto simp: dis_qp_post_one_sqe_def post_halves heap_simps split: prod.splits intro!: rbind_cong)

lemma post_rqe_one: "dis_qp_post_one_rqe = post_one (ucast IB_WC_RECV)"
  by (intro ext) (auto simp: dis_qp_post_one_rqe_def post_halves heap_simps split: prod.splits intro!: rbind_cong)

definition request_sges :: "ib_wr \<Rightarrow> ib_sge list" where
  "request_sges wr = take (sge_limit wr) (wr_sg_list wr)"

definition request_in_user_mrs :: "heap \<Rightarrow> ptr \<Rightarrow> ib_wr \<Rightarrow> bool" where
  "request_in_user_mrs h pdp wr \<longleftrightarrow> sge_limit wr \<le> length (wr_sg_list wr)
     \<and> (\<forall>s \<in> set (request_sges wr). user_span h pdp s \<noteq> None)"

definition request_count :: "heap \<Rightarrow> ptr \<Rightarrow> ib_wr \<Rightarrow> nat" where
  "request_count h pdp wr = sum_list (map (span_count h pdp) (request_sges wr))"

definition request_bytes :: "heap \<Rightarrow> ptr \<Rightarrow> ib_wr \<Rightarrow> u64 list" where
  "request_bytes h pdp wr = concat (map (span_bytes h pdp) (request_sges wr))"

definition request_length :: "ib_wr \<Rightarrow> u32" where
  "request_length wr = sum_list (map sge_length (request_sges wr))"

text \<open>\<open>kmalloc\<close> returns an array of the size asked for.\<close>

definition iov_sized :: "kenv \<Rightarrow> bool" where
  "iov_sized env \<longleftrightarrow> (\<forall>h n. length (k_kmalloc_iov env h n) = unat n)"

lemma post_one_full:
  assumes "wq_ok h r" "length (wq_list h r) = wq_cap h r"
  shows "post_one opc env h r wr = Inr (-42, h)"
  using assms(1)
proof (cases rule: wq_okE)
  case (1 w qp pd slots)
  then have "CIRC_SPACE (int_to_ulong (circ_head (wq_wqe_circ w)))
      (int_to_ulong (circ_tail (wq_wqe_circ w))) (wq_wqe_max w) < 1"
    using assms(2) circ_full_iff [OF 1(8)] by (simp add: wq_list_def wq_cap_def)
  with 1 show ?thesis by (simp add: post_halves kres_simps)
qed

lemma iov_bytes_concat: "iov_bytes (concat vss) = concat (map iov_bytes vss)"
  by (induction vss) (simp_all add: iov_bytes_append)

lemma sum_count_le: 
  assumes "\<forall>s \<in> set ss. user_span h pdp s \<noteq> None"
  shows "sum_list (map (span_count h pdp) ss) = length (concat (map (span_chunks h pdp) ss))
    + length (filter (\<lambda>s. sge_length s = 0 \<or> (snd (the (user_span h pdp s)) + unat (sge_length s)) mod 4096 = 0) ss)"
  using assms by (induction ss) (auto simp: span_chunks_count)

text \<open>The entry as the first loop leaves it, and with either page map filled.\<close>

definition begun_entry :: "u8 \<Rightarrow> heap \<Rightarrow> wq_ref \<Rightarrow> dis_wq \<Rightarrow> ib_wr \<Rightarrow> dis_wqe \<Rightarrow> dis_wqe" where
  "begun_entry opc h r w wr slot = slot\<lparr>wqe_opcode := opc, wqe_sci_msq := Some r, wqe_byte_len := 0,
     wqe_ibqp := wq_ibqp w, wqe_wr_id := ucast (wr_wr_id wr),
     wqe_sci_msg := (wqe_sci_msg slot)\<lparr>msg_iovlen := of_nat (request_count h (wq_pd h r) wr)\<rparr>\<rparr>"

definition request_chunks :: "heap \<Rightarrow> ptr \<Rightarrow> ib_wr \<Rightarrow> iovec list" where
  "request_chunks h pdp wr = concat (map (span_chunks h pdp) (request_sges wr))"

definition overlay :: "iovec list \<Rightarrow> iovec list \<Rightarrow> iovec list" where
  "overlay cs out = cs @ drop (length cs) out"

definition static_entry :: "u8 \<Rightarrow> heap \<Rightarrow> wq_ref \<Rightarrow> dis_wq \<Rightarrow> ib_wr \<Rightarrow> dis_wqe \<Rightarrow> dis_wqe" where
  "static_entry opc h r w wr slot = (let e = begun_entry opc h r w wr slot in
     e\<lparr>wqe_page_map_static := overlay (request_chunks h (wq_pd h r) wr) (wqe_page_map_static slot),
       wqe_byte_len := request_length wr,
       wqe_sci_msg := (wqe_sci_msg e)\<lparr>msg_iov := IovStatic 0\<rparr>\<rparr>)"

definition dynamic_entry :: "u8 \<Rightarrow> heap \<Rightarrow> wq_ref \<Rightarrow> dis_wq \<Rightarrow> ib_wr \<Rightarrow> dis_wqe \<Rightarrow> dis_wqe" where
  "dynamic_entry opc h r w wr slot = (let e = begun_entry opc h r w wr slot in
     e\<lparr>wqe_page_map_dynamic := h_next h, wqe_byte_len := request_length wr,
       wqe_sci_msg := (wqe_sci_msg e)\<lparr>msg_iov := IovDynamic (h_next h)\<rparr>\<rparr>)"

definition new_iov :: "heap \<Rightarrow> iovec list \<Rightarrow> heap" where
  "new_iov h out = h\<lparr>h_next := Suc (h_next h), h_iov := (h_iov h)(h_next h \<mapsto> out)\<rparr>"

definition page_slack :: "heap \<Rightarrow> ptr \<Rightarrow> ib_wr \<Rightarrow> nat" where
  \<comment> \<open>the number of segments that are empty or end on a page boundary\<close>
  "page_slack h pdp wr = length (filter (\<lambda>s. sge_length s = 0 \<or>
     (snd (the (user_span h pdp s)) + unat (sge_length s)) mod 4096 = 0) (request_sges wr))"

lemma request_chunks_count:
  assumes "request_in_user_mrs h pdp wr"
  shows "request_count h pdp wr = length (request_chunks h pdp wr)
    + page_slack h pdp wr"
  using assms sum_count_le
  by (simp add: request_count_def request_chunks_def request_in_user_mrs_def page_slack_def)

lemma fill_request:
  assumes "request_in_user_mrs h pdp wr" "request_count h pdp wr \<le> length out"
  shows "fill_sges h (map (user_entry h pdp junk) (request_sges wr)) out 0 0 =
    Inr (overlay (request_chunks h pdp wr) out, request_length wr)"
  using assms fill_sges_user [of "request_sges wr" h pdp 0 out junk 0] request_chunks_count [of h pdp wr]
  by (simp add: request_in_user_mrs_def request_length_def length_concat Let_def comp_def overlay_def
      request_chunks_def)

lemma post_prepare_request:
  assumes ok: "wq_ok h r" and room: "length (wq_list h r) < wq_cap h r"
    and w: "get_wq h r = Inr w" "h_wqe h (circ_buf_mem (wq_wqe_circ w)) = Some slots"
    and req: "request_in_user_mrs h (wq_pd h r) wr" "request_count h (wq_pd h r) wr \<le> 1024"
    and env: "iov_sized env"
  defines "n \<equiv> request_count h (wq_pd h r) wr" and "i \<equiv> unat (circ_head (wq_wqe_circ w))"
    and "mem \<equiv> circ_buf_mem (wq_wqe_circ w)"
  shows "post_prepare opc env h r wr =
    (if n \<le> DIS_SGE_PER_WQE then
       Inr (Inr (int_to_ulong (circ_head (wq_wqe_circ w))),
         store_wqe h mem slots i (static_entry opc h r w wr (slots ! i)))
     else if \<not> k_alloc env h (AllocIov (of_nat n)) then
       Inr (Inl (-42), store_wqe h mem slots i
         ((begun_entry opc h r w wr (slots ! i))\<lparr>wqe_page_map_dynamic := NULL\<rparr>))
     else Inr (Inr (int_to_ulong (circ_head (wq_wqe_circ w))), store_wqe
         (new_iov h (overlay (request_chunks h (wq_pd h r) wr) (k_kmalloc_iov env h (of_nat n))))
         mem slots i (dynamic_entry opc h r w wr (slots ! i))))"
proof -
  from ok obtain qp pd where 1: "h_qp h (wq_ibqp w) = Some qp" "wq_ibqp w \<noteq> 0" "qp_ibqp_pd qp = wq_pd h r"
    "wq_pd h r \<noteq> 0" "mem \<noteq> 0" "circ_ok (wq_wqe_circ w) (wq_wqe_max w) slots"
    "\<forall>e \<in> set slots. length (wqe_page_map_static e) = DIS_SGE_PER_WQE"
    using w by (auto simp: wq_pd_def mem_def elim!: wq_okE)
  note b = circ_ok_bounds [OF 1(6)]
  let ?begun = "begun_entry opc h r w wr (slots ! i)"
    and ?maps = "map (user_entry h (wq_pd h r) (k_stack_sge env h)) (request_sges wr)"
  have space: "\<not> CIRC_SPACE (int_to_ulong (circ_head (wq_wqe_circ w)))
      (int_to_ulong (circ_tail (wq_wqe_circ w))) (wq_wqe_max w) < 1"
    using room w circ_full_iff [OF 1(6)] by (simp add: wq_list_def wq_cap_def)
  have i: "i < length slots" and st: "length (wqe_page_map_static (slots ! i)) = DIS_SGE_PER_WQE"
    using b 1(7) by (auto simp: i_def)
  have m: "map_sges h (wq_pd h r) (k_stack_sge env h) (wr_sg_list wr) (sge_limit wr) 0
      ((slots ! i)\<lparr>wqe_opcode := opc, wqe_sci_msq := Some r, wqe_byte_len := 0,
           wqe_ibqp := wq_ibqp w, wqe_wr_id := ucast (wr_wr_id wr),
           wqe_sci_msg := (wqe_sci_msg (slots ! i))\<lparr>msg_iovlen := 0\<rparr>\<rparr>) [] = Inr (True, ?begun, ?maps)"
    using req 1(4) by (simp add: map_sges_user request_in_user_mrs_def request_sges_def
        begun_entry_def request_count_def Let_def)
  have un: "unat (of_nat n :: u64) = n" using req by (simp add: n_def unat_of_nat)
  then have small: "of_nat n \<le> (of_nat DIS_SGE_PER_WQE :: u64) \<longleftrightarrow> n \<le> DIS_SGE_PER_WQE"
    "\<not> (of_nat n > DIS_MAX_IOVLEN)"
    using req by (simp_all add: n_def word_le_nat_alt word_less_nat_alt DIS_SGE_PER_WQE_def DIS_MAX_IOVLEN_def)
  have f: "fill_sges h ?maps (wqe_page_map_static (slots ! i)) 0 0
      = Inr (overlay (request_chunks h (wq_pd h r) wr) (wqe_page_map_static (slots ! i)), request_length wr)"
    if "n \<le> DIS_SGE_PER_WQE"
    using fill_request [OF req(1)] st that by (simp add: n_def)
  have g: "fill_sges h ?maps (k_kmalloc_iov env h (of_nat n)) 0 0
      = Inr (overlay (request_chunks h (wq_pd h r) wr) (k_kmalloc_iov env h (of_nat n)), request_length wr)"
    using fill_request [OF req(1)] un env by (simp add: n_def iov_sized_def)
  have hd: "unat (int_to_ulong (circ_head (wq_wqe_circ w))) = i"
    using b(2) by (simp add: i_def)
  have w': "h_wqe h mem = Some slots" using w(2) by (simp add: mem_def)
  show ?thesis
    using 1(1-5) w(1) w' space i m f g small
    by (simp add: post_prepare_def kres_simps begun_entry_def static_entry_def dynamic_entry_def Let_def
        new_iov_def hd flip: mem_def n_def)
qed

lemma overlay_length: "length cs \<le> length out \<Longrightarrow> length (overlay cs out) = length out"
  by (simp add: overlay_def)

lemma wq_frame_new_iov [heap_simps]:
  "wq_ok (new_iov h out) r = wq_ok h r" "wq_list (new_iov h out) r = wq_list h r"
  "wq_cap (new_iov h out) r = wq_cap h r" "wq_pd (new_iov h out) r = wq_pd h r"
  "get_wq (new_iov h out) r = get_wq h r" "h_wqe (new_iov h out) = h_wqe h"
  "h_pd (new_iov h out) = h_pd h" "h_mr (new_iov h out) = h_mr h"
  "h_umem (new_iov h out) = h_umem h" "h_cq (new_iov h out) = h_cq h"
  "h_cqe (new_iov h out) = h_cqe h" "h_qp (new_iov h out) = h_qp h"
  "h_srq (new_iov h out) = h_srq h" "h_thread (new_iov h out) = h_thread h"
  "h_next (new_iov h out) = Suc (h_next h)" "h_iov (new_iov h out) = (h_iov h)(h_next h \<mapsto> out)"
  by (simp_all add: new_iov_def heap_simps)

lemma post_one_request:
  assumes ok: "wq_ok h r" and room: "length (wq_list h r) < wq_cap h r"
    and w: "get_wq h r = Inr w" "h_wqe h (circ_buf_mem (wq_wqe_circ w)) = Some slots"
    and req: "request_in_user_mrs h (wq_pd h r) wr" "request_count h (wq_pd h r) wr \<le> 1024"
    and env: "iov_sized env"
  defines "n \<equiv> request_count h (wq_pd h r) wr" and "i \<equiv> unat (circ_head (wq_wqe_circ w))"
    and "mem \<equiv> circ_buf_mem (wq_wqe_circ w)"
  shows "post_one opc env h r wr =
    (if n \<le> DIS_SGE_PER_WQE then
       Inr (0, publish (store_wqe h mem slots i (static_entry opc h r w wr (slots ! i))) r w
         (int_to_ulong (circ_head (wq_wqe_circ w))))
     else if \<not> k_alloc env h (AllocIov (of_nat n)) then
       Inr (-42, store_wqe h mem slots i
         ((begun_entry opc h r w wr (slots ! i))\<lparr>wqe_page_map_dynamic := NULL\<rparr>))
     else Inr (0, publish (store_wqe
         (new_iov h (overlay (request_chunks h (wq_pd h r) wr) (k_kmalloc_iov env h (of_nat n))))
         mem slots i (dynamic_entry opc h r w wr (slots ! i))) r w
         (int_to_ulong (circ_head (wq_wqe_circ w)))))"
  using post_prepare_request [OF ok room w req env, of opc] w(1)
  by (simp add: post_one_def post_publish_def heap_simps n_def i_def mem_def)

text \<open>Posting changes the queue and at most adds a page map.\<close>

definition post_frame :: "heap \<Rightarrow> heap \<Rightarrow> bool" where
  "post_frame h h' \<longleftrightarrow> h_pd h' = h_pd h \<and> h_mr h' = h_mr h \<and> h_umem h' = h_umem h \<and> h_cq h' = h_cq h
     \<and> h_cqe h' = h_cqe h \<and> h_thread h' = h_thread h
     \<and> (h_next h' = h_next h \<and> h_iov h' = h_iov h
        \<or> h_next h' = Suc (h_next h) \<and> (\<exists>out. h_iov h' = (h_iov h)(h_next h \<mapsto> out)))"

definition gathered :: "heap \<Rightarrow> heap \<Rightarrow> ptr \<Rightarrow> ib_wr \<Rightarrow> u8 \<Rightarrow> dis_wqe \<Rightarrow> bool" where
  \<comment> \<open>the entry \<open>e\<close>, in the store \<open>h'\<close>, carries out the request posted in \<open>h\<close>\<close>
  "gathered h h' pdp wr opc e \<longleftrightarrow>
     wqe_opcode e = opc \<and> wqe_wr_id e = ucast (wr_wr_id wr) \<and> wqe_byte_len e = request_length wr
     \<and> unat (msg_iovlen (wqe_sci_msg e)) = request_count h pdp wr
     \<and> length (entry_iovs h' e) = request_count h pdp wr
     \<and> (let used = length (request_chunks h pdp wr) in
        take used (entry_iovs h' e) = request_chunks h pdp wr
        \<and> iov_bytes (take used (entry_iovs h' e)) = request_bytes h pdp wr)"

lemma request_chunks_bytes: "iov_bytes (request_chunks h pdp wr) = request_bytes h pdp wr"
  by (simp add: request_chunks_def request_bytes_def iov_bytes_concat span_chunks_bytes comp_def)

lemma gathered_entry:
  assumes "request_in_user_mrs h (wq_pd h r) wr" "request_count h (wq_pd h r) wr \<le> 1024"
    and "length (wqe_page_map_static slot) = DIS_SGE_PER_WQE"
  shows "request_count h (wq_pd h r) wr \<le> DIS_SGE_PER_WQE \<Longrightarrow>
      gathered h h' (wq_pd h r) wr opc (static_entry opc h r w wr slot)"
    "h_iov h' (h_next h) = Some (overlay (request_chunks h (wq_pd h r) wr) out) \<Longrightarrow>
      length out = request_count h (wq_pd h r) wr \<Longrightarrow>
      gathered h h' (wq_pd h r) wr opc (dynamic_entry opc h r w wr slot)"
proof -
  let ?n = "request_count h (wq_pd h r) wr"
  have un: "unat (of_nat ?n :: u64) = ?n" using assms(2) by (simp add: unat_of_nat)
  have le: "length (request_chunks h (wq_pd h r) wr) \<le> ?n"
    using request_chunks_count [OF assms(1)] by simp
  show "?n \<le> DIS_SGE_PER_WQE \<Longrightarrow>
      gathered h h' (wq_pd h r) wr opc (static_entry opc h r w wr slot)"
    "h_iov h' (h_next h) = Some (overlay (request_chunks h (wq_pd h r) wr) out) \<Longrightarrow> length out = ?n \<Longrightarrow>
      gathered h h' (wq_pd h r) wr opc (dynamic_entry opc h r w wr slot)"
  using assms(3) un le
  by (simp_all add: gathered_def static_entry_def dynamic_entry_def begun_entry_def entry_iovs_def
      overlay_def request_chunks_bytes Let_def)
qed

lemma post_one_room:
  assumes ok: "wq_ok h r" and room: "length (wq_list h r) < wq_cap h r"
    and req: "request_in_user_mrs h (wq_pd h r) wr" "request_count h (wq_pd h r) wr \<le> 1024"
    and env: "iov_sized env" "request_count h (wq_pd h r) wr \<le> DIS_SGE_PER_WQE
      \<or> k_alloc env h (AllocIov (of_nat (request_count h (wq_pd h r) wr)))"
  shows "\<exists>h' e. post_one opc env h r wr = Inr (0, h') \<and> wq_ok h' r
    \<and> wq_list h' r = wq_list h r @ [e] \<and> wq_cap h' r = wq_cap h r \<and> wq_pd h' r = wq_pd h r
    \<and> gathered h h' (wq_pd h r) wr opc e \<and> post_frame h h'
    \<and> (DIS_SGE_PER_WQE < request_count h (wq_pd h r) wr \<longrightarrow>
        entry_iovs h' e = overlay (request_chunks h (wq_pd h r) wr)
          (k_kmalloc_iov env h (of_nat (request_count h (wq_pd h r) wr))))"
  using ok
proof (cases rule: wq_okE)
  case (1 w qp pd slots)
  let ?mem = "circ_buf_mem (wq_wqe_circ w)" and ?n = "request_count h (wq_pd h r) wr"
    and ?c = "int_to_ulong (circ_head (wq_wqe_circ w))" and ?i = "unat (circ_head (wq_wqe_circ w))"
  let ?slot = "slots ! ?i" and ?out = "k_kmalloc_iov env h (of_nat ?n)"
  have st: "length (wqe_page_map_static ?slot) = DIS_SGE_PER_WQE"
    using circ_ok_bounds [OF 1(8)] 1(9) by simp
  note eval = post_one_request [OF ok room 1(1,7) req env(1), of opc]
  note gath = gathered_entry [OF req st]
  have le: "length (request_chunks h (wq_pd h r) wr) \<le> ?n"
    using request_chunks_count [OF req(1)] by simp
  show ?thesis
  proof (cases "?n \<le> DIS_SGE_PER_WQE")
    case True
    let ?e = "static_entry opc h r w wr ?slot"
    let ?h = "publish (store_wqe h ?mem slots ?i ?e) r w ?c"
    have "length (wqe_page_map_static ?e) = DIS_SGE_PER_WQE"
      using True le st by (simp add: static_entry_def overlay_length Let_def)
    from publish_wqe [OF ok 1(1,7) room this] eval True gath(1) [OF True, of ?h opc w]
    show ?thesis by (auto simp: post_frame_def heap_simps)
  next
    case False
    let ?e = "dynamic_entry opc h r w wr ?slot"
      and ?h1 = "new_iov h (overlay (request_chunks h (wq_pd h r) wr) ?out)"
    let ?h = "publish (store_wqe ?h1 ?mem slots ?i ?e) r w ?c"
    have "length (wqe_page_map_static ?e) = DIS_SGE_PER_WQE"
      using st by (simp add: dynamic_entry_def begun_entry_def Let_def)
    from publish_wqe [of ?h1 r w slots ?e, unfolded heap_simps, OF ok 1(1,7) room this]
    have p: "wq_ok ?h r" "wq_list ?h r = wq_list h r @ [?e]" "wq_cap ?h r = wq_cap h r"
      "wq_pd ?h r = wq_pd h r" .
    have "length ?out = ?n" using env(1) req(2) by (simp add: iov_sized_def unat_of_nat)
    then have "entry_iovs ?h ?e = overlay (request_chunks h (wq_pd h r) wr) ?out"
      using le req(2) by (simp add: entry_iovs_def dynamic_entry_def begun_entry_def Let_def heap_simps
          unat_of_nat overlay_length)
    with \<open>length ?out = ?n\<close> gath(2) [of ?h ?out opc w] p eval False env(2) show ?thesis
      by (auto simp: post_frame_def heap_simps)
  qed
qed

section \<open>The bytes of a request\<close>

lemma length_span_bytes:
  "user_span h pdp s = Some x \<Longrightarrow> length (span_bytes h pdp s) = unat (sge_length s)"
  by (cases x) (simp add: span_bytes_def)

lemma span_bytes_count:
  assumes "user_span h pdp s = Some x"
  shows "unat (sge_length s) \<le> 4096 * span_count h pdp s"
proof -
  obtain pages off where x: "x = (pages, off)" by (cases x)
  let ?n = "unat (sge_length s) + off mod 4096"
  have "?n < 4096 * (?n div 4096 + 1)"
    using dividend_less_times_div [of 4096 ?n] by simp
  then show ?thesis using assms x by (simp add: span_count_def)
qed

lemma unat_sum_list_u32:
  "sum_list (map unat ws) < 2 ^ 32 \<Longrightarrow> unat (sum_list ws :: u32) = sum_list (map unat ws)"
proof (induction ws)
  case (Cons w ws)
  then have "unat (sum_list ws) = sum_list (map unat ws)" by simp
  with Cons.prems show ?case by (simp add: unat_word_ariths)
qed simp

lemma request_bytes_length:
  assumes "request_in_user_mrs h pdp wr" "request_count h pdp wr \<le> 1024"
  shows "length (request_bytes h pdp wr) = unat (request_length wr)"
proof -
  have user: "\<forall>s \<in> set (request_sges wr). user_span h pdp s \<noteq> None"
    using assms(1) by (simp add: request_in_user_mrs_def)
  let ?l = "sum_list (map (\<lambda>s. unat (sge_length s)) (request_sges wr))"
  have "?l \<le> sum_list (map (\<lambda>s. 4096 * span_count h pdp s) (request_sges wr))"
    using user span_bytes_count by (intro sum_list_mono) auto
  also have "\<dots> = 4096 * request_count h pdp wr"
    by (simp add: request_count_def sum_list_const_mult)
  finally have "?l < 2 ^ 32" using assms(2) by simp
  then have "unat (request_length wr) = ?l"
    using unat_sum_list_u32 [of "map sge_length (request_sges wr)"] by (simp add: request_length_def comp_def)
  moreover have "map (\<lambda>s. length (span_bytes h pdp s)) (request_sges wr) = map (\<lambda>s. unat (sge_length s)) (request_sges wr)"
    using user length_span_bytes by auto
  ultimately show ?thesis by (simp only: request_bytes_def length_concat map_map comp_def)
qed

text \<open>The bytes the library moves for an entry: its byte count of them, from the segments it names.\<close>

definition entry_bytes :: "heap \<Rightarrow> dis_wqe \<Rightarrow> u64 list" where
  "entry_bytes h e = take (unat (wqe_byte_len e)) (iov_bytes (entry_iovs h e))"

lemma gathered_bytes:
  assumes "gathered h h' pdp wr opc e" "request_in_user_mrs h pdp wr" "request_count h pdp wr \<le> 1024"
  shows "entry_bytes h' e = request_bytes h pdp wr"
proof -
  let ?k = "length (request_chunks h pdp wr)"
  have "iov_bytes (entry_iovs h' e) = iov_bytes (take ?k (entry_iovs h' e)) @ iov_bytes (drop ?k (entry_iovs h' e))"
    by (simp flip: iov_bytes_append)
  with assms request_bytes_length [OF assms(2,3)] show ?thesis
    by (simp add: entry_bytes_def gathered_def Let_def request_chunks_bytes)
qed

text \<open>Without surplus segments the entry names exactly the request's.\<close>

lemma gathered_exact:
  assumes "gathered h h' pdp wr opc e" "request_in_user_mrs h pdp wr"
  shows "unat (msg_iovlen (wqe_sci_msg e)) = length (request_chunks h pdp wr) + page_slack h pdp wr"
    "page_slack h pdp wr = 0 \<Longrightarrow> entry_iovs h' e = request_chunks h pdp wr"
proof -
  show "unat (msg_iovlen (wqe_sci_msg e)) = length (request_chunks h pdp wr) + page_slack h pdp wr"
    using assms(1) request_chunks_count [OF assms(2)] by (simp add: gathered_def)
  assume "page_slack h pdp wr = 0"
  with assms(1) request_chunks_count [OF assms(2)]
  have "length (entry_iovs h' e) = length (request_chunks h pdp wr)"
    "take (length (request_chunks h pdp wr)) (entry_iovs h' e) = request_chunks h pdp wr"
    by (simp_all add: gathered_def Let_def)
  then show "entry_iovs h' e = request_chunks h pdp wr" by (metis take_all order_refl)
qed


section \<open>Requests that are turned down\<close>

text \<open>A slot that is written but not published does not change what the queue holds.\<close>

lemma store_free_slot:
  assumes "wq_ok h r" "get_wq h r = Inr w" "h_wqe h (circ_buf_mem (wq_wqe_circ w)) = Some slots"
    "length (wqe_page_map_static e) = DIS_SGE_PER_WQE"
  defines "h' \<equiv> store_wqe h (circ_buf_mem (wq_wqe_circ w)) slots (unat (circ_head (wq_wqe_circ w))) e"
  shows "wq_ok h' r" "wq_list h' r = wq_list h r"
proof -
  let ?i = "unat (circ_head (wq_wqe_circ w))"
  from assms(1) obtain qp pd where 1: "h_qp h (wq_ibqp w) = Some qp" "wq_ibqp w \<noteq> 0"
    "h_pd h (qp_ibqp_pd qp) = Some pd" "qp_ibqp_pd qp \<noteq> 0" "circ_buf_mem (wq_wqe_circ w) \<noteq> 0"
    "circ_ok (wq_wqe_circ w) (wq_wqe_max w) slots"
    "\<forall>e \<in> set slots. length (wqe_page_map_static e) = DIS_SGE_PER_WQE"
    using assms(2,3) by (auto elim!: wq_okE)
  note b = circ_ok_bounds [OF 1(6)]
  have "\<forall>x \<in> set (slots[?i := e]). length (wqe_page_map_static x) = DIS_SGE_PER_WQE"
    using 1(7) assms(4) by (auto dest: set_update_subset_insert [THEN subsetD])
  moreover have "circ_ok (wq_wqe_circ w) (wq_wqe_max w) (slots[?i := e])"
    using 1(6) by (simp add: circ_ok_def)
  ultimately show "wq_ok h' r"
    using 1 assms(2) by (simp add: wq_ok_def h'_def heap_simps deref_Some) (simp add: store_wqe_def deref_Some)
  have "h_wqe h' (circ_buf_mem (wq_wqe_circ w)) = Some (slots[?i := e])"
    by (simp add: h'_def store_wqe_def)
  then show "wq_list h' r = wq_list h r"
    using b assms(2,3) by (simp add: wq_list_def h'_def heap_simps circ_list_def ring_list_upd_free)
qed

lemma map_sges_static:
  "map_sges h pdp junk sgl n i wqe maps = Inr (found, wqe', maps') \<Longrightarrow>
    length (wqe_page_map_static wqe') = length (wqe_page_map_static wqe)"
  by (induction n arbitrary: i wqe maps)
     (auto simp: rbind_eq_Inr array_put_def Let_def split: if_splits)

definition unregistered :: "heap \<Rightarrow> ptr \<Rightarrow> ib_sge \<Rightarrow> bool" where
  \<comment> \<open>the key is in range but its slot was never filled\<close>
  "unregistered h pdp s = (case h_pd h pdp of None \<Rightarrow> False | Some pd \<Rightarrow>
     unat (sge_lkey s) < length (pd_mr_list pd) \<and> pd_mr_list pd ! unat (sge_lkey s) = NULL)"

definition key_outside :: "heap \<Rightarrow> ptr \<Rightarrow> ib_sge \<Rightarrow> bool" where
  "key_outside h pdp s = (case h_pd h pdp of None \<Rightarrow> False | Some pd \<Rightarrow>
     length (pd_mr_list pd) \<le> unat (sge_lkey s))"

lemma map_sges_add:
  assumes "pdp \<noteq> 0" "\<forall>s \<in> set (take n (drop i sgl)). user_span h pdp s \<noteq> None" "i + n \<le> length sgl"
  shows "\<exists>wqe' maps'. map_sges h pdp junk sgl (n + k) i wqe maps =
    map_sges h pdp junk sgl k (i + n) wqe' maps'
    \<and> wqe_page_map_static wqe' = wqe_page_map_static wqe"
  using assms(2,3)
proof (induction n arbitrary: i wqe maps)
  case 0
  then show ?case by auto
next
  case (Suc n)
  define s where "s = sgl ! i"
  have i: "i < length sgl" "take (Suc n) (drop i sgl) = s # take n (drop (Suc i) sgl)"
    using Suc.prems by (simp_all add: s_def take_Suc_conv_app_nth Cons_nth_drop_Suc [symmetric])
  then obtain pages off where u: "user_span h pdp s = Some (pages, off)"
    using Suc.prems(1) by (force simp: s_def)
  from u show ?case
  proof (rule user_spanE)
    fix pd mrp mr
    assume r: "h_pd h pdp = Some pd" "unat (sge_lkey s) < length (pd_mr_list pd)"
      "mrp = pd_mr_list pd ! unat (sge_lkey s)" "mrp \<noteq> 0" "h_mr h mrp = Some mr" "mr_is_dma mr = 0"
    let ?e = "map_user_sge mr s junk"
    let ?w = "wqe\<lparr>wqe_sci_msg := (wqe_sci_msg wqe)\<lparr>msg_iovlen :=
        msg_iovlen (wqe_sci_msg wqe) + sge_page_count ?e\<rparr>\<rparr>"
    have "map_sges h pdp junk sgl (Suc n + k) i wqe maps
        = map_sges h pdp junk sgl (n + k) (Suc i) ?w (maps @ [?e])"
      using r i assms(1) by (simp add: kres_simps Let_def flip: s_def)
    moreover have "\<forall>s \<in> set (take n (drop (Suc i) sgl)). user_span h pdp s \<noteq> None"
      "Suc i + n \<le> length sgl"
      using Suc.prems i by auto
    ultimately show ?thesis
      using Suc.IH [of "Suc i" ?w "maps @ [?e]"] by auto
  qed
qed

text \<open>Some key of the request names no region, or lies outside the table.\<close>

definition first_bad_key :: "(heap \<Rightarrow> ptr \<Rightarrow> ib_sge \<Rightarrow> bool) \<Rightarrow> heap \<Rightarrow> ptr \<Rightarrow> ib_wr \<Rightarrow> bool" where
  "first_bad_key bad h pdp wr \<longleftrightarrow> (\<exists>j < length (request_sges wr). bad h pdp (request_sges wr ! j)
     \<and> (\<forall>i < j. user_span h pdp (request_sges wr ! i) \<noteq> None))"

lemma first_bad_key_reached:
  assumes "first_bad_key bad h pdp wr" "pdp \<noteq> 0"
  shows "\<exists>j k wqe' maps'. j < length (wr_sg_list wr) \<and> bad h pdp (wr_sg_list wr ! j)
    \<and> map_sges h pdp junk (wr_sg_list wr) (sge_limit wr) 0 wqe [] =
      map_sges h pdp junk (wr_sg_list wr) (Suc k) j wqe' maps'"
proof -
  from assms(1) obtain j where j: "j < length (request_sges wr)" "bad h pdp (request_sges wr ! j)"
    "\<forall>i < j. user_span h pdp (request_sges wr ! i) \<noteq> None" by (auto simp: first_bad_key_def)
  then have l: "j < sge_limit wr" "j < length (wr_sg_list wr)" "request_sges wr ! j = wr_sg_list wr ! j"
    by (simp_all add: request_sges_def)
  have "\<forall>s \<in> set (take j (drop 0 (wr_sg_list wr))). user_span h pdp s \<noteq> None"
    using j(3) l by (auto simp: in_set_conv_nth request_sges_def)
  moreover define k where "k = sge_limit wr - j - 1"
  moreover have "sge_limit wr = j + Suc k" using l(1) by (simp add: k_def)
  ultimately obtain wqe' maps' where
    "map_sges h pdp junk (wr_sg_list wr) (sge_limit wr) 0 wqe [] =
      map_sges h pdp junk (wr_sg_list wr) (Suc k) j wqe' maps'"
    using map_sges_add [OF assms(2), where n = j and i = 0 and k = "Suc k"] l(2)
    by (metis add_0 less_imp_le_nat)
  with l j(2) show ?thesis by auto
qed

lemma map_sges_unregistered:
  assumes "first_bad_key unregistered h pdp wr" "pdp \<noteq> 0"
  shows "\<exists>wqe' maps'. map_sges h pdp junk (wr_sg_list wr) (sge_limit wr) 0 wqe [] =
    Inr (False, wqe', maps')"
proof -
  from first_bad_key_reached [OF assms, of junk wqe] obtain j k wqe' maps' where
    "j < length (wr_sg_list wr)" "unregistered h pdp (wr_sg_list wr ! j)"
    "map_sges h pdp junk (wr_sg_list wr) (sge_limit wr) 0 wqe [] =
      map_sges h pdp junk (wr_sg_list wr) (Suc k) j wqe' maps'" by blast
  then show ?thesis
    using assms(2) by (auto simp: unregistered_def kres_simps split: option.splits)
qed

lemma map_sges_outside:
  assumes "first_bad_key key_outside h pdp wr" "pdp \<noteq> 0"
  shows "map_sges h pdp junk (wr_sg_list wr) (sge_limit wr) 0 wqe [] = Inl OutOfBounds"
proof -
  from first_bad_key_reached [OF assms, of junk wqe] obtain j k wqe' maps' where
    "j < length (wr_sg_list wr)" "key_outside h pdp (wr_sg_list wr ! j)"
    "map_sges h pdp junk (wr_sg_list wr) (sge_limit wr) 0 wqe [] =
      map_sges h pdp junk (wr_sg_list wr) (Suc k) j wqe' maps'" by blast
  then show ?thesis
    using assms(2) by (auto simp: key_outside_def kres_simps split: option.splits)
qed

text \<open>The checks of the posting routine up to the first loop.\<close>

lemma post_one_upto_map:
  assumes "wq_ok h r" "length (wq_list h r) < wq_cap h r"
  obtains w slots wqe where "get_wq h r = Inr w"
    "h_wqe h (circ_buf_mem (wq_wqe_circ w)) = Some slots" "wq_pd h r \<noteq> 0"
    "length (wqe_page_map_static wqe) = DIS_SGE_PER_WQE" "msg_iovlen (wqe_sci_msg wqe) = 0"
    "\<And>e. map_sges h (wq_pd h r) (k_stack_sge env h) (wr_sg_list wr) (sge_limit wr) 0 wqe [] = Inl e
       \<Longrightarrow> post_one opc env h r wr = Inl e"
    "\<And>found wqe' maps'. map_sges h (wq_pd h r) (k_stack_sge env h) (wr_sg_list wr) (sge_limit wr) 0 wqe []
        = Inr (found, wqe', maps') \<Longrightarrow> \<not> found \<or> msg_iovlen (wqe_sci_msg wqe') > DIS_MAX_IOVLEN
       \<Longrightarrow> post_one opc env h r wr = Inr (-42, store_wqe h (circ_buf_mem (wq_wqe_circ w)) slots
          (unat (circ_head (wq_wqe_circ w))) wqe')"
  using assms(1)
proof (cases rule: wq_okE)
  case (1 w qp pd slots)
  note b = circ_ok_bounds [OF 1(8)]
  let ?slot = "slots ! unat (circ_head (wq_wqe_circ w))"
  let ?wqe = "?slot\<lparr>wqe_opcode := opc, wqe_sci_msq := Some r, wqe_byte_len := 0,
           wqe_ibqp := wq_ibqp w, wqe_wr_id := ucast (wr_wr_id wr),
           wqe_sci_msg := (wqe_sci_msg ?slot)\<lparr>msg_iovlen := 0\<rparr>\<rparr>"
  have space: "\<not> CIRC_SPACE (int_to_ulong (circ_head (wq_wqe_circ w)))
      (int_to_ulong (circ_tail (wq_wqe_circ w))) (wq_wqe_max w) < 1"
    using assms(2) 1 circ_full_iff [OF 1(8)] by (simp add: wq_list_def wq_cap_def)
  have pdp: "wq_pd h r = qp_ibqp_pd qp" using 1 by (simp add: wq_pd_def)
  have "length (wqe_page_map_static ?slot) = DIS_SGE_PER_WQE" using b 1(9) by simp
  then show ?thesis
    using 1 b space by (intro that [of w slots ?wqe]) (auto simp: post_halves kres_simps pdp)
qed

lemma request_count_less:
  assumes "request_in_user_mrs h pdp wr" shows "request_count h pdp wr < 2 ^ 64"
proof -
  have "sum_list (map (span_count h pdp) ss) \<le> length ss * 2 ^ 21"
    if "\<forall>s \<in> set ss. user_span h pdp s \<noteq> None" for ss
    using that
  proof (induction ss)
    case (Cons s ss)
    then have "span_count h pdp s < 2 ^ 21" by (auto dest: span_count_less)
    with Cons show ?case by simp
  qed simp
  from this [of "request_sges wr"] have "request_count h pdp wr \<le> length (request_sges wr) * 2 ^ 21"
    using assms by (simp add: request_in_user_mrs_def request_count_def)
  also have "\<dots> \<le> 4 * 2 ^ 21"
    by (intro mult_right_mono) (auto simp: request_sges_def sge_limit_def DIS_SGE_PER_WQE_def)
  finally show ?thesis by simp
qed

lemma map_sges_rejects:
  assumes "pdp \<noteq> 0" "msg_iovlen (wqe_sci_msg wqe) = 0"
    "first_bad_key unregistered h pdp wr \<or> request_in_user_mrs h pdp wr \<and> 1024 < request_count h pdp wr"
  shows "\<exists>found wqe' maps'. map_sges h pdp junk (wr_sg_list wr) (sge_limit wr) 0 wqe []
      = Inr (found, wqe', maps') \<and> (\<not> found \<or> msg_iovlen (wqe_sci_msg wqe') > DIS_MAX_IOVLEN)"
  using assms(3)
proof
  assume "first_bad_key unregistered h pdp wr"
  with map_sges_unregistered [OF this assms(1), of junk wqe] show ?thesis by auto
next
  assume r: "request_in_user_mrs h pdp wr \<and> 1024 < request_count h pdp wr"
  then have "unat (of_nat (request_count h pdp wr) :: u64) = request_count h pdp wr"
    using request_count_less [of h pdp wr] by (simp add: unat_of_nat)
  then have "DIS_MAX_IOVLEN < of_nat (request_count h pdp wr)"
    using r by (simp add: word_less_nat_alt DIS_MAX_IOVLEN_def)
  with r show ?thesis
    using assms(1,2) by (simp add: map_sges_user request_in_user_mrs_def request_sges_def
        request_count_def Let_def exI [of _ True])
qed

lemma post_one_rejects:
  assumes "wq_ok h r"
    "length (wq_list h r) = wq_cap h r \<or> first_bad_key unregistered h (wq_pd h r) wr
     \<or> request_in_user_mrs h (wq_pd h r) wr \<and> 1024 < request_count h (wq_pd h r) wr"
  shows "\<exists>h'. post_one opc env h r wr = Inr (-42, h') \<and> wq_ok h' r \<and> wq_list h' r = wq_list h r
     \<and> post_frame h h' \<and> h_next h' = h_next h"
proof (cases "length (wq_list h r) = wq_cap h r")
  case True
  with assms(1) post_one_full [OF assms(1) True, of opc env wr] show ?thesis
    by (auto simp: post_frame_def)
next
  case False
  then have room: "length (wq_list h r) < wq_cap h r" using wq_list_bound [OF assms(1)] by simp
  from assms(1) room show ?thesis
  proof (cases rule: post_one_upto_map [where env = env and wr = wr and opc = opc])
    case (1 w slots wqe)
    from assms(2) False have "first_bad_key unregistered h (wq_pd h r) wr
        \<or> request_in_user_mrs h (wq_pd h r) wr \<and> 1024 < request_count h (wq_pd h r) wr" by simp
    from map_sges_rejects [OF 1(3,5) this, of "k_stack_sge env h"]
    obtain found wqe' maps' where m: "map_sges h (wq_pd h r) (k_stack_sge env h) (wr_sg_list wr) (sge_limit wr) 0 wqe []
        = Inr (found, wqe', maps')" "\<not> found \<or> msg_iovlen (wqe_sci_msg wqe') > DIS_MAX_IOVLEN" by blast
    have "length (wqe_page_map_static wqe') = DIS_SGE_PER_WQE"
      using map_sges_static [OF m(1)] 1(4) by simp
    from store_free_slot [OF assms(1) 1(1,2) this] 1(7) [OF m] show ?thesis
      by (auto simp: post_frame_def heap_simps)
  qed
qed

section \<open>Taking from the queue\<close>

text \<open>
  What the worker does with the indices in \<open>dis_wq_consume_all\<close>: it looks for an entry at the
  tail, and gives the slot back after the entry was carried out.
\<close>

definition wq_front :: "heap \<Rightarrow> wq_ref \<Rightarrow> wqe_ptr option kres" where
  "wq_front h r = rbind (get_wq h r) (\<lambda>w.
     let hd = int_to_ulong (circ_head (wq_wqe_circ w));
         tl = int_to_ulong (circ_tail (wq_wqe_circ w)) in
     if CIRC_CNT hd tl (wq_wqe_max w) < 1 then Inr None
     else Inr (Some (circ_buf_mem (wq_wqe_circ w), unat tl)))"

definition wq_advance :: "heap \<Rightarrow> wq_ref \<Rightarrow> heap kres" where
  "wq_advance h r = rbind (get_wq h r) (\<lambda>w.
     Inr (set_wq h r (w\<lparr>wq_wqe_circ := (wq_wqe_circ w)\<lparr>circ_tail :=
       circ_next (int_to_ulong (circ_tail (wq_wqe_circ w))) (wq_wqe_max w)\<rparr>\<rparr>)))"

lemma wq_front_empty: "wq_ok h r \<Longrightarrow> wq_list h r = [] \<Longrightarrow> wq_front h r = Inr None"
  by (erule wq_okE) (frule circ_empty_iff, simp add: wq_front_def kres_simps wq_list_def)

lemma wq_front_some:
  assumes "wq_ok h r" "wq_list h r = e # es"
  shows "\<exists>mem i slots. wq_front h r = Inr (Some (mem, i)) \<and> get_wqe h (mem, i) = Inr e
    \<and> mem \<noteq> NULL \<and> h_wqe h mem = Some slots \<and> i < length slots \<and> slots ! i = e"
  using assms(1)
proof (cases rule: wq_okE)
  case (1 w qp pd slots)
  note b = circ_ok_bounds [OF 1(8)]
  have ne: "circ_list (wq_wqe_circ w) (wq_wqe_max w) slots = e # es"
    using assms(2) 1 by (simp add: wq_list_def)
  then have "slots ! unat (circ_tail (wq_wqe_circ w)) = e"
    using circ_get(2) [OF 1(8)] by simp
  with 1 b ne circ_empty_iff [OF 1(8)] show ?thesis
    by (simp add: wq_front_def kres_simps)
qed

lemma wq_advance_ok:
  assumes "wq_ok h r" "wq_list h r = e # es"
  shows "\<exists>h' w'. wq_advance h r = Inr h' \<and> h' = set_wq h r w' \<and> wq_ok h' r \<and> wq_list h' r = es
    \<and> wq_cap h' r = wq_cap h r \<and> wq_pd h' r = wq_pd h r"
  using assms(1)
proof (cases rule: wq_okE)
  case (1 w qp pd slots)
  let ?w = "w\<lparr>wq_wqe_circ := (wq_wqe_circ w)\<lparr>circ_tail :=
       circ_next (int_to_ulong (circ_tail (wq_wqe_circ w))) (wq_wqe_max w)\<rparr>\<rparr>"
  let ?h = "set_wq h r ?w"
  have ne: "circ_list (wq_wqe_circ w) (wq_wqe_max w) slots = e # es"
    using assms(2) 1 by (simp add: wq_list_def)
  note get = circ_get [OF 1(8)]
  obtain qp' where q: "h_qp ?h (wq_ibqp w) = Some qp'" "qp_ibqp_pd qp' = qp_ibqp_pd qp"
    using set_wq_qp_pd [OF 1(3)] by blast
  have g: "get_wq ?h r = Inr ?w" using 1(1) by (rule get_wq_set_wq)
  have "wq_ok ?h r \<and> wq_list ?h r = es \<and> wq_cap ?h r = wq_cap h r \<and> wq_pd ?h r = wq_pd h r"
    using 1 g q get ne by (simp add: wq_ok_def wq_list_def wq_cap_def wq_pd_def deref_Some heap_simps)
  then show ?thesis using 1(1) by (auto simp: wq_advance_def)
qed

section \<open>The work queue as a bounded queue\<close>

definition wqe_view :: "dis_wqe \<Rightarrow> u8 \<times> u32 \<times> u32" where
  "wqe_view e = (wqe_opcode e, wqe_wr_id e, wqe_byte_len e)"

definition request_view :: "u8 \<Rightarrow> ib_wr \<Rightarrow> u8 \<times> u32 \<times> u32" where
  "request_view opc wr = (opc, ucast (wr_wr_id wr), request_length wr)"

definition wq_take :: "wq_ref \<Rightarrow> heap \<Rightarrow> ((u8 \<times> u32 \<times> u32) option \<times> heap) kres" where
  "wq_take r h = rbind (wq_front h r) (\<lambda>x. case x of None \<Rightarrow> Inr (None, h)
     | Some p \<Rightarrow> rbind (get_wqe h p) (\<lambda>e. rbind (wq_advance h r) (\<lambda>h'. Inr (Some (wqe_view e), h'))))"

definition wq_live :: "wq_ref \<Rightarrow> heap \<Rightarrow> bool" where
  "wq_live r h \<longleftrightarrow> wq_ok h r \<and> fresh_in (h_iov h) (h_next h) \<and> 0 < h_next h"

definition postable :: "kenv \<Rightarrow> wq_ref \<Rightarrow> heap \<Rightarrow> ib_wr \<Rightarrow> bool" where
  "postable env r h wr \<longleftrightarrow> request_in_user_mrs h (wq_pd h r) wr \<and> request_count h (wq_pd h r) wr \<le> 1024
     \<and> iov_sized env \<and> (request_count h (wq_pd h r) wr \<le> DIS_SGE_PER_WQE
        \<or> (\<forall>h'. k_alloc env h' (AllocIov (of_nat (request_count h (wq_pd h r) wr)))))"

lemma user_span_mono:
  assumes "h_pd h' = h_pd h" "h_mr h' = h_mr h" "h_iov h \<subseteq>\<^sub>m h_iov h'" "user_span h pdp s = Some x"
  shows "user_span h' pdp s = Some x"
proof (cases x)
  case (Pair pages off)
  with assms(4) have "user_span h pdp s = Some (pages, off)" by simp
  then show ?thesis
  proof (rule user_spanE)
    fix pd :: dis_pd and mrp and mr :: dis_mr
    assume "h_iov h (mr_pages mr) = Some pages"
    then have "h_iov h' (mr_pages mr) = Some pages"
      using assms(3) by (simp add: map_le_def dom_def)
    moreover assume "h_pd h pdp = Some pd" "unat (sge_lkey s) < length (pd_mr_list pd)"
      "mrp = pd_mr_list pd ! unat (sge_lkey s)" "mrp \<noteq> 0" "h_mr h mrp = Some mr" "mr_is_dma mr = 0"
      "mr_pages mr \<noteq> 0" "length pages \<le> 2 ^ 32"
      "off = unat (sge_addr s - mr_mr_va mr) + unat (mr_va_offset mr)"
      "off + unat (sge_length s) \<le> 4096 * length pages"
    ultimately show ?thesis
      using assms(1,2) Pair by (simp add: user_span_def Let_def)
  qed
qed

lemma request_mono:
  assumes "h_pd h' = h_pd h" "h_mr h' = h_mr h" "h_iov h \<subseteq>\<^sub>m h_iov h'" "request_in_user_mrs h pdp wr"
  shows "request_in_user_mrs h' pdp wr" "request_count h' pdp wr = request_count h pdp wr"
proof -
  have same: "user_span h' pdp s = user_span h pdp s" if "s \<in> set (request_sges wr)" for s
    using that assms(4) user_span_mono [OF assms(1-3)]
    by (auto simp: request_in_user_mrs_def)
  then show "request_in_user_mrs h' pdp wr"
    using assms(4) by (auto simp: request_in_user_mrs_def)
  show "request_count h' pdp wr = request_count h pdp wr"
    unfolding request_count_def by (intro arg_cong [of _ _ sum_list] map_cong refl)
      (simp add: span_count_def same)
qed

lemma request_bytes_mono:
  assumes "h_pd h' = h_pd h" "h_mr h' = h_mr h" "h_iov h \<subseteq>\<^sub>m h_iov h'" "request_in_user_mrs h pdp wr"
  shows "request_bytes h' pdp wr = request_bytes h pdp wr"
proof -
  have "user_span h' pdp s = user_span h pdp s" if "s \<in> set (request_sges wr)" for s
    using that assms(4) user_span_mono [OF assms(1-3)]
    by (auto simp: request_in_user_mrs_def)
  then have "map (span_bytes h' pdp) (request_sges wr) = map (span_bytes h pdp) (request_sges wr)"
    by (simp add: span_bytes_def)
  then show ?thesis by (simp only: request_bytes_def)
qed

lemma postable_mono:
  assumes "h_pd h' = h_pd h" "h_mr h' = h_mr h" "h_iov h \<subseteq>\<^sub>m h_iov h'" "wq_pd h' r = wq_pd h r"
    "postable env r h wr"
  shows "postable env r h' wr"
  using assms(5) request_mono [OF assms(1-3)] assms(4) by (simp add: postable_def)

lemma post_frame_iov:
  assumes "post_frame h h'" "fresh_in (h_iov h) (h_next h)" "0 < h_next h"
  shows "h_iov h \<subseteq>\<^sub>m h_iov h'" "fresh_in (h_iov h') (h_next h')" "0 < h_next h'"
  using assms by (auto simp: post_frame_def map_le_def fresh_in_def dom_def)

text \<open>Requests accepted by the queue are the requests the worker finds, in order.\<close>

lemma wq_bounded_queue:
  "bounded_queue (wq_live r) (\<lambda>h. map wqe_view (wq_list h r)) (\<lambda>h. wq_cap h r)
     (postable env r) (\<lambda>_. request_view opc) (\<lambda>h. post_one opc env h r) (wq_take r)"
proof (unfold_locales, goal_cases)
  case (1 s)
  then show ?case by (simp add: wq_live_def wq_list_bound)
next
  case (2 s wr)
  then have "wq_ok s r" "fresh_in (h_iov s) (h_next s)" "0 < h_next s" by (simp_all add: wq_live_def)
  moreover from 2 have "\<exists>h' e. post_one opc env s r wr = Inr (0, h') \<and> wq_ok h' r
    \<and> wq_list h' r = wq_list s r @ [e] \<and> wq_cap h' r = wq_cap s r \<and> wq_pd h' r = wq_pd s r
    \<and> gathered s h' (wq_pd s r) wr opc e \<and> post_frame s h'"
    using post_one_room [of s r wr env opc] by (fastforce simp: wq_live_def postable_def)
  then obtain h' e where p: "post_one opc env s r wr = Inr (0, h')" "wq_ok h' r"
    "wq_list h' r = wq_list s r @ [e]" "wq_cap h' r = wq_cap s r" "wq_pd h' r = wq_pd s r"
    "gathered s h' (wq_pd s r) wr opc e" "post_frame s h'" by blast
  ultimately have "h_iov s \<subseteq>\<^sub>m h_iov h'" "wq_live r h'"
    using post_frame_iov [OF p(7)] by (simp_all add: wq_live_def)
  moreover from this p have "postable env r h' wr'" if "postable env r s wr'" for wr'
    using that by (intro postable_mono [of h' s r env wr']) (auto simp: post_frame_def)
  ultimately show ?case
    using p by (auto simp: gathered_def wqe_view_def request_view_def)
next
  case (3 s wr)
  then show ?case by (simp add: wq_live_def post_one_full)
next
  case (4 s x xs)
  then obtain e es where l: "wq_list s r = e # es" "wqe_view e = x" "map wqe_view es = xs"
    by (auto simp: map_eq_Cons_conv)
  with 4 obtain h' w' where a: "wq_advance s r = Inr h'" "h' = set_wq s r w'" "wq_ok h' r"
    "wq_list h' r = es" "wq_cap h' r = wq_cap s r" "wq_pd h' r = wq_pd s r"
    using wq_advance_ok [of s r e es] by (auto simp: wq_live_def)
  then have "postable env r h' wr'" if "postable env r s wr'" for wr'
    using that by (intro postable_mono [of h' s r env wr']) (auto simp: heap_simps)
  moreover from 4 l obtain mem i where "wq_front s r = Inr (Some (mem, i))" "get_wqe s (mem, i) = Inr e"
    using wq_front_some [of s r e es] by (auto simp: wq_live_def)
  ultimately show ?case
    using a l 4 by (auto simp: wq_take_def wq_live_def heap_simps)
next
  case (5 s)
  then show ?case by (simp add: wq_take_def wq_front_empty wq_live_def)
qed

section \<open>Posting without a lock\<close>

text \<open>
  Preparing fills the slot at the head and leaves the queue as it was; publishing it then appends
  what the slot holds at that time.
\<close>

lemma prepare_room:
  assumes live: "wq_live r h" and room: "length (wq_list h r) < wq_cap h r" and req: "postable env r h wr"
    and w: "get_wq h r = Inr w"
  shows "\<exists>h' slots. post_prepare opc env h r wr = Inr (Inr (int_to_ulong (circ_head (wq_wqe_circ w))), h')
    \<and> wq_live r h' \<and> get_wq h' r = Inr w \<and> wq_list h' r = wq_list h r \<and> wq_pd h' r = wq_pd h r
    \<and> post_frame h h' \<and> h_wqe h' (circ_buf_mem (wq_wqe_circ w)) = Some slots
    \<and> gathered h h' (wq_pd h r) wr opc (slots ! unat (circ_head (wq_wqe_circ w)))"
proof -
  have ok: "wq_ok h r" and fresh: "fresh_in (h_iov h) (h_next h)" "0 < h_next h"
    using live by (simp_all add: wq_live_def)
  have r: "request_in_user_mrs h (wq_pd h r) wr" "request_count h (wq_pd h r) wr \<le> 1024" "iov_sized env"
    using req by (simp_all add: postable_def)
  from ok w obtain slots where s: "h_wqe h (circ_buf_mem (wq_wqe_circ w)) = Some slots"
    "circ_ok (wq_wqe_circ w) (wq_wqe_max w) slots"
    "\<forall>e \<in> set slots. length (wqe_page_map_static e) = DIS_SGE_PER_WQE" by (auto elim!: wq_okE)
  note b = circ_ok_bounds [OF s(2)]
  let ?i = "unat (circ_head (wq_wqe_circ w))" and ?mem = "circ_buf_mem (wq_wqe_circ w)"
    and ?n = "request_count h (wq_pd h r) wr"
  let ?slot = "slots ! ?i" and ?out = "overlay (request_chunks h (wq_pd h r) wr) (k_kmalloc_iov env h (of_nat ?n))"
  have st: "length (wqe_page_map_static ?slot) = DIS_SGE_PER_WQE" and i: "?i < length slots"
    using b s(3) by simp_all
  note gath = gathered_entry [OF r(1,2) st] and eval = post_prepare_request [OF ok room w s(1) r, of opc]
  show ?thesis
  proof (cases "?n \<le> DIS_SGE_PER_WQE")
    case True
    let ?e = "static_entry opc h r w wr ?slot"
    let ?h = "store_wqe h ?mem slots ?i ?e"
    have "length (wqe_page_map_static ?e) = DIS_SGE_PER_WQE"
      using True st request_chunks_count [OF r(1)] by (simp add: static_entry_def overlay_length Let_def)
    note q = store_free_slot [OF ok w s(1) this]
    have "h_wqe ?h ?mem = Some (slots[?i := ?e])" by (simp add: store_wqe_def)
    moreover have "wq_live r ?h" "wq_pd ?h r = wq_pd h r" "post_frame h ?h" "get_wq ?h r = Inr w"
      using q(1) fresh w by (simp_all add: wq_live_def wq_pd_def post_frame_def heap_simps)
    ultimately show ?thesis
      using eval True q(2) gath(1) [OF True, of ?h opc w] i
      by (intro exI [of _ ?h] exI [of _ "slots[?i := ?e]"]) simp
  next
    case False
    let ?e = "dynamic_entry opc h r w wr ?slot" and ?h1 = "new_iov h ?out"
    let ?h = "store_wqe ?h1 ?mem slots ?i ?e"
    have "length (wqe_page_map_static ?e) = DIS_SGE_PER_WQE"
      using st by (simp add: dynamic_entry_def begun_entry_def Let_def)
    note q = store_free_slot [of ?h1 r w slots ?e, unfolded heap_simps, OF ok w s(1) this]
    have "h_wqe ?h ?mem = Some (slots[?i := ?e])" by (simp add: store_wqe_def)
    moreover have "wq_live r ?h" "wq_pd ?h r = wq_pd h r" "post_frame h ?h" "get_wq ?h r = Inr w"
      using q(1) fresh w by (auto simp: wq_live_def wq_pd_def post_frame_def heap_simps)
    moreover have "length (k_kmalloc_iov env h (of_nat ?n)) = ?n"
      using r by (simp add: iov_sized_def unat_of_nat)
    then have "gathered h ?h (wq_pd h r) wr opc ?e" by (intro gath(2)) (simp_all add: heap_simps)
    moreover have "k_alloc env h (AllocIov (of_nat ?n))" using req False by (auto simp: postable_def)
    ultimately show ?thesis
      using eval False q(2) i by (intro exI [of _ ?h] exI [of _ "slots[?i := ?e]"]) simp
  qed
qed

text \<open>Publishing the same index again changes nothing.\<close>

lemma publish_slot:
  assumes "wq_ok h r" "get_wq h r = Inr w" "h_wqe h (circ_buf_mem (wq_wqe_circ w)) = Some slots"
    "length (wq_list h r) < wq_cap h r"
  defines "c \<equiv> int_to_ulong (circ_head (wq_wqe_circ w))"
  shows "\<exists>h'. post_publish h r c = Inr (0, h') \<and> post_publish h' r c = Inr (0, h') \<and> wq_ok h' r
    \<and> wq_list h' r = wq_list h r @ [slots ! unat (circ_head (wq_wqe_circ w))] \<and> h_iov h' = h_iov h"
proof -
  let ?h = "publish h r w c" and ?i = "unat (circ_head (wq_wqe_circ w))"
  from assms(1-3) have c: "circ_ok (wq_wqe_circ w) (wq_wqe_max w) slots"
    "\<forall>e \<in> set slots. length (wqe_page_map_static e) = DIS_SGE_PER_WQE" by (auto elim!: wq_okE)
  then have i: "?i < length slots" using circ_ok_bounds [OF c(1)] by simp
  then have "store_wqe h (circ_buf_mem (wq_wqe_circ w)) slots ?i (slots ! ?i) = h"
    using assms(3) by (simp add: store_wqe_def fun_upd_idem)
  with publish_wqe [OF assms(1-4), of "slots ! ?i"] c(2) i
  have "wq_ok ?h r" "wq_list ?h r = wq_list h r @ [slots ! ?i]" by (simp_all add: c_def)
  moreover have "publish ?h r (w\<lparr>wq_wqe_circ := (wq_wqe_circ w)\<lparr>circ_head := circ_next c (wq_wqe_max w)\<rparr>\<rparr>) c = ?h"
    by (simp add: publish_def heap_simps)
  then have "post_publish ?h r c = Inr (0, ?h)"
    using assms(2) by (simp add: post_publish_def publish_def heap_simps)
  moreover have "post_publish h r c = Inr (0, ?h)" using assms(2) by (simp add: post_publish_def)
  ultimately show ?thesis by (auto simp: heap_simps)
qed

interpretation sqq: bounded_queue "wq_live r" "\<lambda>h. map wqe_view (wq_list h r)" "\<lambda>h. wq_cap h r"
  "postable env r" "\<lambda>_. request_view (ucast IB_WC_SEND)" "\<lambda>h. dis_qp_post_one_sqe env h r" "wq_take r"
  for env r
  unfolding post_sqe_one by (rule wq_bounded_queue)

interpretation rqq: bounded_queue "wq_live r" "\<lambda>h. map wqe_view (wq_list h r)" "\<lambda>h. wq_cap h r"
  "postable env r" "\<lambda>_. request_view (ucast IB_WC_RECV)" "\<lambda>h. dis_qp_post_one_rqe env h r" "wq_take r"
  for env r
  unfolding post_rqe_one by (rule wq_bounded_queue)

section \<open>An example queue\<close>

text \<open>
  Queue pair 2 in protection domain 3, with a send queue of four slots (array 4); key 0 names
  region 5, whose pages (array 6) lie at \<open>0x10000\<close> and \<open>0x70000\<close>; the region starts at byte
  \<open>0x100\<close> of its first page. Three requests: one that crosses the page boundary, one that ends
  on it, and one with a key that was never handed out.
\<close>

definition ex_wq :: dis_wq where
  "ex_wq = zero_wq\<lparr>wq_ibqp := 2, wq_wqe_max := 4, wq_wqe_circ := zero_circ\<lparr>circ_buf_mem := 4\<rparr>,
     wq_cq := 7\<rparr>"

definition ex_pd :: dis_pd where
  "ex_pd = \<lparr>pd_ibpd_device = NULL, pd_dev = NULL, pd_qp_list = replicate 200 NULL,
     pd_mr_list = 5 # replicate 99 NULL, pd_qp_c = 100, pd_mr_c = 1\<rparr>"

definition ex_mr :: dis_mr where
  "ex_mr = zero_mr\<lparr>mr_pages := 6, mr_page_count := 2, mr_mr_va := 0x8100, mr_va_offset := 0x100,
     mr_mr_length := 0x1F00\<rparr>"

definition ex_wq_heap :: heap where
  "ex_wq_heap = empty_heap\<lparr>h_next := 9, h_qp := [2 \<mapsto> zero_qp\<lparr>qp_ibqp_pd := 3, qp_sq := ex_wq,
       qp_rq := ex_wq\<lparr>wq_wq_type := DIS_RQ\<rparr>\<rparr>],
     h_pd := [3 \<mapsto> ex_pd], h_wqe := [4 \<mapsto> replicate 4 zero_wqe], h_mr := [5 \<mapsto> ex_mr],
     h_iov := [6 \<mapsto> [\<lparr>iov_base = 0x10000, iov_len = PAGE_SIZE\<rparr>,
       \<lparr>iov_base = 0x70000, iov_len = PAGE_SIZE\<rparr>]]\<rparr>"

definition ex_request :: "u64 \<Rightarrow> u32 \<Rightarrow> u32 \<Rightarrow> ib_wr" where
  "ex_request addr len key = \<lparr>wr_wr_id = 77,
     wr_sg_list = [\<lparr>sge_addr = addr, sge_length = len, sge_lkey = key\<rparr>], wr_num_sge = 1\<rparr>"

lemma ex_wq_get: "get_wq ex_wq_heap (SqOf 2) = Inr ex_wq"
  "get_wq ex_wq_heap (RqOf 2) = Inr (ex_wq\<lparr>wq_wq_type := DIS_RQ\<rparr>)"
  by (simp_all add: ex_wq_heap_def kres_simps)

lemma ex_wq_ok: "wq_ok ex_wq_heap (SqOf 2)" "wq_ok ex_wq_heap (RqOf 2)"
  by (simp_all add: wq_ok_def ex_wq_get)
     (simp_all add: ex_wq_heap_def ex_wq_def deref_Some circ_ok_def zero_circ_def zero_wqe_def)

lemma ex_wq_state: "wq_list ex_wq_heap (SqOf 2) = []" "wq_cap ex_wq_heap (SqOf 2) = 3"
  "wq_pd ex_wq_heap (SqOf 2) = 3" "wq_list ex_wq_heap (RqOf 2) = []" "wq_cap ex_wq_heap (RqOf 2) = 3"
  "wq_pd ex_wq_heap (RqOf 2) = 3"
  by (simp_all add: wq_list_def wq_cap_def wq_pd_def ex_wq_get)
     (simp_all add: ex_wq_heap_def ex_wq_def circ_list_def zero_circ_def ring_list_def deref_Some)

lemma ex_sges: "request_sges (ex_request a l k) = [\<lparr>sge_addr = a, sge_length = l, sge_lkey = k\<rparr>]"
  "sge_limit (ex_request a l k) = 1"
  by (simp_all add: request_sges_def sge_limit_def ex_request_def DIS_SGE_PER_WQE_def)

lemma ex_span:
  "user_span ex_wq_heap 3 \<lparr>sge_addr = 0x8800, sge_length = 0x1000, sge_lkey = 0\<rparr> =
    Some ([\<lparr>iov_base = 0x10000, iov_len = PAGE_SIZE\<rparr>, \<lparr>iov_base = 0x70000, iov_len = PAGE_SIZE\<rparr>], 0x800)"
  "user_span ex_wq_heap 3 \<lparr>sge_addr = 0x8800, sge_length = 0x800, sge_lkey = 0\<rparr> =
    Some ([\<lparr>iov_base = 0x10000, iov_len = PAGE_SIZE\<rparr>, \<lparr>iov_base = 0x70000, iov_len = PAGE_SIZE\<rparr>], 0x800)"
  by (simp_all add: user_span_def ex_wq_heap_def ex_pd_def ex_mr_def zero_mr_def)

lemma ex_request_user:
  "request_in_user_mrs ex_wq_heap 3 (ex_request 0x8800 0x1000 0)"
  "request_count ex_wq_heap 3 (ex_request 0x8800 0x1000 0) = 2"
  by (simp_all add: request_in_user_mrs_def request_count_def ex_sges ex_span span_count_def)
     (simp add: ex_request_def)

lemma roomy_iov_sized: "iov_sized roomy_env"
  by (simp add: iov_sized_def roomy_env_def)

section \<open>Properties\<close>

text \<open>
  C3. Sending gathers the right bytes. If the send queue has room and every segment of the request
  lies in a live user region, \<open>dis_qp_post_one_sqe\<close> succeeds and appends exactly one entry, with the
  send opcode, the low 32 bits of the request's identifier and its byte count; the bytes the library
  moves for the entry, its byte count of them from the physical segments it names, are the physical
  address of every byte of the request in order (page translation by the reference \<open>phys\<close>). The entry
  names one surplus segment, after those, for every segment of the request that is empty or ends on a
  page boundary, and exactly the request's physical segments when there is none.
\<close>

theorem post_sqe_gathers:
  assumes "wq_ok h r" "length (wq_list h r) < wq_cap h r"
    "request_in_user_mrs h (wq_pd h r) wr" "request_count h (wq_pd h r) wr \<le> 1024"
    "iov_sized env" "request_count h (wq_pd h r) wr \<le> 4
      \<or> k_alloc env h (AllocIov (of_nat (request_count h (wq_pd h r) wr)))"
  shows "\<exists>h' e. dis_qp_post_one_sqe env h r wr = Inr (0, h') \<and> wq_ok h' r
    \<and> wq_list h' r = wq_list h r @ [e] \<and> gathered h h' (wq_pd h r) wr (ucast IB_WC_SEND) e
    \<and> wqe_opcode e = ucast IB_WC_SEND \<and> wqe_wr_id e = ucast (wr_wr_id wr)
    \<and> unat (wqe_byte_len e) = length (request_bytes h (wq_pd h r) wr)
    \<and> entry_bytes h' e = request_bytes h (wq_pd h r) wr
    \<and> unat (msg_iovlen (wqe_sci_msg e)) = length (request_chunks h (wq_pd h r) wr) + page_slack h (wq_pd h r) wr
    \<and> (page_slack h (wq_pd h r) wr = 0 \<longrightarrow> entry_iovs h' e = request_chunks h (wq_pd h r) wr)"
proof -
  from post_one_room [OF assms(1-5), of "ucast IB_WC_SEND"] assms(6) obtain h' e where
    p: "dis_qp_post_one_sqe env h r wr = Inr (0, h')" "wq_ok h' r" "wq_list h' r = wq_list h r @ [e]"
      and g: "gathered h h' (wq_pd h r) wr (ucast IB_WC_SEND) e"
    by (auto simp: post_sqe_one DIS_SGE_PER_WQE_def)
  have "unat (wqe_byte_len e) = length (request_bytes h (wq_pd h r) wr)"
    "wqe_opcode e = ucast IB_WC_SEND" "wqe_wr_id e = ucast (wr_wr_id wr)"
    using g request_bytes_length [OF assms(3,4)] by (simp_all add: gathered_def)
  with p g gathered_bytes [OF g assms(3,4)] gathered_exact [OF g assms(3)] show ?thesis
    by (intro exI [of _ h'] exI [of _ e]) simp
qed

theorem post_sqe_gathers_witness:
  "\<exists>h' e. dis_qp_post_one_sqe roomy_env ex_wq_heap (SqOf 2) (ex_request 0x8800 0x1000 0) = Inr (0, h')
    \<and> wq_ok h' (SqOf 2) \<and> wq_list h' (SqOf 2) = [e]
    \<and> gathered ex_wq_heap h' 3 (ex_request 0x8800 0x1000 0) (ucast IB_WC_SEND) e
    \<and> entry_bytes h' e = request_bytes ex_wq_heap 3 (ex_request 0x8800 0x1000 0)
    \<and> entry_iovs h' e = request_chunks ex_wq_heap 3 (ex_request 0x8800 0x1000 0)"
proof -
  have "page_slack ex_wq_heap 3 (ex_request 0x8800 0x1000 0) = 0"
    by (simp add: page_slack_def ex_sges ex_span)
  then show ?thesis
    using post_sqe_gathers [of ex_wq_heap "SqOf 2" "ex_request 0x8800 0x1000 0" roomy_env]
    by (auto simp: ex_wq_ok ex_wq_state ex_request_user roomy_iov_sized)
qed

text \<open>
  Receiving scatters to the right bytes: the same for \<open>dis_qp_post_one_rqe\<close> and the receive
  queue, whose entries carry the receive opcode.
\<close>

lemma post_rqe_scatters:
  assumes "wq_ok h r" "length (wq_list h r) < wq_cap h r"
    "request_in_user_mrs h (wq_pd h r) wr" "request_count h (wq_pd h r) wr \<le> 1024"
    "iov_sized env" "request_count h (wq_pd h r) wr \<le> 4
      \<or> k_alloc env h (AllocIov (of_nat (request_count h (wq_pd h r) wr)))"
  shows "\<exists>h' e. dis_qp_post_one_rqe env h r wr = Inr (0, h') \<and> wq_ok h' r
    \<and> wq_list h' r = wq_list h r @ [e] \<and> gathered h h' (wq_pd h r) wr (ucast IB_WC_RECV) e"
  using post_one_room [OF assms(1-5), of "ucast IB_WC_RECV"] assms(6)
  by (auto simp: post_rqe_one DIS_SGE_PER_WQE_def)

text \<open>
  C22. A request that is turned down leaves the queue as it was. When the queue is full, when a key
  names no region, or when the pages counted exceed \<open>DIS_MAX_IOVLEN\<close>, both posting routines return
  -42, allocate nothing, and the entries waiting in the queue are the same.
\<close>

theorem post_rejects_unchanged:
  assumes "wq_ok h r"
    "length (wq_list h r) = wq_cap h r \<or> first_bad_key unregistered h (wq_pd h r) wr
     \<or> request_in_user_mrs h (wq_pd h r) wr \<and> 1024 < request_count h (wq_pd h r) wr"
  shows "(\<exists>h'. dis_qp_post_one_sqe env h r wr = Inr (-42, h') \<and> wq_ok h' r
      \<and> wq_list h' r = wq_list h r \<and> h_iov h' = h_iov h \<and> h_next h' = h_next h)
    \<and> (\<exists>h'. dis_qp_post_one_rqe env h r wr = Inr (-42, h') \<and> wq_ok h' r
      \<and> wq_list h' r = wq_list h r \<and> h_iov h' = h_iov h \<and> h_next h' = h_next h)"
  using post_one_rejects [OF assms] unfolding post_sqe_one post_rqe_one
  by (fastforce simp: post_frame_def)

theorem post_rejects_unchanged_witness:
  "\<exists>h'. dis_qp_post_one_sqe roomy_env ex_wq_heap (SqOf 2) (ex_request 0x8800 0x1000 1) = Inr (-42, h')
    \<and> wq_list h' (SqOf 2) = []"
proof -
  have "first_bad_key unregistered ex_wq_heap 3 (ex_request 0x8800 0x1000 1)"
    by (simp add: first_bad_key_def ex_sges unregistered_def ex_wq_heap_def ex_pd_def)
  then show ?thesis
    using post_rejects_unchanged [of ex_wq_heap "SqOf 2" "ex_request 0x8800 0x1000 1" roomy_env]
    by (auto simp: ex_wq_ok ex_wq_state)
qed

text \<open>
  C33. The local key is not checked against the size of the key table: a request whose key is past
  the end of \<open>mr_list\<close> makes both routines read outside the array.
\<close>

theorem post_key_out_of_bounds:
  assumes "wq_ok h r" "length (wq_list h r) < wq_cap h r" "first_bad_key key_outside h (wq_pd h r) wr"
  shows "dis_qp_post_one_sqe env h r wr = Inl OutOfBounds
    \<and> dis_qp_post_one_rqe env h r wr = Inl OutOfBounds"
proof -
  have "post_one opc env h r wr = Inl OutOfBounds" for opc
    using assms(1,2) map_sges_outside [OF assms(3)]
    by (cases rule: post_one_upto_map [where env = env and wr = wr and opc = opc]) auto
  then show ?thesis by (simp add: post_sqe_one post_rqe_one)
qed

theorem post_key_out_of_bounds_witness:
  "dis_qp_post_one_sqe roomy_env ex_wq_heap (SqOf 2) (ex_request 0x8800 0x1000 100) = Inl OutOfBounds"
proof -
  have "first_bad_key key_outside ex_wq_heap 3 (ex_request 0x8800 0x1000 100)"
    by (simp add: first_bad_key_def ex_sges key_outside_def ex_wq_heap_def ex_pd_def)
  then show ?thesis
    using post_key_out_of_bounds [of ex_wq_heap "SqOf 2" "ex_request 0x8800 0x1000 100" roomy_env]
    by (simp add: ex_wq_ok ex_wq_state)
qed

text \<open>
  The page count of the first loop is one too large for every segment that is empty or ends on a
  page boundary, and exact otherwise; so the entry tells the SCI library to move that many more
  segments than were filled in, and what they hold is what the allocator or an earlier request left.
\<close>

lemma post_overcounts_aligned:
  assumes "wq_ok h r" "length (wq_list h r) < wq_cap h r"
    "request_in_user_mrs h (wq_pd h r) wr" "request_count h (wq_pd h r) wr \<le> 1024"
    "iov_sized env" "4 < request_count h (wq_pd h r) wr"
    "k_alloc env h (AllocIov (of_nat (request_count h (wq_pd h r) wr)))"
  shows "\<exists>h' e. dis_qp_post_one_sqe env h r wr = Inr (0, h') \<and> wq_list h' r = wq_list h r @ [e]
    \<and> unat (msg_iovlen (wqe_sci_msg e)) = length (request_chunks h (wq_pd h r) wr) + page_slack h (wq_pd h r) wr
    \<and> drop (length (request_chunks h (wq_pd h r) wr)) (entry_iovs h' e)
      = drop (length (request_chunks h (wq_pd h r) wr))
          (k_kmalloc_iov env h (of_nat (request_count h (wq_pd h r) wr)))"
proof -
  let ?n = "request_count h (wq_pd h r) wr" and ?cs = "request_chunks h (wq_pd h r) wr"
  from post_one_room [OF assms(1-5), of "ucast IB_WC_SEND"] assms(6,7) obtain h' e where
    "dis_qp_post_one_sqe env h r wr = Inr (0, h')" "wq_list h' r = wq_list h r @ [e]"
    "gathered h h' (wq_pd h r) wr (ucast IB_WC_SEND) e"
    "entry_iovs h' e = overlay ?cs (k_kmalloc_iov env h (of_nat ?n))"
    by (auto simp: post_sqe_one DIS_SGE_PER_WQE_def)
  then show ?thesis
    using request_chunks_count [OF assms(3)]
    by (auto simp: gathered_def overlay_def)
qed

text \<open>
  C14. The send queue is a first-in first-out queue. For every sequence of postings (of requests that
  fit their regions) and of entries taken by the worker, what was queued at the start followed by
  the requests accepted is what the worker took followed by what is left: nothing is lost,
  duplicated or reordered, each with its identifier and byte count.
\<close>

theorem send_queue_fifo:
  assumes "wq_live r h" "\<forall>wr. Put wr \<in> set ops \<longrightarrow> postable env r h wr"
  shows "\<exists>acc out h'. queue_run (\<lambda>h. dis_qp_post_one_sqe env h r)
      (\<lambda>_. request_view (ucast IB_WC_SEND)) (wq_take r) ops h = Inr (acc, out, h') \<and> wq_live r h'
    \<and> map wqe_view (wq_list h r) @ acc = out @ map wqe_view (wq_list h' r) \<and> wq_cap h' r = wq_cap h r"
  using sqq.queue_run_fifo [OF assms] .

theorem send_queue_fifo_witness:
  "\<exists>acc out h'. queue_run (\<lambda>h. dis_qp_post_one_sqe roomy_env h (SqOf 2))
      (\<lambda>_. request_view (ucast IB_WC_SEND)) (wq_take (SqOf 2))
      [Put (ex_request 0x8800 0x1000 0), Get, Get] ex_wq_heap = Inr (acc, out, h')
    \<and> acc = out @ map wqe_view (wq_list h' (SqOf 2))"
proof -
  have "wq_live (SqOf 2) ex_wq_heap"
    by (simp add: wq_live_def ex_wq_ok) (auto simp: ex_wq_heap_def fresh_in_def)
  moreover have "postable roomy_env (SqOf 2) ex_wq_heap (ex_request 0x8800 0x1000 0)"
    by (simp add: postable_def ex_wq_state ex_request_user roomy_iov_sized DIS_SGE_PER_WQE_def)
  ultimately show ?thesis
    using send_queue_fifo [of "SqOf 2" ex_wq_heap "[Put (ex_request 0x8800 0x1000 0), Get, Get]" roomy_env]
    by (auto simp: ex_wq_state)
qed

text \<open>
  C39. Posting takes no lock, and a posting routine is its two halves, with the index of the slot local
  to the caller in between. When two callers of \<open>dis_qp_post_one_sqe\<close> on the same queue have both
  filled a slot before either has released the new head, both have filled the same one: both return
  0, as for two accepted requests, but the queue holds one more entry, the second caller's, and the
  first request is never carried out.
\<close>

theorem unlocked_posters_lose:
  assumes "wq_live r h" "length (wq_list h r) < wq_cap h r" "postable env r h wr1" "postable env r h wr2"
  shows "(\<forall>h wr. dis_qp_post_one_sqe env h r wr = rbind (post_prepare (ucast IB_WC_SEND) env h r wr)
      (\<lambda>(res, h'). case res of Inl ret \<Rightarrow> Inr (ret, h') | Inr c \<Rightarrow> post_publish h' r c))
    \<and> (\<exists>c1 c2 h1 h2 h3 h4 e. post_prepare (ucast IB_WC_SEND) env h r wr1 = Inr (Inr c1, h1)
      \<and> post_prepare (ucast IB_WC_SEND) env h1 r wr2 = Inr (Inr c2, h2)
      \<and> post_publish h2 r c1 = Inr (0, h3) \<and> post_publish h3 r c2 = Inr (0, h4)
      \<and> wq_list h4 r = wq_list h r @ [e] \<and> wqe_view e = request_view (ucast IB_WC_SEND) wr2
      \<and> entry_bytes h4 e = request_bytes h (wq_pd h r) wr2)"
proof -
  let ?opc = "ucast IB_WC_SEND :: u8"
  obtain w where w: "get_wq h r = Inr w" using assms(1) by (auto simp: wq_live_def elim: wq_okE)
  let ?c = "int_to_ulong (circ_head (wq_wqe_circ w))" and ?i = "unat (circ_head (wq_wqe_circ w))"
  obtain h1 where 1: "post_prepare ?opc env h r wr1 = Inr (Inr ?c, h1)" "wq_live r h1" "get_wq h1 r = Inr w"
    "wq_list h1 r = wq_list h r" "wq_pd h1 r = wq_pd h r" "post_frame h h1"
    using prepare_room [OF assms(1-3) w] by blast
  have ext: "h_iov h \<subseteq>\<^sub>m h_iov h1" "h_pd h1 = h_pd h" "h_mr h1 = h_mr h"
    using assms(1) post_frame_iov(1) [OF 1(6)] 1(6) by (simp_all add: wq_live_def post_frame_def)
  have p2: "postable env r h1 wr2" using postable_mono [OF ext(2,3,1) 1(5)] assms(4) .
  then have req: "request_in_user_mrs h (wq_pd h r) wr2" "request_count h1 (wq_pd h r) wr2 \<le> 1024"
      "request_in_user_mrs h1 (wq_pd h r) wr2"
    using assms(4) 1(5) by (simp_all add: postable_def)
  have cap: "wq_cap h' r = unat (wq_wqe_max w) - 1" if "get_wq h' r = Inr w" for h'
    using that by (simp add: wq_cap_def)
  have room: "length (wq_list h1 r) < wq_cap h1 r" using assms(2) 1(3,4) w cap by simp
  obtain h2 slots where 2: "post_prepare ?opc env h1 r wr2 = Inr (Inr ?c, h2)" "wq_live r h2"
    "get_wq h2 r = Inr w" "wq_list h2 r = wq_list h r" "h_wqe h2 (circ_buf_mem (wq_wqe_circ w)) = Some slots"
    "gathered h1 h2 (wq_pd h r) wr2 ?opc (slots ! ?i)"
    using prepare_room [OF 1(2) room p2 1(3), of ?opc] 1(4,5) by auto
  have "wq_ok h2 r" "length (wq_list h2 r) < wq_cap h2 r" using 2(2-4) room 1(3,4) cap by (simp_all add: wq_live_def)
  from publish_slot [OF this(1) 2(3,5) this(2)] obtain h3 where
    3: "post_publish h2 r ?c = Inr (0, h3)" "post_publish h3 r ?c = Inr (0, h3)"
      "wq_list h3 r = wq_list h r @ [slots ! ?i]" "h_iov h3 = h_iov h2" using 2(4) by auto
  have "entry_bytes h3 (slots ! ?i) = entry_bytes h2 (slots ! ?i)"
    using 3(4) by (simp add: entry_bytes_def entry_iovs_def split: iov_ptr.splits)
  also have "\<dots> = request_bytes h (wq_pd h r) wr2"
    using gathered_bytes [OF 2(6) req(3,2)] request_bytes_mono [OF ext(2,3,1) req(1)] by simp
  finally have "entry_bytes h3 (slots ! ?i) = request_bytes h (wq_pd h r) wr2" .
  moreover have "wqe_view (slots ! ?i) = request_view ?opc wr2"
    using 2(6) by (simp add: gathered_def wqe_view_def request_view_def)
  ultimately show ?thesis
    using 1(1) 2(1) 3 by (auto simp: post_sqe_one post_one_def)
qed

theorem unlocked_posters_lose_witness:
  "\<exists>c1 c2 h1 h2 h3 h4 e. post_prepare (ucast IB_WC_SEND) roomy_env ex_wq_heap (SqOf 2) (ex_request 0x8800 0x1000 0)
        = Inr (Inr c1, h1)
      \<and> post_prepare (ucast IB_WC_SEND) roomy_env h1 (SqOf 2) (ex_request 0x8800 0x800 0) = Inr (Inr c2, h2)
      \<and> post_publish h2 (SqOf 2) c1 = Inr (0, h3) \<and> post_publish h3 (SqOf 2) c2 = Inr (0, h4)
      \<and> wq_list h4 (SqOf 2) = [e] \<and> wqe_byte_len e = 0x800"
proof -
  have live: "wq_live (SqOf 2) ex_wq_heap"
    by (simp add: wq_live_def ex_wq_ok) (auto simp: ex_wq_heap_def fresh_in_def)
  have p1: "postable roomy_env (SqOf 2) ex_wq_heap (ex_request 0x8800 0x1000 0)"
    by (simp add: postable_def ex_wq_state ex_request_user roomy_iov_sized DIS_SGE_PER_WQE_def)
  have p2: "postable roomy_env (SqOf 2) ex_wq_heap (ex_request 0x8800 0x800 0)"
    by (simp add: postable_def ex_wq_state roomy_iov_sized DIS_SGE_PER_WQE_def
        request_in_user_mrs_def request_count_def ex_sges ex_span span_count_def)
      (simp add: ex_request_def)
  have len: "request_length (ex_request 0x8800 0x800 0) = 0x800"
    by (simp add: request_length_def ex_sges)
  have room: "length (wq_list ex_wq_heap (SqOf 2)) < wq_cap ex_wq_heap (SqOf 2)" by (simp add: ex_wq_state)
  show ?thesis
    using conjunct2 [OF unlocked_posters_lose [OF live room p1 p2]]
    by (fastforce simp: ex_wq_state wqe_view_def request_view_def len)
qed

end
