(* ===== verification/Worker.thy ===== *)
theory Worker
  imports Completion_Queue Work_Queue
begin

text \<open>
  The worker thread of a work queue (\<open>dis_qp.c\<close>): it sets up the message queue, carries out the
  entries of its work queue one by one, posts a completion for each, and sleeps until it is
  notified. Loops that may not end are partial functions: \<open>None\<close> is a thread that never returns.
\<close>

section \<open>The surroundings of the thread\<close>

text \<open>
  \<open>kthread_should_stop\<close> reads a flag that another thread sets; time passes between two readings, so
  a reading may change the world. \<open>wait_event_killable\<close> gives back 0 or an error, in the store and
  world at the time the thread runs again: other threads have posted work meanwhile.
\<close>

record 'w kthread_env =
  kthread_should_stop :: "'w \<Rightarrow> bool \<times> 'w"
  wait_event_killable :: "wq_ref \<Rightarrow> heap \<times> 'w \<Rightarrow> int \<times> heap \<times> 'w"

section \<open>Carrying out one entry\<close>

text \<open>
  The loop retries until the library accepts the message or the thread is told to stop. Of the
  counter only the delay between retries depends, which has no effect on the state.
\<close>

definition finish_sqe :: "heap \<Rightarrow> 'w \<Rightarrow> wq_ref \<Rightarrow> wqe_ptr \<Rightarrow> u32 \<Rightarrow> (u32 \<times> heap \<times> 'w) kres" where
  "finish_sqe h s wq p st = rbind (get_wqe h p) (\<lambda>wqe.
     rbind (dis_wq_post_sqe_cqe h wq wqe st) (\<lambda>(ret, h'). Inr (st, h', s)))"

definition finish_rqe :: "heap \<Rightarrow> 'w \<Rightarrow> wq_ref \<Rightarrow> wqe_ptr \<Rightarrow> u32 \<Rightarrow> (u32 \<times> heap \<times> 'w) kres" where
  "finish_rqe h s wq p st = rbind (get_wqe h p) (\<lambda>wqe.
     rbind (dis_wq_post_rqe_cqe h wq wqe st) (\<lambda>(ret, h'). Inr (st, h', s)))"

partial_function (option) sqe_loop :: "'w kthread_env \<Rightarrow> 'w scilib \<Rightarrow> heap \<Rightarrow> 'w \<Rightarrow> wq_ref
    \<Rightarrow> wqe_ptr \<Rightarrow> nat \<Rightarrow> (u32 \<times> heap \<times> 'w) kres option" where
  "sqe_loop kt lib h s wq p fail_counter =
     (case kthread_should_stop kt s of (stop, s1) \<Rightarrow>
      if stop then Some (finish_sqe h s1 wq p IB_WC_RESP_TIMEOUT_ERR)
      else (case dis_sci_if_send_v_msg lib h s1 p of
          Inl f \<Rightarrow> Some (Inl f)
        | Inr (ret, s2) \<Rightarrow>
            if ret = 0 then Some (finish_sqe h s2 wq p IB_WC_SUCCESS)
            else sqe_loop kt lib h s2 wq p
              (if fail_counter > 1000 then fail_counter else Suc fail_counter)))"

definition dis_wq_consume_one_sqe :: "'w kthread_env \<Rightarrow> 'w scilib \<Rightarrow> heap \<Rightarrow> 'w \<Rightarrow> wq_ref
    \<Rightarrow> wqe_ptr \<Rightarrow> (u32 \<times> heap \<times> 'w) kres option" where
  "dis_wq_consume_one_sqe kt lib h s wq p = sqe_loop kt lib h s wq p 0"

definition set_byte_len :: "heap \<Rightarrow> wqe_ptr \<Rightarrow> u32 \<Rightarrow> heap kres" where
  "set_byte_len h p n = rbind (get_wqe h p) (\<lambda>wqe. put_wqe h p (wqe\<lparr>wqe_byte_len := n\<rparr>))"

text \<open>One round of the receive loop: \<open>Inr\<close> is the number of bytes still to come.\<close>

definition rqe_round :: "'w scilib \<Rightarrow> heap \<Rightarrow> 'w \<Rightarrow> wq_ref \<Rightarrow> wqe_ptr \<Rightarrow> c_int \<Rightarrow> c_int
    \<Rightarrow> ((u32 \<times> heap \<times> 'w) + (c_int \<times> heap \<times> 'w)) kres" where
  "rqe_round lib h s wq p bytes_left bytes_total =
     rbind (dis_sci_if_receive_v_msg lib h s p) (\<lambda>(ret, h1, s1).
     rbind (get_wqe h1 p) (\<lambda>wqe.
     let bytes_left' = (if ret = 0 then bytes_left - wqe_byte_len wqe else bytes_left) in
     if ret = 0 \<and> bytes_left' = 0
     then rbind (set_byte_len h1 p bytes_total) (\<lambda>h2.
       rbind (finish_rqe h2 s1 wq p IB_WC_SUCCESS) (\<lambda>res. Inr (Inl res)))
     else rbind (set_byte_len h1 p bytes_left') (\<lambda>h2. Inr (Inr (bytes_left', h2, s1)))))"

partial_function (option) rqe_loop :: "'w kthread_env \<Rightarrow> 'w scilib \<Rightarrow> heap \<Rightarrow> 'w \<Rightarrow> wq_ref
    \<Rightarrow> wqe_ptr \<Rightarrow> c_int \<Rightarrow> c_int \<Rightarrow> nat \<Rightarrow> (u32 \<times> heap \<times> 'w) kres option" where
  "rqe_loop kt lib h s wq p bytes_left bytes_total fail_counter =
     (case kthread_should_stop kt s of (stop, s1) \<Rightarrow>
      if stop then Some (finish_rqe h s1 wq p IB_WC_RESP_TIMEOUT_ERR)
      else (case rqe_round lib h s1 wq p bytes_left bytes_total of
          Inl f \<Rightarrow> Some (Inl f)
        | Inr (Inl res) \<Rightarrow> Some (Inr res)
        | Inr (Inr (bytes_left', h2, s2)) \<Rightarrow> rqe_loop kt lib h2 s2 wq p bytes_left' bytes_total
            (if fail_counter > 1000 then fail_counter else Suc fail_counter)))"

definition dis_wq_consume_one_rqe :: "'w kthread_env \<Rightarrow> 'w scilib \<Rightarrow> heap \<Rightarrow> 'w \<Rightarrow> wq_ref
    \<Rightarrow> wqe_ptr \<Rightarrow> (u32 \<times> heap \<times> 'w) kres option" where
  "dis_wq_consume_one_rqe kt lib h s wq p = (case get_wqe h p of Inl f \<Rightarrow> Some (Inl f)
     | Inr wqe \<Rightarrow> rqe_loop kt lib h s wq p (wqe_byte_len wqe) (wqe_byte_len wqe) 0)"

section \<open>Carrying out all entries\<close>

definition release_map :: "heap \<Rightarrow> wqe_ptr \<Rightarrow> heap kres" where
  "release_map h p = rbind (get_wqe h p) (\<lambda>wqe.
     if wqe_page_map_dynamic wqe \<noteq> NULL
     then rbind (kfree (h_iov h) (wqe_page_map_dynamic wqe)) (\<lambda>m. Inr (h\<lparr>h_iov := m\<rparr>))
     else Inr h)"

definition consume_one :: "'w kthread_env \<Rightarrow> 'w scilib \<Rightarrow> heap \<Rightarrow> 'w \<Rightarrow> wq_ref \<Rightarrow> wqe_ptr
    \<Rightarrow> (u32 \<times> heap \<times> 'w) kres option" where
  \<comment> \<open>the \<open>switch\<close> on the type of the queue\<close>
  "consume_one kt lib h s wq p = (case get_wq h wq of Inl f \<Rightarrow> Some (Inl f)
     | Inr w \<Rightarrow> (case wq_wq_type w of
           DIS_RQ \<Rightarrow> dis_wq_consume_one_rqe kt lib h s wq p
         | DIS_SQ \<Rightarrow> dis_wq_consume_one_sqe kt lib h s wq p))"

partial_function (option) dis_wq_consume_all :: "'w kthread_env \<Rightarrow> 'w scilib \<Rightarrow> heap \<Rightarrow> 'w \<Rightarrow> wq_ref
    \<Rightarrow> (int \<times> heap \<times> 'w) kres option" where
  "dis_wq_consume_all kt lib h s wq =
     (case kthread_should_stop kt s of (stop, s1) \<Rightarrow>
      if stop then Some (Inr (-42, h, s1))
      else (case wq_front h wq of
          Inl f \<Rightarrow> Some (Inl f)
        | Inr None \<Rightarrow> Some (Inr (0, h, s1))
        | Inr (Some p) \<Rightarrow> (case consume_one kt lib h s1 wq p of
              None \<Rightarrow> None
            | Some (Inl f) \<Rightarrow> Some (Inl f)
            | Some (Inr (st, h1, s2)) \<Rightarrow>
                (case rbind (release_map h1 p) (\<lambda>h2. wq_advance h2 wq) of
                    Inl f \<Rightarrow> Some (Inl f)
                  | Inr h3 \<Rightarrow> dis_wq_consume_all kt lib h3 s2 wq))))"

section \<open>The life of the thread\<close>

partial_function (option) dis_wq_init :: "'w kthread_env \<Rightarrow> sci_params \<Rightarrow> 'w scilib \<Rightarrow> heap \<Rightarrow> 'w
    \<Rightarrow> wq_ref \<Rightarrow> (int \<times> heap \<times> 'w) kres option" where
  "dis_wq_init kt par lib h s wq =
     (case kthread_should_stop kt s of (stop, s1) \<Rightarrow>
      if stop then Some (Inr (-42, h, s1))
      else (case rbind (get_wq h wq) (\<lambda>w. case wq_wq_type w of
                DIS_RQ \<Rightarrow> dis_sci_if_create_msq par lib h s1 wq
              | DIS_SQ \<Rightarrow> dis_sci_if_connect_msq par lib h s1 wq) of
          Inl f \<Rightarrow> Some (Inl f)
        | Inr (ret, h1, s2) \<Rightarrow>
            if ret = 0 then Some (Inr (0, h1, s2)) else dis_wq_init kt par lib h1 s2 wq))"

definition dis_wq_exit :: "'w scilib \<Rightarrow> heap \<Rightarrow> 'w \<Rightarrow> wq_ref \<Rightarrow> (heap \<times> 'w) kres" where
  "dis_wq_exit lib h s wq = rbind (get_wq h wq) (\<lambda>w. case wq_wq_type w of
       DIS_RQ \<Rightarrow> dis_sci_if_remove_msq lib h s wq
     | DIS_SQ \<Rightarrow> dis_sci_if_disconnect_msq lib h s wq)"

definition set_wq_state :: "heap \<Rightarrow> wq_ref \<Rightarrow> dis_wq_status \<Rightarrow> heap kres" where
  "set_wq_state h wq st = rbind (get_wq h wq) (\<lambda>w. Inr (set_wq h wq (w\<lparr>wq_wq_state := st\<rparr>)))"

definition set_wq_flag :: "heap \<Rightarrow> wq_ref \<Rightarrow> dis_wq_flag \<Rightarrow> heap kres" where
  "set_wq_flag h wq fl = rbind (get_wq h wq) (\<lambda>w. Inr (set_wq h wq (w\<lparr>wq_wq_flag := fl\<rparr>)))"

partial_function (option) worker_loop :: "'w kthread_env \<Rightarrow> 'w scilib \<Rightarrow> heap \<Rightarrow> 'w \<Rightarrow> wq_ref
    \<Rightarrow> (heap \<times> 'w) kres option" where
  "worker_loop kt lib h s wq =
     (case kthread_should_stop kt s of (stop, s1) \<Rightarrow>
      if stop then Some (Inr (h, s1))
      else (case set_wq_flag h wq DIS_WQ_EMPTY of
          Inl f \<Rightarrow> Some (Inl f)
        | Inr h1 \<Rightarrow> (case dis_wq_consume_all kt lib h1 s1 wq of
              None \<Rightarrow> None
            | Some (Inl f) \<Rightarrow> Some (Inl f)
            | Some (Inr (ret, h2, s2)) \<Rightarrow>
                if ret \<noteq> 0 then Some (Inr (h2, s2))
                else (case wait_event_killable kt wq (h2, s2) of (ret', h3, s3) \<Rightarrow>
                  if ret' \<noteq> 0 then Some (Inr (h3, s3))
                  else worker_loop kt lib h3 s3 wq))))"

definition dis_wq_thread :: "'w kthread_env \<Rightarrow> sci_params \<Rightarrow> 'w scilib \<Rightarrow> heap \<Rightarrow> 'w \<Rightarrow> wq_ref
    \<Rightarrow> (int \<times> heap \<times> 'w) kres option" where
  "dis_wq_thread kt par lib h s wq =
     (case set_wq_state h wq DIS_WQ_RUNNING of
        Inl f \<Rightarrow> Some (Inl f)
      | Inr h1 \<Rightarrow> (case dis_wq_init kt par lib h1 s wq of
            None \<Rightarrow> None
          | Some (Inl f) \<Rightarrow> Some (Inl f)
          | Some (Inr (ret, h2, s2)) \<Rightarrow>
              if ret \<noteq> 0
              then Some (rbind (set_wq_state h2 wq DIS_WQ_EXITED) (\<lambda>h3. Inr (-42, h3, s2)))
              else (case worker_loop kt lib h2 s2 wq of
                  None \<Rightarrow> None
                | Some (Inl f) \<Rightarrow> Some (Inl f)
                | Some (Inr (h3, s3)) \<Rightarrow>
                    Some (rbind (dis_wq_exit lib h3 s3 wq) (\<lambda>(h4, s4).
                      rbind (set_wq_state h4 wq DIS_WQ_EXITED) (\<lambda>h5. Inr (0, h5, s4)))))))"

section \<open>The thread ends once it is told to\<close>

text \<open>
  A clock for the stop request: it runs down whenever \<open>kthread_should_stop\<close> answers no, and
  nothing else the thread does winds it up.
\<close>

definition stop_clock :: "'w kthread_env \<Rightarrow> 'w scilib \<Rightarrow> ('w \<Rightarrow> nat) \<Rightarrow> bool" where
  "stop_clock kt lib m \<longleftrightarrow>
     (\<forall>s. if fst (kthread_should_stop kt s) then m (snd (kthread_should_stop kt s)) \<le> m s
          else m (snd (kthread_should_stop kt s)) < m s)
   \<and> (\<forall>wq h s. m (snd (snd (wait_event_killable kt wq (h, s)))) \<le> m s)
   \<and> (\<forall>q v n s. m (snd (SCILSendVMsg lib q v n s)) \<le> m s)
   \<and> (\<forall>q v n s. m (snd (snd (SCILReceiveVMsg lib q v n s))) \<le> m s)
   \<and> (\<forall>q a b i j k n s. m (snd (snd (SCILCreateMsgQueue lib q a b i j k n s))) \<le> m s)
   \<and> (\<forall>q a b i j k n s. m (snd (snd (SCILConnectMsgQueue lib q a b i j k n s))) \<le> m s)"

lemma stop_clockD:
  assumes "stop_clock kt lib m"
  shows "kthread_should_stop kt s = (False, s') \<Longrightarrow> m s' < m s"
    "kthread_should_stop kt s = (True, s') \<Longrightarrow> m s' \<le> m s"
    "wait_event_killable kt wq (h, s) = (ret, h', s') \<Longrightarrow> m s' \<le> m s"
    "dis_sci_if_send_v_msg lib h s p = Inr (ret, s') \<Longrightarrow> m s' \<le> m s"
    "dis_sci_if_receive_v_msg lib h s p = Inr (ret, h', s') \<Longrightarrow> m s' \<le> m s"
    "dis_sci_if_create_msq par lib h s wq = Inr (ret, h', s') \<Longrightarrow> m s' \<le> m s"
    "dis_sci_if_connect_msq par lib h s wq = Inr (ret, h', s') \<Longrightarrow> m s' \<le> m s"
proof -
  show "kthread_should_stop kt s = (False, s') \<Longrightarrow> m s' < m s"
    "kthread_should_stop kt s = (True, s') \<Longrightarrow> m s' \<le> m s"
    using assms unfolding stop_clock_def by (metis fst_conv snd_conv)+
  show "wait_event_killable kt wq (h, s) = (ret, h', s') \<Longrightarrow> m s' \<le> m s"
    using assms unfolding stop_clock_def by (metis snd_conv)
qed (use assms in \<open>auto simp: stop_clock_def dis_sci_if_send_v_msg_def dis_sci_if_receive_v_msg_def
      dis_sci_if_create_msq_def dis_sci_if_connect_msq_def rbind_eq_Inr Let_def split_beta\<close>)

text \<open>A computation returns, and the clock was not wound up.\<close>

definition returns :: "('w \<Rightarrow> nat) \<Rightarrow> 'w \<Rightarrow> ('a \<times> heap \<times> 'w) kres option \<Rightarrow> bool" where
  "returns m s r \<longleftrightarrow> (\<exists>x. r = Some x \<and> (\<forall>a h' s'. x = Inr (a, h', s') \<longrightarrow> m s' \<le> m s))"

lemma returns_Some: "returns m s (Some x) \<longleftrightarrow> (\<forall>a h' s'. x = Inr (a, h', s') \<longrightarrow> m s' \<le> m s)"
  by (simp add: returns_def)

lemma returns_None [simp]: "\<not> returns m s None"
  by (simp add: returns_def)

lemma returns_le: "returns m s r \<Longrightarrow> m s \<le> m s0 \<Longrightarrow> returns m s0 r"
  by (fastforce simp: returns_def)

lemma finish_returns: 
  "returns m s (Some (finish_sqe h s wq p st))" "returns m s (Some (finish_rqe h s wq p st))"
  by (auto simp: returns_def finish_sqe_def finish_rqe_def rbind_eq_Inr)

lemma sqe_loop_returns:
  assumes "stop_clock kt lib m"
  shows "returns m s (sqe_loop kt lib h s wq p fc)"
proof (induction "m s" arbitrary: s fc rule: less_induct)
  case less
  obtain stop s1 where k: "kthread_should_stop kt s = (stop, s1)" by fastforce
  show ?case
  proof (cases stop)
    case True
    with k stop_clockD(2) [OF assms, of s s1] show ?thesis
      by (simp add: sqe_loop.simps returns_le [OF finish_returns(1)])
  next
    case False
    with k have lt: "m s1 < m s" using stop_clockD(1) [OF assms] by simp
    show ?thesis
    proof (cases "dis_sci_if_send_v_msg lib h s1 p")
      case (Inl f)
      with k False show ?thesis by (simp add: sqe_loop.simps returns_Some)
    next
      case (Inr x)
      then obtain ret s2 where r: "dis_sci_if_send_v_msg lib h s1 p = Inr (ret, s2)"
        by (cases x) simp
      then have "m s2 < m s" using stop_clockD(4) [OF assms r] lt by simp
      moreover from this have "returns m s (sqe_loop kt lib h s2 wq p c)" for c
        using less [of s2] by (auto intro: returns_le [where s = s2])
      moreover have "returns m s (Some (finish_sqe h s2 wq p st))" for st
        using \<open>m s2 < m s\<close> by (intro returns_le [OF finish_returns(1)]) simp
      ultimately show ?thesis
        using k False r by (subst sqe_loop.simps) simp
    qed
  qed
qed

lemma rqe_round_clock:
  assumes "stop_clock kt lib m"
  shows "rqe_round lib h s wq p l t = Inr (Inl (a, h', s')) \<Longrightarrow> m s' \<le> m s"
    "rqe_round lib h s wq p l t = Inr (Inr (l', h', s')) \<Longrightarrow> m s' \<le> m s"
  by (auto simp: rqe_round_def rbind_eq_Inr finish_rqe_def Let_def split: if_splits
      dest!: stop_clockD(5) [OF assms])

lemma rqe_loop_returns:
  assumes "stop_clock kt lib m"
  shows "returns m s (rqe_loop kt lib h s wq p l t fc)"
proof (induction "m s" arbitrary: h s l fc rule: less_induct)
  case less
  obtain stop s1 where k: "kthread_should_stop kt s = (stop, s1)" by fastforce
  show ?case
  proof (cases stop)
    case True
    with k stop_clockD(2) [OF assms, of s s1] show ?thesis
      by (simp add: rqe_loop.simps returns_le [OF finish_returns(2)])
  next
    case False
    with k have lt: "m s1 < m s" using stop_clockD(1) [OF assms] by simp
    show ?thesis
    proof (cases "rqe_round lib h s1 wq p l t")
      case (Inl f)
      with k False show ?thesis by (simp add: rqe_loop.simps returns_Some)
    next
      case (Inr x)
      show ?thesis
      proof (cases x)
        case (Inl res)
        with Inr k False lt rqe_round_clock(1) [OF assms, of h s1 wq p l t] show ?thesis
          by (cases res) (fastforce simp: rqe_loop.simps returns_Some)
      next
        case (Inr y)
        then obtain l' h' s' where "rqe_round lib h s1 wq p l t = Inr (Inr (l', h', s'))"
          using \<open>rqe_round lib h s1 wq p l t = Inr x\<close> by (cases y) auto
        moreover from this have "m s' < m s" using lt rqe_round_clock(2) [OF assms] by fastforce
        then have "returns m s (rqe_loop kt lib h' s' wq p l' t c)" for c
          using less [of s'] by (auto intro: returns_le [where s = s'])
        ultimately show ?thesis
          using k False by (subst rqe_loop.simps) simp
      qed
    qed
  qed
qed

lemma consume_one_returns:
  "stop_clock kt lib m \<Longrightarrow> returns m s (consume_one kt lib h s wq p)"
  by (simp add: consume_one_def dis_wq_consume_one_sqe_def dis_wq_consume_one_rqe_def returns_Some
      sqe_loop_returns rqe_loop_returns split: sum.splits dis_wq_type.splits)

lemma consume_all_returns:
  assumes "stop_clock kt lib m"
  shows "returns m s (dis_wq_consume_all kt lib h s wq)"
proof (induction "m s" arbitrary: h s rule: less_induct)
  case less
  obtain stop s1 where k: "kthread_should_stop kt s = (stop, s1)" by fastforce
  show ?case
  proof (cases stop)
    case True
    with k stop_clockD(2) [OF assms, of s s1] show ?thesis
      by (simp add: dis_wq_consume_all.simps returns_Some)
  next
    case False
    with k have lt: "m s1 < m s" using stop_clockD(1) [OF assms] by simp
    have one: "returns m s1 (consume_one kt lib h s1 wq p)" for p
      by (rule consume_one_returns [OF assms])
    have rest: "returns m s (dis_wq_consume_all kt lib h3 s2 wq)"
      if "consume_one kt lib h s1 wq p = Some (Inr (st, h1, s2))" for p st h1 s2 h3
    proof -
      have "m s2 < m s" using that one [of p] lt by (auto simp: returns_def)
      then show ?thesis using less [of s2 h3] by (auto intro: returns_le [where s = s2])
    qed
    show ?thesis
    proof (cases "wq_front h wq")
      case (Inr x)
      show ?thesis
      proof (cases x)
        case (Some p)
        obtain y where y: "consume_one kt lib h s1 wq p = Some y"
          using one [of p] by (auto simp: returns_def)
        with k False Some Inr rest show ?thesis
          by (subst dis_wq_consume_all.simps)
            (cases p; auto simp: returns_Some split: sum.splits)
      qed (use k False lt Inr in \<open>simp add: dis_wq_consume_all.simps returns_Some\<close>)
    qed (use k False in \<open>simp add: dis_wq_consume_all.simps returns_Some\<close>)
  qed
qed


lemma wq_init_returns:
  assumes "stop_clock kt lib m"
  shows "returns m s (dis_wq_init kt par lib h s wq)"
proof (induction "m s" arbitrary: h s rule: less_induct)
  case less
  obtain stop s1 where k: "kthread_should_stop kt s = (stop, s1)" by fastforce
  show ?case
  proof (cases stop)
    case True
    with k stop_clockD(2) [OF assms, of s s1] show ?thesis
      by (simp add: dis_wq_init.simps returns_Some)
  next
    case False
    with k have lt: "m s1 < m s" using stop_clockD(1) [OF assms] by simp
    let ?r = "rbind (get_wq h wq) (\<lambda>w. case wq_wq_type w of
                DIS_RQ \<Rightarrow> dis_sci_if_create_msq par lib h s1 wq
              | DIS_SQ \<Rightarrow> dis_sci_if_connect_msq par lib h s1 wq)"
    show ?thesis
    proof (cases ?r)
      case (Inr x)
      then obtain ret h1 s2 where r: "?r = Inr (ret, h1, s2)" by (cases x) auto
      then have "m s2 \<le> m s1"
        by (auto simp: rbind_eq_Inr split: dis_wq_type.splits dest: stop_clockD(6,7) [OF assms])
          (metis dis_wq_type.exhaust)
      with lt have lt2: "m s2 < m s" by simp
      then have "returns m s (dis_wq_init kt par lib h1 s2 wq)"
        using less [of s2 h1] by (auto intro: returns_le [where s = s2])
      with k False r lt2 show ?thesis
        by (subst dis_wq_init.simps) (simp add: returns_Some)
    qed (use k False in \<open>subst dis_wq_init.simps, simp add: returns_Some\<close>)
  qed
qed

lemma worker_loop_returns:
  assumes "stop_clock kt lib m"
  shows "\<exists>x. worker_loop kt lib h s wq = Some x"
proof (induction "m s" arbitrary: h s rule: less_induct)
  case less
  obtain stop s1 where k: "kthread_should_stop kt s = (stop, s1)" by fastforce
  show ?case
  proof (cases stop)
    case True
    with k show ?thesis by (simp add: worker_loop.simps)
  next
    case False
    with k have lt: "m s1 < m s" using stop_clockD(1) [OF assms] by simp
    show ?thesis
    proof (cases "set_wq_flag h wq DIS_WQ_EMPTY")
      case (Inr h1)
      obtain y where y: "dis_wq_consume_all kt lib h1 s1 wq = Some y"
        "\<And>a h' s'. y = Inr (a, h', s') \<Longrightarrow> m s' \<le> m s1"
        using consume_all_returns [OF assms, of s1 h1 wq] by (auto simp: returns_def)
      show ?thesis
      proof (cases y)
        case (Inr z)
        then obtain ret h2 s2 where z: "y = Inr (ret, h2, s2)" by (cases z) auto
        obtain ret' h3 s3 where w: "wait_event_killable kt wq (h2, s2) = (ret', h3, s3)"
          by (cases "wait_event_killable kt wq (h2, s2)") auto
        have "m s3 < m s" using y(2) [OF z] lt stop_clockD(3) [OF assms w] by simp
        then have "\<exists>x. worker_loop kt lib h3 s3 wq = Some x" using less by blast
        with k False \<open>set_wq_flag h wq DIS_WQ_EMPTY = Inr h1\<close> y z w show ?thesis
          by (subst worker_loop.simps) simp
      qed (use k False Inr y in \<open>subst worker_loop.simps, simp\<close>)
    qed (use k False in \<open>subst worker_loop.simps, simp\<close>)
  qed
qed

lemma thread_returns:
  assumes "stop_clock kt lib m"
  shows "\<exists>x. dis_wq_thread kt par lib h s wq = Some x"
proof -
  have "\<exists>x. dis_wq_init kt par lib h1 s wq = Some x" for h1
    using wq_init_returns [OF assms, of s par h1 wq] unfolding returns_def by blast
  then show ?thesis
    using worker_loop_returns [OF assms]
    by (auto simp: dis_wq_thread_def split: sum.splits option.splits) (metis option.distinct(1))+
qed

lemma thread_exited:
  assumes "dis_wq_thread kt par lib h s wq = Some (Inr (ret, h', s'))"
  shows "\<exists>w. get_wq h' wq = Inr w \<and> wq_wq_state w = DIS_WQ_EXITED"
  using assms
  by (auto simp: dis_wq_thread_def set_wq_state_def rbind_eq_Inr heap_simps
      split: sum.splits option.splits if_splits prod.splits)

end
