(* ===== verification/Worker_Queue.thy ===== *)
theory Worker_Queue
  imports Worker
begin

text \<open>
  What the worker does to its work queue, its completion queue and the page maps: one completion per
  entry, in order, for sends and receives; the double free of a page map after its slot is used
  again; and what is left undone when the thread is stopped.
\<close>

section \<open>Entries that are ready to be carried out\<close>

definition entry_ok :: "heap \<Rightarrow> wq_ref \<Rightarrow> dis_wqe \<Rightarrow> bool" where
  "entry_ok h wq e \<longleftrightarrow> wqe_sci_msq e = Some wq
     \<and> (case msg_iovs h e of Inl _ \<Rightarrow> False | Inr _ \<Rightarrow> True)
     \<and> (case msg_iov (wqe_sci_msg e) of IovDynamic p \<Rightarrow> wqe_page_map_dynamic e = p | _ \<Rightarrow> True)
     \<and> (wqe_page_map_dynamic e \<noteq> NULL \<longrightarrow> h_iov h (wqe_page_map_dynamic e) \<noteq> None)"

definition dyn_maps :: "dis_wqe list \<Rightarrow> ptr list" where
  "dyn_maps es = filter (\<lambda>p. p \<noteq> NULL) (map wqe_page_map_dynamic es)"

definition work_ok :: "heap \<Rightarrow> wq_ref \<Rightarrow> bool" where
  "work_ok h wq \<longleftrightarrow> wq_ok h wq \<and> (\<forall>e \<in> set (wq_list h wq). entry_ok h wq e)
     \<and> distinct (dyn_maps (wq_list h wq))"

lemma dyn_maps_simps [simp]:
  "dyn_maps [] = []"
  "dyn_maps (e # es) = (if wqe_page_map_dynamic e = NULL then dyn_maps es
     else wqe_page_map_dynamic e # dyn_maps es)"
  by (simp_all add: dyn_maps_def)

lemma in_dyn_maps: "e \<in> set es \<Longrightarrow> wqe_page_map_dynamic e \<noteq> NULL \<Longrightarrow> wqe_page_map_dynamic e \<in> set (dyn_maps es)"
  by (auto simp: dyn_maps_def)

text \<open>The message of a ready entry can be read, and does not change while its page map is there.\<close>

lemma entry_ok_msg: "entry_ok h wq e \<Longrightarrow> msg_iovs h e = Inr (entry_iovs h e)"
  by (auto simp: entry_ok_def msg_iovs_def entry_iovs_def Let_def rbind_eq_Inr deref_eq_Inr
      split: iov_ptr.splits if_splits sum.splits)

lemma entry_frame:
  assumes "entry_ok h wq e"
    "wqe_page_map_dynamic e \<noteq> NULL \<Longrightarrow> h_iov h' (wqe_page_map_dynamic e) = h_iov h (wqe_page_map_dynamic e)"
  shows "entry_ok h' wq e" "entry_iovs h' e = entry_iovs h e"
proof -
  have "deref (h_iov h') p = deref (h_iov h) p" if "msg_iov (wqe_sci_msg e) = IovDynamic p" for p
    using that assms by (cases "p = 0") (auto simp: entry_ok_def deref_def)
  then have m: "msg_iovs h' e = msg_iovs h e"
    by (auto simp: msg_iovs_def Let_def split: iov_ptr.splits)
  with assms show ok: "entry_ok h' wq e" by (auto simp: entry_ok_def)
  show "entry_iovs h' e = entry_iovs h e"
    using m entry_ok_msg [OF assms(1)] entry_ok_msg [OF ok] by simp
qed

lemma wq_frame_cq [heap_simps]:
  "wq_ok (cq_pushed h p x) r = wq_ok h r" "wq_list (cq_pushed h p x) r = wq_list h r"
  by (simp_all add: wq_ok_def wq_list_def heap_simps split: sum.splits)

lemma restrict_map_UNIV [simp]: "m |` UNIV = m"
  by (simp add: restrict_map_def)

lemma wq_frame_iov1 [heap_simps]:
  "wq_ok (h\<lparr>h_iov := m\<rparr>) r = wq_ok h r" "wq_list (h\<lparr>h_iov := m\<rparr>) r = wq_list h r"
  by (simp_all add: wq_ok_def wq_list_def heap_simps split: sum.splits)

lemma cq_frame [heap_simps]:
  "cq_ok (set_wq h r w) p = cq_ok h p" "cq_list (set_wq h r w) p = cq_list h p"
  "cq_cap (set_wq h r w) p = cq_cap h p"
  "cq_ok (h\<lparr>h_iov := m\<rparr>) p = cq_ok h p" "cq_list (h\<lparr>h_iov := m\<rparr>) p = cq_list h p"
  "cq_cap (h\<lparr>h_iov := m\<rparr>) p = cq_cap h p"
  by (simp_all add: cq_ok_def cq_list_def cq_cap_def heap_simps split: option.splits)

lemma get_wqe_frame [heap_simps]:
  "get_wqe (cq_pushed h cq x) p = get_wqe h p" "get_wqe (set_wq h r w) p = get_wqe h p"
  "get_wqe (h\<lparr>h_iov := m\<rparr>) p = get_wqe h p"
  by (cases p; simp add: heap_simps)+

lemma release_map_ok:
  assumes "get_wqe h p = Inr e" "entry_ok h wq e"
  shows "release_map h p = Inr (h\<lparr>h_iov := h_iov h |` (- set (dyn_maps [e]))\<rparr>)"
proof (cases "wqe_page_map_dynamic e = NULL")
  case True
  with assms(1) show ?thesis by (simp add: release_map_def)
next
  case False
  with assms obtain v where "h_iov h (wqe_page_map_dynamic e) = Some v"
    by (auto simp: entry_ok_def)
  with assms(1) False show ?thesis
    by (simp add: release_map_def kfree_live restrict_complement_singleton_eq)
qed

text \<open>After the completion is posted, the entry's page map is freed and its slot given back.\<close>

lemma consume_step:
  assumes ok: "work_ok h wq" and l: "wq_list h wq = e # es" and w: "get_wq h wq = Inr w"
    and cq: "cq_ok h cq" "length (cq_list h cq) < cq_cap h cq" and p: "wq_front h wq = Inr (Some p)"
  shows "\<exists>h' c. rbind (release_map (cq_pushed h cq x) p) (\<lambda>h2. wq_advance h2 wq) = Inr h'
    \<and> work_ok h' wq \<and> wq_list h' wq = es \<and> get_wq h' wq = Inr (w\<lparr>wq_wqe_circ := c\<rparr>)
    \<and> cq_ok h' cq \<and> cq_list h' cq = cq_list h cq @ [x] \<and> cq_cap h' cq = cq_cap h cq
    \<and> h_iov h' = h_iov h |` (- set (dyn_maps [e])) \<and> (\<forall>e' \<in> set es. entry_iovs h' e' = entry_iovs h e')"
proof -
  let ?h1 = "cq_pushed h cq x"
  let ?h2 = "?h1\<lparr>h_iov := h_iov h |` (- set (dyn_maps [e]))\<rparr>"
  have wq: "wq_ok h wq" and e: "entry_ok h wq e" using ok l by (auto simp: work_ok_def)
  from wq_front_some [OF wq l] p have g: "get_wqe h p = Inr e" by auto
  have "entry_ok ?h1 wq e" using e by (rule entry_frame) (simp add: heap_simps)
  with g have rel: "release_map ?h1 p = Inr ?h2"
    using release_map_ok [of ?h1 p e wq] by (simp add: heap_simps)
  have "wq_ok ?h2 wq" "wq_list ?h2 wq = e # es" using wq l by (simp_all add: heap_simps)
  from wq_advance_ok [OF this] obtain h3 w3 where adv: "wq_advance ?h2 wq = Inr h3"
    "h3 = set_wq ?h2 wq w3" "wq_ok h3 wq" "wq_list h3 wq = es" by blast
  have "get_wq ?h2 wq = Inr w" using w by (simp add: heap_simps)
  then obtain c where w3: "get_wq h3 wq = Inr (w\<lparr>wq_wqe_circ := c\<rparr>)"
    using adv(1) by (auto simp: wq_advance_def get_wq_set_wq)
  note push = cq_pushed_ok [OF cq, of x]
  have iov: "h_iov h3 = h_iov h |` (- set (dyn_maps [e]))" using adv(2) by (simp add: heap_simps)
  have d: "distinct (dyn_maps (e # es))" "\<forall>e' \<in> set es. entry_ok h wq e'"
    using ok l by (simp_all add: work_ok_def)
  have e3: "entry_ok h3 wq e'" "entry_iovs h3 e' = entry_iovs h e'" if "e' \<in> set es" for e'
  proof -
    have "entry_ok h wq e'" using d(2) that by simp
    moreover have "h_iov h3 (wqe_page_map_dynamic e') = h_iov h (wqe_page_map_dynamic e')"
      if "wqe_page_map_dynamic e' \<noteq> 0"
      using d(1) in_dyn_maps [OF \<open>e' \<in> set es\<close> that] iov
      by (auto simp: restrict_map_def split: if_splits)
    ultimately show "entry_ok h3 wq e'" "entry_iovs h3 e' = entry_iovs h e'" using entry_frame by blast+
  qed
  then have "work_ok h3 wq" using adv(3,4) d by (auto simp: work_ok_def split: if_splits)
  moreover have "cq_ok h3 cq" "cq_list h3 cq = cq_list h cq @ [x]" "cq_cap h3 cq = cq_cap h cq"
    unfolding adv(2) using push by (simp_all only: heap_simps)
  moreover have "rbind (release_map ?h1 p) (\<lambda>h2. wq_advance h2 wq) = Inr h3"
    using rel adv(1) by simp
  ultimately show ?thesis using adv(4) w3 iov e3(2) by blast
qed

text \<open>
  What the library was given for an entry, and what serving the entries one after the other makes of a
  view \<open>st\<close> of the world, when serving one relates the view before and after by \<open>R\<close>.
\<close>

definition entry_message :: "heap \<Rightarrow> dis_wq \<Rightarrow> dis_wqe \<Rightarrow> sci_msq_queue_t \<times> iovec list \<times> u32" where
  "entry_message h w e = (wq_sci_msq w, entry_iovs h e, wqe_byte_len e)"

fun served :: "('m \<Rightarrow> 'b \<Rightarrow> 'b \<Rightarrow> bool) \<Rightarrow> 'm list \<Rightarrow> 'b \<Rightarrow> 'b \<Rightarrow> bool" where
  "served R [] v v' \<longleftrightarrow> v' = v"
| "served R (x # xs) v v' \<longleftrightarrow> (\<exists>u. R x v u \<and> served R xs u v')"

lemma fold_served: "v' = fold (\<lambda>e. upd (f e)) es v \<longleftrightarrow> served (\<lambda>x v v'. v' = upd x v) (map f es) v v'"
  by (induction es arbitrary: v) simp_all

lemma drain_queue:
  assumes serve: "\<And>h s p w e es. work_ok h wq \<Longrightarrow> get_wq h wq = Inr w \<Longrightarrow> wq_wq_type w = ty \<Longrightarrow>
      wq_list h wq = e # es \<Longrightarrow> wq_front h wq = Inr (Some p) \<Longrightarrow> cq_ok h (wq_cq w) \<Longrightarrow>
      length (cq_list h (wq_cq w)) < cq_cap h (wq_cq w) \<Longrightarrow>
      \<exists>s'. consume_one kt lib h s wq p =
        Some (Inr (IB_WC_SUCCESS, cq_pushed h (wq_cq w) (cqe_of e IB_WC_SUCCESS), s'))
        \<and> R (entry_message h w e) (st s) (st s')"
    and go: "\<And>s. \<not> fst (kthread_should_stop kt s) \<and> st (snd (kthread_should_stop kt s)) = st s"
  shows "work_ok h wq \<Longrightarrow> get_wq h wq = Inr w \<Longrightarrow> wq_wq_type w = ty \<Longrightarrow> wq_cq w = cq \<Longrightarrow>
    wq_list h wq = es \<Longrightarrow> cq_ok h cq \<Longrightarrow> length (cq_list h cq) + length es \<le> cq_cap h cq \<Longrightarrow>
    \<exists>h' s'. dis_wq_consume_all kt lib h s wq = Some (Inr (0, h', s')) \<and> wq_ok h' wq
      \<and> wq_list h' wq = [] \<and> cq_ok h' cq
      \<and> cq_list h' cq = cq_list h cq @ map (\<lambda>e. cqe_of e IB_WC_SUCCESS) es
      \<and> h_iov h' = h_iov h |` (- set (dyn_maps es))
      \<and> served R (map (entry_message h w) es) (st s) (st s')"
proof (induction es arbitrary: h s w)
  case Nil
  obtain s1 where k: "kthread_should_stop kt s = (False, s1)" "st s1 = st s"
    using go [of s] by (cases "kthread_should_stop kt s") auto
  with Nil wq_front_empty [of h wq] show ?case
    by (subst dis_wq_consume_all.simps) (simp add: work_ok_def)
next
  case (Cons e es)
  obtain s1 where k: "kthread_should_stop kt s = (False, s1)" "st s1 = st s"
    using go [of s] by (cases "kthread_should_stop kt s") auto
  have room: "length (cq_list h cq) < cq_cap h cq" using Cons.prems by simp
  have wq: "wq_ok h wq" using Cons.prems(1) by (simp add: work_ok_def)
  from wq_front_some [OF wq Cons.prems(5)] obtain mem i where p: "wq_front h wq = Inr (Some (mem, i))"
    by blast
  from serve [OF Cons.prems(1-3,5) p, of s1] Cons.prems room obtain s2 where
    one: "consume_one kt lib h s1 wq (mem, i) =
      Some (Inr (IB_WC_SUCCESS, cq_pushed h cq (cqe_of e IB_WC_SUCCESS), s2))"
      "R (entry_message h w e) (st s) (st s2)" using k(2) by auto
  from consume_step [OF Cons.prems(1,5,2,6) room p, of "cqe_of e IB_WC_SUCCESS"] obtain h3 c where
    st: "rbind (release_map (cq_pushed h cq (cqe_of e IB_WC_SUCCESS)) (mem, i)) (\<lambda>h2. wq_advance h2 wq) = Inr h3"
      "work_ok h3 wq" "wq_list h3 wq = es" "get_wq h3 wq = Inr (w\<lparr>wq_wqe_circ := c\<rparr>)"
      "cq_ok h3 cq" "cq_list h3 cq = cq_list h cq @ [cqe_of e IB_WC_SUCCESS]" "cq_cap h3 cq = cq_cap h cq"
      "h_iov h3 = h_iov h |` (- set (dyn_maps [e]))" "\<forall>e' \<in> set es. entry_iovs h3 e' = entry_iovs h e'"
    by blast
  from Cons.IH [OF st(2,4) _ _ st(3,5), of s2] Cons.prems st(6,7) obtain h' s' where
    rest: "dis_wq_consume_all kt lib h3 s2 wq = Some (Inr (0, h', s'))" "wq_ok h' wq"
      "wq_list h' wq = []" "cq_ok h' cq"
      "cq_list h' cq = cq_list h3 cq @ map (\<lambda>e. cqe_of e IB_WC_SUCCESS) es"
      "h_iov h' = h_iov h3 |` (- set (dyn_maps es))"
      "served R (map (entry_message h3 (w\<lparr>wq_wqe_circ := c\<rparr>)) es) (st s2) (st s')" by auto
  have "dis_wq_consume_all kt lib h s wq = Some (Inr (0, h', s'))"
    using k p one st(1) rest(1) by (subst dis_wq_consume_all.simps) simp
  moreover have "h_iov h' = h_iov h |` (- set (dyn_maps (e # es)))"
    using rest(6) st(8) by (auto simp: restrict_map_def)
  moreover have msgs: "map (entry_message h3 (w\<lparr>wq_wqe_circ := c\<rparr>)) es = map (entry_message h w) es"
    using st(9) by (simp add: entry_message_def)
  have "served R (map (entry_message h w) (e # es)) (st s) (st s')"
    using rest(7) one(2) unfolding msgs by auto
  ultimately show ?case using rest st(6) by auto
qed

section \<open>A send that succeeds\<close>

text \<open>
  The thread is not told to stop, and the library refuses a message only finitely often in a row.
\<close>

definition patient_send :: "'w kthread_env \<Rightarrow> 'w scilib \<Rightarrow> ('w \<Rightarrow> nat) \<Rightarrow> bool" where
  "patient_send kt lib m \<longleftrightarrow>
     (\<forall>s. \<not> fst (kthread_should_stop kt s) \<and> m (snd (kthread_should_stop kt s)) \<le> m s)
   \<and> (\<forall>q v n s. fst (SCILSendVMsg lib q v n s) \<noteq> SCI_ERR_OK \<longrightarrow> m (snd (SCILSendVMsg lib q v n s)) < m s)"

text \<open>A view of the world that a message taken by the library updates, and nothing else the thread does.\<close>

definition tracks :: "'w kthread_env \<Rightarrow> 'w scilib \<Rightarrow> ('w \<Rightarrow> 'b)
    \<Rightarrow> (sci_msq_queue_t \<times> iovec list \<times> u32 \<Rightarrow> 'b \<Rightarrow> 'b) \<Rightarrow> bool" where
  "tracks kt lib st upd \<longleftrightarrow> (\<forall>s. st (snd (kthread_should_stop kt s)) = st s)
   \<and> (\<forall>q v n s. st (snd (SCILSendVMsg lib q v n s))
        = (if fst (SCILSendVMsg lib q v n s) = SCI_ERR_OK then upd (q, v, n) (st s) else st s))"

lemma tracks_nothing: "tracks kt lib (\<lambda>_. ()) (\<lambda>_ _. ())"
  by (simp add: tracks_def)

lemma entry_msg:
  assumes "entry_ok h wq e" "get_wq h wq = Inr w"
  obtains iovs where "msg_iovs h e = Inr iovs" "wqe_handle h e = Inr (wq_sci_msq w)"
  using assms by (auto simp: entry_ok_def wqe_handle_def split: sum.splits)

lemma handle_of_wq: "wqe_sci_msq e = Some wq \<Longrightarrow> get_wq h wq = Inr w \<Longrightarrow> wqe_handle h e = Inr (wq_sci_msq w)"
  by (simp add: wqe_handle_def)

lemma sqe_loop_succeeds:
  assumes "patient_send kt lib m" "tracks kt lib st upd" "get_wqe h p = Inr e" "wqe_sci_msq e = Some wq"
    "msg_iovs h e = Inr iovs" "get_wq h wq = Inr w"
  shows "\<exists>s'. sqe_loop kt lib h s wq p fc = Some (finish_sqe h s' wq p IB_WC_SUCCESS)
    \<and> st s' = upd (wq_sci_msq w, iovs, wqe_byte_len e) (st s)"
proof -
  note v = assms(5) handle_of_wq [OF assms(4,6)]
  show ?thesis
  proof (induction "m s" arbitrary: s fc rule: less_induct)
    case less
    obtain s1 where k: "kthread_should_stop kt s = (False, s1)" "m s1 \<le> m s" "st s1 = st s"
      using assms(1,2) by (auto simp: patient_send_def tracks_def prod_eq_iff)
    let ?r = "SCILSendVMsg lib (wq_sci_msq w) iovs (wqe_byte_len e) s1"
    have call: "dis_sci_if_send_v_msg lib h s1 p
        = Inr (if fst ?r = SCI_ERR_OK then 0 else -42, snd ?r)"
      using assms(3) v by (simp add: dis_sci_if_send_v_msg_def split_beta Let_def)
    have t: "st (snd ?r) = (if fst ?r = SCI_ERR_OK then upd (wq_sci_msq w, iovs, wqe_byte_len e) (st s) else st s)"
      using assms(2) k(3) by (simp add: tracks_def)
    show ?case
    proof (cases "fst ?r = SCI_ERR_OK")
      case True
      with k call t show ?thesis by (subst sqe_loop.simps) auto
    next
      case False
      then have "m (snd ?r) < m s1" using assms(1) unfolding patient_send_def by blast
      with k(2) less [of "snd ?r"] False k call t show ?thesis
        by (subst sqe_loop.simps) auto
    qed
  qed
qed

lemma consume_one_sqe_succeeds:
  assumes "patient_send kt lib m" "tracks kt lib st upd" "get_wqe h p = Inr e" "wqe_sci_msq e = Some wq"
    "msg_iovs h e = Inr iovs" "get_wq h wq = Inr w" "wq_wq_type w = DIS_SQ"
    "cq_ok h (wq_cq w)" "length (cq_list h (wq_cq w)) < cq_cap h (wq_cq w)"
  shows "\<exists>s'. consume_one kt lib h s wq p =
    Some (Inr (IB_WC_SUCCESS, cq_pushed h (wq_cq w) (cqe_of e IB_WC_SUCCESS), s'))
    \<and> st s' = upd (wq_sci_msq w, iovs, wqe_byte_len e) (st s)"
proof -
  obtain s' where "sqe_loop kt lib h s wq p 0 = Some (finish_sqe h s' wq p IB_WC_SUCCESS)"
    "st s' = upd (wq_sci_msq w, iovs, wqe_byte_len e) (st s)"
    using sqe_loop_succeeds [OF assms(1-6)] by blast
  moreover have "dis_wq_post_sqe_cqe h wq e IB_WC_SUCCESS
      = Inr (0, cq_pushed h (wq_cq w) (cqe_of e IB_WC_SUCCESS))"
    using post_sqe_cqe_room [OF assms(8,6) refl assms(9)] .
  ultimately show ?thesis
    using assms(3,6,7) by (simp add: consume_one_def dis_wq_consume_one_sqe_def finish_sqe_def)
qed

lemma consume_one_send:
  assumes "patient_send kt lib m" "tracks kt lib st upd" "work_ok h wq" "get_wq h wq = Inr w"
    "wq_wq_type w = DIS_SQ" "wq_list h wq = e # es" "wq_front h wq = Inr (Some p)"
    "cq_ok h (wq_cq w)" "length (cq_list h (wq_cq w)) < cq_cap h (wq_cq w)"
  shows "\<exists>s'. consume_one kt lib h s wq p =
    Some (Inr (IB_WC_SUCCESS, cq_pushed h (wq_cq w) (cqe_of e IB_WC_SUCCESS), s'))
    \<and> st s' = upd (entry_message h w e) (st s)"
proof -
  have wq: "wq_ok h wq" and e: "entry_ok h wq e" using assms(3,6) by (auto simp: work_ok_def)
  from wq_front_some [OF wq assms(6)] assms(7) have g: "get_wqe h p = Inr e" by auto
  from consume_one_sqe_succeeds [OF assms(1,2) g _ entry_ok_msg [OF e] assms(4,5,8,9)] e show ?thesis
    by (simp add: entry_ok_def entry_message_def)
qed

text \<open>The send queue carried out, with what it did to the view.\<close>

lemma drain_send:
  assumes "patient_send kt lib m" "tracks kt lib st upd" "work_ok h wq" "get_wq h wq = Inr w"
    "wq_wq_type w = DIS_SQ" "cq_ok h (wq_cq w)"
    "length (cq_list h (wq_cq w)) + length (wq_list h wq) \<le> cq_cap h (wq_cq w)"
  shows "\<exists>h' s'. dis_wq_consume_all kt lib h s wq = Some (Inr (0, h', s')) \<and> wq_ok h' wq
    \<and> wq_list h' wq = [] \<and> cq_ok h' (wq_cq w)
    \<and> cq_list h' (wq_cq w) = cq_list h (wq_cq w) @ map (\<lambda>e. cqe_of e IB_WC_SUCCESS) (wq_list h wq)
    \<and> h_iov h' = h_iov h |` (- set (dyn_maps (wq_list h wq)))
    \<and> st s' = fold (\<lambda>e. upd (entry_message h w e)) (wq_list h wq) (st s)"
proof -
  have go: "\<not> fst (kthread_should_stop kt s) \<and> st (snd (kthread_should_stop kt s)) = st s" for s
    using assms(1,2) by (simp add: patient_send_def tracks_def)
  show ?thesis
    unfolding fold_served [of _ upd "entry_message h w"]
    by (rule drain_queue [OF _ go assms(3-5) refl refl assms(6,7)]) (rule consume_one_send [OF assms(1,2)])
qed

section \<open>A receive that succeeds\<close>

text \<open>
  Asked for \<open>n\<close> bytes, the library delivers at least one and at most \<open>n\<close> of them (none only if
  \<open>n\<close> is 0), or refuses, which it does only finitely often in a row.
\<close>

definition steady_receive :: "'w kthread_env \<Rightarrow> 'w scilib \<Rightarrow> ('w \<Rightarrow> nat) \<Rightarrow> bool" where
  "steady_receive kt lib m \<longleftrightarrow>
     (\<forall>s. \<not> fst (kthread_should_stop kt s) \<and> m (snd (kthread_should_stop kt s)) \<le> m s)
   \<and> (\<forall>q v n s. let (err, n', s') = SCILReceiveVMsg lib q v n s in
        if err = SCI_ERR_OK then n' \<le> n \<and> (n' = 0 \<longrightarrow> n = 0) else m s' < m s)"

text \<open>A view of the world that bytes delivered by the library update, and nothing else the thread does.\<close>

definition tracks_receive :: "'w kthread_env \<Rightarrow> 'w scilib \<Rightarrow> ('w \<Rightarrow> 'b)
    \<Rightarrow> (sci_msq_queue_t \<times> iovec list \<times> u32 \<Rightarrow> 'b \<Rightarrow> 'b) \<Rightarrow> bool" where
  "tracks_receive kt lib st upd \<longleftrightarrow> (\<forall>s. st (snd (kthread_should_stop kt s)) = st s)
   \<and> (\<forall>q v n s. let (err, n', s') = SCILReceiveVMsg lib q v n s in
        st s' = (if err = SCI_ERR_OK then upd (q, v, n') (st s) else st s))"

definition whole_receive :: "'w scilib \<Rightarrow> bool" where
  \<comment> \<open>a message is never delivered in parts\<close>
  "whole_receive lib \<longleftrightarrow> (\<forall>q v n s. let (err, n', s') = SCILReceiveVMsg lib q v n s in err = SCI_ERR_OK \<longrightarrow> n' = n)"

definition parts_upto :: "'w scilib \<Rightarrow> u32 \<Rightarrow> bool" where
  \<comment> \<open>no delivery has more than \<open>k\<close> bytes\<close>
  "parts_upto lib k \<longleftrightarrow> (\<forall>q v n s. let (err, n', s') = SCILReceiveVMsg lib q v n s in err = SCI_ERR_OK \<longrightarrow> n' \<le> k)"

lemma tracks_receive_nothing: "tracks_receive kt lib (\<lambda>_. ()) (\<lambda>_ _. ())"
  by (simp add: tracks_receive_def)

definition slot_len :: "heap \<Rightarrow> ptr \<Rightarrow> dis_wqe list \<Rightarrow> nat \<Rightarrow> dis_wqe \<Rightarrow> u32 \<Rightarrow> heap" where
  "slot_len h mem slots i e n = h\<lparr>h_wqe := (h_wqe h)(mem \<mapsto> slots[i := e\<lparr>wqe_byte_len := n\<rparr>])\<rparr>"

lemma slot_len_simps:
  assumes "mem \<noteq> 0" "i < length slots"
  shows "get_wqe (slot_len h mem slots i e n) (mem, i) = Inr (e\<lparr>wqe_byte_len := n\<rparr>)"
    "put_wqe (slot_len h mem slots i e n) (mem, i) (e\<lparr>wqe_byte_len := n'\<rparr>)
      = Inr (slot_len h mem slots i e n')"
    "set_byte_len (slot_len h mem slots i e n) (mem, i) n' = Inr (slot_len h mem slots i e n')"
    "msg_iovs (slot_len h mem slots i e n) (e\<lparr>wqe_byte_len := n'\<rparr>) = msg_iovs h e"
    "wqe_handle (slot_len h mem slots i e n) (e\<lparr>wqe_byte_len := n'\<rparr>) = wqe_handle h e"
  using assms
  by (simp_all add: slot_len_def deref_Some array_get_in array_put_in set_byte_len_def msg_iovs_def
      wqe_handle_def heap_simps Let_def split: iov_ptr.splits option.splits)

lemma slot_len_same:
  "h_wqe h mem = Some slots \<Longrightarrow> slots ! i = e \<Longrightarrow> slot_len h mem slots i e (wqe_byte_len e) = h"
  by (auto simp: slot_len_def map_upd_triv)

lemma rqe_round_eval:
  assumes "mem \<noteq> 0" "i < length slots"
    "dis_sci_if_receive_v_msg lib (slot_len h mem slots i e l) s (mem, i) =
      Inr (ret, slot_len h mem slots i e n, s2)"
  shows "ret = 0 \<Longrightarrow> n = l \<Longrightarrow> rqe_round lib (slot_len h mem slots i e l) s wq (mem, i) l t =
      rbind (finish_rqe (slot_len h mem slots i e t) s2 wq (mem, i) IB_WC_SUCCESS) (\<lambda>res. Inr (Inl res))"
    "ret \<noteq> 0 \<or> n \<noteq> l \<Longrightarrow> rqe_round lib (slot_len h mem slots i e l) s wq (mem, i) l t =
      (let l' = if ret = 0 then l - n else l in Inr (Inr (l', slot_len h mem slots i e l', s2)))"
  by (auto simp: rqe_round_def Let_def assms(3) slot_len_simps [OF assms(1,2)] simp del: get_wqe.simps)

lemma receive_progress:
  assumes "if ok then n \<le> l \<and> (n = 0 \<longrightarrow> l = 0) else m2 < (m1 :: nat)" "\<not> (ok \<and> n = l)" "m1 \<le> m0"
  shows "((unat (if ok then l - n else l :: u32), m2), (unat l, m0)) \<in> less_than <*lex*> less_than"
proof (cases ok)
  case True
  with assms(1,2) have "n \<le> l" "n \<noteq> 0" by auto
  then have "unat (l - n) = unat l - unat n" "0 < unat n" "unat n \<le> unat l"
    by (simp_all add: unat_sub word_le_nat_alt unat_gt_0)
  with True show ?thesis by simp
next
  case False
  with assms(1,3) show ?thesis by simp
qed

lemma loop_result:
  "rbind f (\<lambda>res. Inr (Inl res)) = r \<Longrightarrow> (case r of Inl e \<Rightarrow> Some (Inl e) | Inr (Inl res) \<Rightarrow> Some (Inr res)
     | Inr (Inr x) \<Rightarrow> g x) = Some f"
  by (cases f) auto

text \<open>
  The rounds of the loop: every round hands the library the same segments, from the first on, and the
  bytes delivered in all rounds together are those the entry was posted for.
\<close>

lemma rqe_loop_succeeds:
  assumes "steady_receive kt lib m" "tracks_receive kt lib st upd" "entry_ok h wq e" "get_wq h wq = Inr w"
    "mem \<noteq> 0" "i < length slots"
  shows "\<exists>s' ns. rqe_loop kt lib (slot_len h mem slots i e l) s wq (mem, i) l t fc =
      Some (finish_rqe (slot_len h mem slots i e t) s' wq (mem, i) IB_WC_SUCCESS)
    \<and> sum_list (map unat ns) = unat l \<and> (whole_receive lib \<longrightarrow> ns = [l])
    \<and> (parts_upto lib k \<longrightarrow> (\<forall>n \<in> set ns. n \<le> k))
    \<and> st s' = fold (\<lambda>n. upd (wq_sci_msq w, entry_iovs h e, n)) ns (st s)"
proof -
  let ?iovs = "entry_iovs h e"
  have v: "msg_iovs h e = Inr ?iovs" "wqe_handle h e = Inr (wq_sci_msq w)"
    using entry_ok_msg [OF assms(3)] assms(3,4) by (auto simp: entry_ok_def wqe_handle_def)
  note sl = slot_len_simps [OF assms(5,6)]
  show ?thesis
  proof (induction "(unat l, m s)" arbitrary: l s fc rule: wf_induct_rule [OF wf_lex_prod [OF wf_less_than wf_less_than]])
    case (1 l s fc)
    let ?h = "slot_len h mem slots i e" and ?upd = "\<lambda>n. upd (wq_sci_msq w, ?iovs, n)"
    obtain s1 where k: "kthread_should_stop kt s = (False, s1)" "m s1 \<le> m s" "st s1 = st s"
      using assms(1,2) by (auto simp: steady_receive_def tracks_receive_def prod_eq_iff)
    obtain err n s2 where r: "SCILReceiveVMsg lib (wq_sci_msq w) ?iovs l s1 = (err, n, s2)"
      by (cases "SCILReceiveVMsg lib (wq_sci_msq w) ?iovs l s1") auto
    have ok: "if err = SCI_ERR_OK then n \<le> l \<and> (n = 0 \<longrightarrow> l = 0) else m s2 < m s1"
      using assms(1) [unfolded steady_receive_def, THEN conjunct2, rule_format,
          of "wq_sci_msq w" ?iovs l s1] r by simp
    have t: "st s2 = (if err = SCI_ERR_OK then ?upd n (st s) else st s)"
      using assms(2) [unfolded tracks_receive_def, THEN conjunct2, rule_format,
          of "wq_sci_msq w" ?iovs l s1] r k(3) by simp
    have part: "whole_receive lib \<longrightarrow> err = SCI_ERR_OK \<longrightarrow> n = l" "parts_upto lib k \<longrightarrow> err = SCI_ERR_OK \<longrightarrow> n \<le> k"
      unfolding whole_receive_def parts_upto_def using r
      by (auto dest!: spec [of _ "wq_sci_msq w"] spec [of _ ?iovs] spec [of _ l] spec [of _ s1])
    have call: "dis_sci_if_receive_v_msg lib (?h l) s1 (mem, i)
        = Inr (if err = SCI_ERR_OK then 0 else -42, ?h n, s2)"
      by (simp add: dis_sci_if_receive_v_msg_def Let_def sl v r del: get_wqe.simps put_wqe.simps)
    note round = rqe_round_eval [OF assms(5,6) call, of wq t]
    show ?case
    proof (cases "err = SCI_ERR_OK \<and> n = l")
      case True
      then have "rqe_loop kt lib (?h l) s wq (mem, i) l t fc =
          Some (finish_rqe (?h t) s2 wq (mem, i) IB_WC_SUCCESS)"
        using k round(1) by (subst rqe_loop.simps) (simp add: loop_result [OF refl] cong: sum.case_cong)
      with True t part show ?thesis by (intro exI [of _ s2] exI [of _ "[n]"]) simp
    next
      case False
      let ?l = "if err = SCI_ERR_OK then l - n else l"
      have "rqe_round lib (?h l) s1 wq (mem, i) l t = Inr (Inr (?l, ?h ?l, s2))"
        using False round(2) by (auto simp: Let_def)
      with k have step: "rqe_loop kt lib (?h l) s wq (mem, i) l t fc
          = rqe_loop kt lib (?h ?l) s2 wq (mem, i) ?l t (if fc > 1000 then fc else Suc fc)"
        by (subst rqe_loop.simps) simp
      have "((unat ?l, m s2), (unat l, m s)) \<in> less_than <*lex*> less_than"
        by (rule receive_progress [OF ok False k(2)])
      from 1 [OF this] obtain s' ns where
        rest: "rqe_loop kt lib (?h ?l) s2 wq (mem, i) ?l t (if fc > 1000 then fc else Suc fc)
          = Some (finish_rqe (?h t) s' wq (mem, i) IB_WC_SUCCESS)"
        "sum_list (map unat ns) = unat ?l" "whole_receive lib \<longrightarrow> ns = [?l]" "parts_upto lib k \<longrightarrow> (\<forall>n \<in> set ns. n \<le> k)"
        "st s' = fold ?upd ns (st s2)" by blast
      have "unat ?l + (if err = SCI_ERR_OK then unat n else 0) = unat l"
        using ok by (auto simp: unat_sub word_le_nat_alt)
      with step rest t part False show ?thesis
        by (intro exI [of _ s'] exI [of _ "if err = SCI_ERR_OK then n # ns else ns"])
          (cases "err = SCI_ERR_OK"; simp)
    qed
  qed
qed

lemma consume_one_receive_parts:
  assumes "steady_receive kt lib m" "tracks_receive kt lib st upd" "work_ok h wq" "get_wq h wq = Inr w"
    "wq_wq_type w = DIS_RQ" "wq_list h wq = e # es" "wq_front h wq = Inr (Some p)"
    "cq_ok h (wq_cq w)" "length (cq_list h (wq_cq w)) < cq_cap h (wq_cq w)"
  shows "\<exists>s' ns. consume_one kt lib h s wq p =
      Some (Inr (IB_WC_SUCCESS, cq_pushed h (wq_cq w) (cqe_of e IB_WC_SUCCESS), s'))
    \<and> sum_list (map unat ns) = unat (wqe_byte_len e) \<and> (whole_receive lib \<longrightarrow> ns = [wqe_byte_len e])
    \<and> (parts_upto lib k \<longrightarrow> (\<forall>n \<in> set ns. n \<le> k))
    \<and> st s' = fold (\<lambda>n. upd (wq_sci_msq w, entry_iovs h e, n)) ns (st s)"
proof -
  have wq: "wq_ok h wq" and e: "entry_ok h wq e" using assms(3,6) by (auto simp: work_ok_def)
  from wq_front_some [OF wq assms(6)] assms(7) obtain mem i slots where
    p: "p = (mem, i)" "get_wqe h p = Inr e" "mem \<noteq> 0" "h_wqe h mem = Some slots" "i < length slots"
      "slots ! i = e" by auto
  have same: "slot_len h mem slots i e (wqe_byte_len e) = h" using p by (simp add: slot_len_same)
  obtain s' ns where "rqe_loop kt lib h s wq p (wqe_byte_len e) (wqe_byte_len e) 0
      = Some (finish_rqe h s' wq p IB_WC_SUCCESS)" "sum_list (map unat ns) = unat (wqe_byte_len e)"
      "whole_receive lib \<longrightarrow> ns = [wqe_byte_len e]" "parts_upto lib k \<longrightarrow> (\<forall>n \<in> set ns. n \<le> k)"
      "st s' = fold (\<lambda>n. upd (wq_sci_msq w, entry_iovs h e, n)) ns (st s)"
    using rqe_loop_succeeds [where k = k, OF assms(1,2) e assms(4) p(3,5), of "wqe_byte_len e" s "wqe_byte_len e" 0] same p(1)
    by auto
  moreover have "dis_wq_post_rqe_cqe h wq e IB_WC_SUCCESS
      = Inr (0, cq_pushed h (wq_cq w) (cqe_of e IB_WC_SUCCESS))"
    using post_sqe_cqe_room [OF assms(8,4) refl assms(9)] by (simp add: post_rqe_eq_sqe)
  ultimately show ?thesis
    using p(2) assms(4,5) by (auto simp: consume_one_def dis_wq_consume_one_rqe_def finish_rqe_def)
qed

text \<open>The receive queue carried out, messages arriving whole.\<close>

lemma drain_receive:
  assumes "steady_receive kt lib m" "tracks_receive kt lib st upd" "whole_receive lib" "work_ok h wq"
    "get_wq h wq = Inr w" "wq_wq_type w = DIS_RQ" "cq_ok h (wq_cq w)"
    "length (cq_list h (wq_cq w)) + length (wq_list h wq) \<le> cq_cap h (wq_cq w)"
  shows "\<exists>h' s'. dis_wq_consume_all kt lib h s wq = Some (Inr (0, h', s')) \<and> wq_ok h' wq
    \<and> wq_list h' wq = [] \<and> cq_ok h' (wq_cq w)
    \<and> cq_list h' (wq_cq w) = cq_list h (wq_cq w) @ map (\<lambda>e. cqe_of e IB_WC_SUCCESS) (wq_list h wq)
    \<and> h_iov h' = h_iov h |` (- set (dyn_maps (wq_list h wq)))
    \<and> st s' = fold (\<lambda>e. upd (entry_message h w e)) (wq_list h wq) (st s)"
proof -
  have go: "\<not> fst (kthread_should_stop kt s) \<and> st (snd (kthread_should_stop kt s)) = st s" for s
    using assms(1,2) by (simp add: steady_receive_def tracks_receive_def)
  have one: "\<exists>s'. consume_one kt lib h s wq p =
        Some (Inr (IB_WC_SUCCESS, cq_pushed h (wq_cq w) (cqe_of e IB_WC_SUCCESS), s'))
        \<and> st s' = upd (entry_message h w e) (st s)"
    if "work_ok h wq" "get_wq h wq = Inr w" "wq_wq_type w = DIS_RQ" "wq_list h wq = e # es"
      "wq_front h wq = Inr (Some p)" "cq_ok h (wq_cq w)" "length (cq_list h (wq_cq w)) < cq_cap h (wq_cq w)"
    for h s p w e es
    using consume_one_receive_parts [OF assms(1,2) that, of s] assms(3) by (auto simp: entry_message_def)
  show ?thesis
    unfolding fold_served [of _ upd "entry_message h w"]
    by (rule drain_queue [OF _ go assms(4-6) refl refl assms(7,8)]) (rule one)
qed

text \<open>
  The receive queue carried out, messages arriving in parts: what was delivered for an entry makes up
  its length.
\<close>

type_synonym delivery = "sci_msq_queue_t \<times> iovec list \<times> u32"

definition filled_by :: "delivery \<Rightarrow> u32 list \<Rightarrow> bool" where
  "filled_by x ns \<longleftrightarrow> sum_list (map unat ns) = unat (snd (snd x))"

definition in_parts :: "delivery \<Rightarrow> u32 list \<Rightarrow> delivery list" where
  "in_parts x ns = map (\<lambda>n. (fst x, fst (snd x), n)) ns"

lemma served_parts:
  assumes "served (\<lambda>x v v'. \<exists>ns. filled_by x ns \<and> v' = v @ in_parts x ns) xs v v'"
  shows "\<exists>pss. list_all2 filled_by xs pss \<and> v' = v @ concat (map2 in_parts xs pss)"
  using assms
proof (induction xs arbitrary: v)
  case (Cons x xs)
  then obtain ns where ns: "filled_by x ns"
    "served (\<lambda>x v v'. \<exists>ns. filled_by x ns \<and> v' = v @ in_parts x ns) xs (v @ in_parts x ns) v'" by auto
  from Cons.IH [OF ns(2)] obtain pss where
    "list_all2 filled_by xs pss" "v' = (v @ in_parts x ns) @ concat (map2 in_parts xs pss)" by blast
  with ns(1) show ?case by (intro exI [of _ "ns # pss"]) simp
qed simp

lemma fold_record: "fold (\<lambda>n xs. xs @ [f n]) ns v = v @ map f ns"
  by (induction ns arbitrary: v) simp_all

lemma drain_receive_parts:
  assumes "steady_receive kt lib m" "tracks_receive kt lib delivered (\<lambda>x xs. xs @ [x])" "work_ok h wq"
    "get_wq h wq = Inr w" "wq_wq_type w = DIS_RQ" "cq_ok h (wq_cq w)"
    "length (cq_list h (wq_cq w)) + length (wq_list h wq) \<le> cq_cap h (wq_cq w)"
  shows "\<exists>h' s' pss. dis_wq_consume_all kt lib h s wq = Some (Inr (0, h', s')) \<and> wq_ok h' wq
    \<and> wq_list h' wq = [] \<and> cq_ok h' (wq_cq w)
    \<and> cq_list h' (wq_cq w) = cq_list h (wq_cq w) @ map (\<lambda>e. cqe_of e IB_WC_SUCCESS) (wq_list h wq)
    \<and> h_iov h' = h_iov h |` (- set (dyn_maps (wq_list h wq)))
    \<and> list_all2 filled_by (map (entry_message h w) (wq_list h wq)) pss
    \<and> delivered s' = delivered s @ concat (map2 in_parts (map (entry_message h w) (wq_list h wq)) pss)"
proof -
  have go: "\<not> fst (kthread_should_stop kt s) \<and> delivered (snd (kthread_should_stop kt s)) = delivered s" for s
    using assms(1,2) by (simp add: steady_receive_def tracks_receive_def)
  have one: "\<exists>s'. consume_one kt lib h s wq p =
        Some (Inr (IB_WC_SUCCESS, cq_pushed h (wq_cq w) (cqe_of e IB_WC_SUCCESS), s'))
        \<and> (\<exists>ns. filled_by (entry_message h w e) ns
          \<and> delivered s' = delivered s @ in_parts (entry_message h w e) ns)"
    if "work_ok h wq" "get_wq h wq = Inr w" "wq_wq_type w = DIS_RQ" "wq_list h wq = e # es"
      "wq_front h wq = Inr (Some p)" "cq_ok h (wq_cq w)" "length (cq_list h (wq_cq w)) < cq_cap h (wq_cq w)"
    for h s p w e es
    using consume_one_receive_parts [OF assms(1,2) that, of s 0]
    by (auto simp: entry_message_def filled_by_def in_parts_def fold_record)
  let ?R = "\<lambda>x v v'. \<exists>ns. filled_by x ns \<and> v' = v @ in_parts x ns"
  have "\<exists>h' s'. dis_wq_consume_all kt lib h s wq = Some (Inr (0, h', s')) \<and> wq_ok h' wq
      \<and> wq_list h' wq = [] \<and> cq_ok h' (wq_cq w)
      \<and> cq_list h' (wq_cq w) = cq_list h (wq_cq w) @ map (\<lambda>e. cqe_of e IB_WC_SUCCESS) (wq_list h wq)
      \<and> h_iov h' = h_iov h |` (- set (dyn_maps (wq_list h wq)))
      \<and> served ?R (map (entry_message h w) (wq_list h wq)) (delivered s) (delivered s')"
    by (rule drain_queue [OF _ go assms(3-5) refl refl assms(6,7)]) (rule one)
  then show ?thesis using served_parts by blast
qed

section \<open>A page map that is already gone\<close>

text \<open>
  \<open>page_map_dynamic\<close> is not reset when the map is freed, nor when the slot is used again for a
  request that fits the static map; so the slot then frees the map of the earlier request again.
\<close>

lemma release_map_stale:
  assumes "get_wqe h p = Inr e" "wqe_page_map_dynamic e \<noteq> NULL" "h_iov h (wqe_page_map_dynamic e) = None"
  shows "release_map h p = Inl BadFree"
  using assms by (simp add: release_map_def kfree_dead)

lemma consume_all_stale:
  assumes go: "\<And>s. \<not> fst (kthread_should_stop kt s)"
    and q: "wq_front h wq = Inr (Some p)" "get_wqe h p = Inr e"
    and stale: "wqe_page_map_dynamic e \<noteq> NULL" "h_iov h (wqe_page_map_dynamic e) = None"
    and one: "\<And>s. \<exists>s'. consume_one kt lib h s wq p = Some (Inr (IB_WC_SUCCESS, cq_pushed h cq x, s'))"
  shows "dis_wq_consume_all kt lib h s wq = Some (Inl BadFree)"
proof -
  obtain s1 where k: "kthread_should_stop kt s = (False, s1)"
    using go [of s] by (cases "kthread_should_stop kt s") auto
  obtain s2 where "consume_one kt lib h s1 wq p = Some (Inr (IB_WC_SUCCESS, cq_pushed h cq x, s2))"
    using one by blast
  moreover have "release_map (cq_pushed h cq x) p = Inl BadFree"
    using q(2) stale by (intro release_map_stale [of _ _ e]) (simp_all add: heap_simps)
  ultimately show ?thesis
    using k q(1) by (subst dis_wq_consume_all.simps) (cases p; simp)
qed

lemma cq_frame_post:
  "cq_ok (publish (store_wqe h m sl i e) r w c) p = cq_ok h p"
  "cq_list (publish (store_wqe h m sl i e) r w c) p = cq_list h p"
  "cq_cap (publish (store_wqe h m sl i e) r w c) p = cq_cap h p"
  by (simp_all add: publish_def cq_frame)
    (simp_all add: store_wqe_def cq_ok_def cq_list_def cq_cap_def split: option.splits)

section \<open>An example library and thread environment\<close>

text \<open>
  A library whose world is a countdown of calls it still refuses; and two thread environments, one
  that is never told to stop and one that is told after as many questions as the countdown.
\<close>

definition ex_lib :: "nat scilib" where
  "ex_lib = \<lparr>SCILInit = \<lambda>s. (SCI_ERR_OK, s), SCILReconf = \<lambda>s. (SCI_ERR_OK, s),
     SCILDestroy = \<lambda>s. (SCI_ERR_OK, s),
     SCILCreateMsgQueue = \<lambda>q a b i j k n s. (SCI_ERR_OK, 1, s),
     SCILConnectMsgQueue = \<lambda>q a b i j k n s. (SCI_ERR_NO_SUCH_SEGMENT, q, s),
     SCILRemoveMsgQueue = \<lambda>q s. (0, s), SCILDisconnectMsgQueue = \<lambda>q s. (0, s),
     SCILSendVMsg = \<lambda>q v n s. (if s = 0 then (SCI_ERR_OK, 0) else (SCI_ERR_EWOULD_BLOCK, s - 1)),
     SCILReceiveVMsg = \<lambda>q v n s. (if s = 0 then (SCI_ERR_OK, n, 0) else (SCI_ERR_EWOULD_BLOCK, n, s - 1))\<rparr>"

definition ex_running :: "nat kthread_env" where
  "ex_running = \<lparr>kthread_should_stop = \<lambda>s. (False, s), wait_event_killable = \<lambda>wq (h, s). (0, h, s)\<rparr>"

definition ex_stopping :: "nat kthread_env" where
  "ex_stopping = \<lparr>kthread_should_stop = \<lambda>s. (s = 0, s - 1), wait_event_killable = \<lambda>wq (h, s). (0, h, s)\<rparr>"

lemma ex_patient: "patient_send ex_running ex_lib id"
  by (simp add: patient_send_def ex_running_def ex_lib_def)

lemma ex_steady: "steady_receive ex_running ex_lib id"
  by (simp add: steady_receive_def ex_running_def ex_lib_def)

lemma ex_stop_clock: "stop_clock ex_stopping ex_lib id"
  by (simp add: stop_clock_def ex_stopping_def ex_lib_def)

text \<open>The example queue with one posted entry and a completion queue of capacity 3.\<close>

definition ex_entry :: dis_wqe where
  "ex_entry = zero_wqe\<lparr>wqe_sci_msq := Some (SqOf 2), wqe_wr_id := 77, wqe_byte_len := 5, wqe_ibqp := 2,
     wqe_sci_msg := \<lparr>msg_iov = IovStatic 0, msg_iovlen = 1\<rparr>,
     wqe_page_map_static := \<lparr>iov_base = 0x10800, iov_len = 5\<rparr> # replicate 3 zero_iovec\<rparr>"

definition ex_work_heap :: "dis_wqe \<Rightarrow> dis_wq_type \<Rightarrow> heap" where
  "ex_work_heap e ty = ex_wq_heap\<lparr>h_qp := [2 \<mapsto> zero_qp\<lparr>qp_ibqp_pd := 3,
       qp_sq := ex_wq\<lparr>wq_wqe_circ := \<lparr>circ_buf_mem = 4, circ_head = 1, circ_tail = 0\<rparr>, wq_wq_type := ty\<rparr>\<rparr>],
     h_wqe := [4 \<mapsto> e # replicate 3 zero_wqe],
     h_cq := [7 \<mapsto> zero_cq\<lparr>cq_cqe_max := 4, cq_cqe_circ := zero_circ\<lparr>circ_buf_mem := 8\<rparr>\<rparr>],
     h_cqe := [8 \<mapsto> replicate 4 zero_cqe]\<rparr>"

lemma ex_work_get: "get_wq (ex_work_heap e ty) (SqOf 2) =
    Inr (ex_wq\<lparr>wq_wqe_circ := \<lparr>circ_buf_mem = 4, circ_head = 1, circ_tail = 0\<rparr>, wq_wq_type := ty\<rparr>)"
  by (simp add: ex_work_heap_def kres_simps)

lemma ex_work_wq:
  assumes "length (wqe_page_map_static e) = 4"
  shows "wq_ok (ex_work_heap e ty) (SqOf 2)" "wq_list (ex_work_heap e ty) (SqOf 2) = [e]"
proof -
  show "wq_ok (ex_work_heap e ty) (SqOf 2)"
    using assms by (simp add: wq_ok_def ex_work_get del: get_wq.simps)
      (simp add: ex_work_heap_def ex_wq_heap_def ex_wq_def deref_Some circ_ok_def zero_wqe_def DIS_SGE_PER_WQE_def)
  have "h_wqe (ex_work_heap e ty) 4 = Some (e # replicate 3 zero_wqe)"
    by (simp add: ex_work_heap_def)
  then show "wq_list (ex_work_heap e ty) (SqOf 2) = [e]"
    by (simp add: wq_list_def ex_work_get ex_wq_def circ_list_def ring_list_def ring_cnt_def
        del: get_wq.simps)
qed

lemma ex_work_cq:
  "cq_ok (ex_work_heap e ty) 7" "cq_list (ex_work_heap e ty) 7 = []" "cq_cap (ex_work_heap e ty) 7 = 3"
  by (simp_all add: cq_ok_def cq_list_def cq_cap_def ex_work_heap_def zero_cq_def circ_ok_def zero_circ_def
      circ_list_def ring_list_def)

lemma ex_work_ok: "work_ok (ex_work_heap (ex_entry\<lparr>wqe_opcode := opc\<rparr>) ty) (SqOf 2)"
proof -
  let ?e = "ex_entry\<lparr>wqe_opcode := opc\<rparr>"
  have l: "length (wqe_page_map_static ?e) = 4" by (simp add: ex_entry_def)
  have "entry_ok (ex_work_heap ?e ty) (SqOf 2) ?e"
    by (simp add: entry_ok_def ex_entry_def msg_iovs_def zero_wqe_def Let_def)
  then show ?thesis
    using ex_work_wq [OF l] by (simp add: work_ok_def ex_entry_def zero_wqe_def)
qed

section \<open>Properties\<close>

text \<open>
  C4. The worker carries out a send queue. If the entries of the queue are ready (their segments can
  be read and their page maps are theirs alone), the thread is not told to stop, the library
  refuses a message only finitely often in a row, and the completion queue has room, then
  \<open>dis_wq_consume_all\<close> returns 0, the work queue is empty, the completion queue has got exactly one
  successful completion per entry, in the order of the entries and with their identifiers and
  lengths, and exactly the page maps of the entries were freed.
\<close>

theorem send_queue_drained:
  assumes "patient_send kt lib m" "work_ok h wq" "get_wq h wq = Inr w" "wq_wq_type w = DIS_SQ"
    "cq_ok h (wq_cq w)" "length (cq_list h (wq_cq w)) + length (wq_list h wq) \<le> cq_cap h (wq_cq w)"
  shows "\<exists>h' s'. dis_wq_consume_all kt lib h s wq = Some (Inr (0, h', s')) \<and> wq_ok h' wq
    \<and> wq_list h' wq = [] \<and> cq_ok h' (wq_cq w)
    \<and> cq_list h' (wq_cq w) = cq_list h (wq_cq w) @ map (\<lambda>e. cqe_of e IB_WC_SUCCESS) (wq_list h wq)
    \<and> h_iov h' = h_iov h |` (- set (dyn_maps (wq_list h wq)))"
  using drain_send [OF assms(1) tracks_nothing assms(2-6)] by blast

theorem send_queue_drained_witness:
  "\<exists>h' s'. dis_wq_consume_all ex_running ex_lib (ex_work_heap ex_entry DIS_SQ) 3 (SqOf 2) = Some (Inr (0, h', s'))
    \<and> wq_list h' (SqOf 2) = [] \<and> cq_list h' 7 = [cqe_of ex_entry IB_WC_SUCCESS]"
proof -
  have e: "ex_entry = ex_entry\<lparr>wqe_opcode := 0\<rparr>" "length (wqe_page_map_static ex_entry) = 4"
    by (simp_all add: ex_entry_def zero_wqe_def)
  have "wq_cq ex_wq = 7" by (simp add: ex_wq_def)
  then show ?thesis
    using send_queue_drained [OF ex_patient, of "ex_work_heap ex_entry DIS_SQ" "SqOf 2"]
      ex_work_ok [of 0 DIS_SQ] e ex_work_get [of ex_entry DIS_SQ] ex_work_cq [of ex_entry DIS_SQ]
      ex_work_wq [OF e(2), of DIS_SQ]
    by (fastforce simp del: get_wq.simps)
qed

text \<open>
  C5. The worker carries out a receive queue in the same way. Messages may arrive in parts: each
  receive is completed exactly when all the bytes it was posted for have come in. What the library
  delivered while the queue was carried out is, entry by entry in the order of the queue, a sequence of
  parts whose lengths add up to the length of the entry, each delivered into the segments of the
  entry; and each completion carries the full length of its entry.
\<close>

theorem receive_queue_drained:
  assumes "steady_receive kt lib m" "tracks_receive kt lib delivered (\<lambda>x xs. xs @ [x])" "work_ok h wq"
    "get_wq h wq = Inr w" "wq_wq_type w = DIS_RQ" "cq_ok h (wq_cq w)"
    "length (cq_list h (wq_cq w)) + length (wq_list h wq) \<le> cq_cap h (wq_cq w)"
  shows "\<exists>h' s' pss. dis_wq_consume_all kt lib h s wq = Some (Inr (0, h', s')) \<and> wq_ok h' wq
    \<and> wq_list h' wq = [] \<and> cq_ok h' (wq_cq w)
    \<and> cq_list h' (wq_cq w) = cq_list h (wq_cq w) @ map (\<lambda>e. cqe_of e IB_WC_SUCCESS) (wq_list h wq)
    \<and> h_iov h' = h_iov h |` (- set (dyn_maps (wq_list h wq)))
    \<and> list_all2 (\<lambda>e ns. sum_list (map unat ns) = unat (wqe_byte_len e)) (wq_list h wq) (pss :: u32 list list)
    \<and> delivered s' = delivered s @ concat (map2 (\<lambda>e ns. map (\<lambda>n. (wq_sci_msq w, entry_iovs h e, n)) ns)
        (wq_list h wq) pss)"
proof -
  have parts: "map2 in_parts (map (entry_message h w) es) pss
      = map2 (\<lambda>e ns. map (\<lambda>n. (wq_sci_msq w, entry_iovs h e, n)) ns) es pss" for es pss
    by (simp add: zip_map1 in_parts_def entry_message_def split_beta comp_def)
  have filled: "list_all2 filled_by (map (entry_message h w) es) pss
      = list_all2 (\<lambda>e ns. sum_list (map unat ns) = unat (wqe_byte_len e)) es pss" for es pss
    by (simp add: list_all2_map1 filled_by_def entry_message_def)
  show ?thesis using drain_receive_parts [OF assms, of s] unfolding parts filled .
qed

text \<open>A library that delivers at most two bytes at a time, and records what it delivered.\<close>

definition ex_parts_lib :: "delivery list scilib" where
  "ex_parts_lib = \<lparr>SCILInit = \<lambda>s. (SCI_ERR_OK, s), SCILReconf = \<lambda>s. (SCI_ERR_OK, s),
     SCILDestroy = \<lambda>s. (SCI_ERR_OK, s),
     SCILCreateMsgQueue = \<lambda>q a b i j k n s. (SCI_ERR_OK, 1, s),
     SCILConnectMsgQueue = \<lambda>q a b i j k n s. (SCI_ERR_OK, q, s),
     SCILRemoveMsgQueue = \<lambda>q s. (0, s), SCILDisconnectMsgQueue = \<lambda>q s. (0, s),
     SCILSendVMsg = \<lambda>q v n s. (SCI_ERR_OK, s),
     SCILReceiveVMsg = \<lambda>q v n s. (SCI_ERR_OK, min 2 n, s @ [(q, v, min 2 n)])\<rparr>"

definition ex_parts_running :: "delivery list kthread_env" where
  "ex_parts_running = \<lparr>kthread_should_stop = \<lambda>s. (False, s), wait_event_killable = \<lambda>wq (h, s). (0, h, s)\<rparr>"

theorem receive_queue_drained_witness:
  "\<exists>h' s' ns. dis_wq_consume_all ex_parts_running ex_parts_lib (ex_work_heap ex_entry DIS_RQ) [] (SqOf 2) = Some (Inr (0, h', s'))
    \<and> wq_list h' (SqOf 2) = [] \<and> cq_list h' 7 = [cqe_of ex_entry IB_WC_SUCCESS]
    \<and> map (\<lambda>(q, v, n). n) s' = ns \<and> sum_list (map unat ns) = 5"
proof -
  let ?h = "ex_work_heap ex_entry DIS_RQ"
  have e: "ex_entry = ex_entry\<lparr>wqe_opcode := 0\<rparr>" "length (wqe_page_map_static ex_entry) = 4" "wqe_byte_len ex_entry = 5"
    by (simp_all add: ex_entry_def zero_wqe_def)
  have lib: "steady_receive ex_parts_running ex_parts_lib (\<lambda>_. 0)"
    "tracks_receive ex_parts_running ex_parts_lib id (\<lambda>x xs. xs @ [x])"
    by (auto simp: steady_receive_def tracks_receive_def ex_parts_running_def ex_parts_lib_def min_def split: if_splits)
  have "wq_cq ex_wq = 7" by (simp add: ex_wq_def)
  then have "\<exists>h' s' (pss :: u32 list list). dis_wq_consume_all ex_parts_running ex_parts_lib ?h [] (SqOf 2) = Some (Inr (0, h', s'))
    \<and> wq_list h' (SqOf 2) = [] \<and> cq_list h' 7 = [cqe_of ex_entry IB_WC_SUCCESS]
    \<and> list_all2 (\<lambda>e ns. sum_list (map unat ns) = unat (wqe_byte_len e)) [ex_entry] pss
    \<and> s' = concat (map2 (\<lambda>e ns. map (\<lambda>n. (wq_sci_msq ex_wq, entry_iovs ?h e, n)) ns) [ex_entry] pss)"
    using receive_queue_drained [OF lib, of ?h "SqOf 2" _ "[]"]
      ex_work_ok [of 0 DIS_RQ] e(1) ex_work_get [of ex_entry DIS_RQ] ex_work_cq [of ex_entry DIS_RQ]
      ex_work_wq [OF e(2), of DIS_RQ]
    by (fastforce simp del: get_wq.simps)
  then show ?thesis by (auto simp: list_all2_Cons1 e(3) comp_def)
qed

text \<open>
  C10. The thread ends. If the stop flag is eventually seen set, the thread function returns from
  every state, whatever the library answers (or runs into a fault); and when it returns, with or
  without an error, its work queue is marked \<open>DIS_WQ_EXITED\<close>.
\<close>

theorem thread_ends_exited:
  assumes "stop_clock kt lib m"
  shows "\<exists>x. dis_wq_thread kt par lib h s wq = Some x
    \<and> (case x of Inl f \<Rightarrow> True | Inr (ret, h', s') \<Rightarrow>
         \<exists>w. get_wq h' wq = Inr w \<and> wq_wq_state w = DIS_WQ_EXITED)"
proof -
  obtain x where x: "dis_wq_thread kt par lib h s wq = Some x" using thread_returns [OF assms] by blast
  then show ?thesis
    using thread_exited [of kt par lib h s wq] by (cases x) (auto split: prod.splits)
qed

theorem thread_ends_exited_witness:
  "\<exists>x. dis_wq_thread ex_stopping default_params ex_lib (ex_work_heap ex_entry DIS_SQ) 5 (SqOf 2) = Some x"
  using thread_ends_exited [OF ex_stop_clock] by blast

text \<open>An entry whose segments fit the static map: its message is that map, and it keeps the pointer it finds.\<close>

lemma static_entry_fields:
  assumes "wq_ok h r" "get_wq h r = Inr w" "h_wqe h (circ_buf_mem (wq_wqe_circ w)) = Some slots"
    "request_in_user_mrs h (wq_pd h r) wr" "request_count h (wq_pd h r) wr \<le> 4"
  defines "slot \<equiv> slots ! unat (circ_head (wq_wqe_circ w))"
  defines "e \<equiv> static_entry (ucast IB_WC_SEND) h r w wr slot"
  shows "length (wqe_page_map_static e) = DIS_SGE_PER_WQE" "wqe_sci_msq e = Some r"
    "wqe_page_map_dynamic e = wqe_page_map_dynamic slot" "\<exists>iovs. msg_iovs h' e = Inr iovs"
proof -
  from assms(1-3) have "circ_ok (wq_wqe_circ w) (wq_wqe_max w) slots"
    "\<forall>e \<in> set slots. length (wqe_page_map_static e) = 4"
    by (auto elim!: wq_okE simp: DIS_SGE_PER_WQE_def)
  with circ_ok_bounds(4,6) [OF this(1)] have st: "length (wqe_page_map_static slot) = 4"
    by (simp add: slot_def)
  have cnt: "length (request_chunks h (wq_pd h r) wr) \<le> 4"
    using request_chunks_count [OF assms(4)] assms(5) by simp
  show e: "length (wqe_page_map_static e) = DIS_SGE_PER_WQE" "wqe_sci_msq e = Some r"
    "wqe_page_map_dynamic e = wqe_page_map_dynamic slot"
    using st cnt by (simp_all add: e_def static_entry_def begun_entry_def overlay_length DIS_SGE_PER_WQE_def Let_def)
  have "unat (of_nat (request_count h (wq_pd h r) wr) :: u64) \<le> length (wqe_page_map_static e)"
    using e(1) assms(5) by (simp add: DIS_SGE_PER_WQE_def unat_of_nat)
  then show "\<exists>iovs. msg_iovs h' e = Inr iovs"
    using e(1) by (fastforce simp: e_def msg_iovs_def static_entry_def begun_entry_def Let_def DIS_SGE_PER_WQE_def)
qed

text \<open>
  C31. Double free after slot reuse. Let the send queue be empty, with room, and let the slot the next
  request goes to hold the pointer of a page map that is gone, which is how a request with a
  separate page map leaves its slot. Then a request that fits the static map is accepted, and the
  worker, after completing it, frees the pointer a second time.
\<close>

theorem reused_slot_double_free:
  assumes "patient_send kt lib m" "wq_ok h r" "get_wq h r = Inr w" "wq_wq_type w = DIS_SQ"
    "wq_list h r = []" "0 < wq_cap h r" "h_wqe h (circ_buf_mem (wq_wqe_circ w)) = Some slots"
    "request_in_user_mrs h (wq_pd h r) wr" "request_count h (wq_pd h r) wr \<le> 4" "iov_sized env"
    "wqe_page_map_dynamic (slots ! unat (circ_head (wq_wqe_circ w))) = p" "p \<noteq> NULL" "h_iov h p = None"
    "cq_ok h (wq_cq w)" "length (cq_list h (wq_cq w)) < cq_cap h (wq_cq w)"
  shows "\<exists>h'. dis_qp_post_one_sqe env h r wr = Inr (0, h')
    \<and> dis_wq_consume_all kt lib h' s r = Some (Inl BadFree)"
proof -
  let ?slot = "slots ! unat (circ_head (wq_wqe_circ w))" and ?mem = "circ_buf_mem (wq_wqe_circ w)"
  let ?e = "static_entry (ucast IB_WC_SEND) h r w wr ?slot"
  let ?h = "publish (store_wqe h ?mem slots (unat (circ_head (wq_wqe_circ w))) ?e) r w
      (int_to_ulong (circ_head (wq_wqe_circ w)))"
  have room: "length (wq_list h r) < wq_cap h r" using assms(5,6) by simp
  have post: "dis_qp_post_one_sqe env h r wr = Inr (0, ?h)"
    using post_one_request [OF assms(2) room assms(3,7,8) _ assms(10), of "ucast IB_WC_SEND"] assms(9)
    by (simp add: post_sqe_one DIS_SGE_PER_WQE_def)
  note fields = static_entry_fields [OF assms(2,3,7,8,9)]
  note e = fields(1,2)
  from fields(4) obtain iovs where iovs: "msg_iovs ?h ?e = Inr iovs" by blast
  note q = publish_wqe [OF assms(2,3,7) room e(1)]
  from wq_front_some [OF q(1), of ?e "[]"] q(2) assms(5) obtain mem i where
    f: "wq_front ?h r = Inr (Some (mem, i))" "get_wqe ?h (mem, i) = Inr ?e" by auto
  let ?w = "w\<lparr>wq_wqe_circ := (wq_wqe_circ w)\<lparr>circ_head :=
     circ_next (int_to_ulong (circ_head (wq_wqe_circ w))) (wq_wqe_max w)\<rparr>\<rparr>"
  have g: "get_wq ?h r = Inr ?w" using assms(3) by (simp add: publish_def heap_simps)
  have cq: "cq_ok ?h (wq_cq ?w)" "length (cq_list ?h (wq_cq ?w)) < cq_cap ?h (wq_cq ?w)"
    using assms(14,15) by (simp_all add: cq_frame_post)
  have "\<exists>s'. consume_one kt lib ?h s r (mem, i) =
      Some (Inr (IB_WC_SUCCESS, cq_pushed ?h (wq_cq ?w) (cqe_of ?e IB_WC_SUCCESS), s'))" for s
    using consume_one_sqe_succeeds [OF assms(1) tracks_nothing f(2) e(2) iovs g _ cq] assms(4) by simp
  moreover have "\<not> fst (kthread_should_stop kt s)" for s using assms(1) by (simp add: patient_send_def)
  moreover have "h_iov ?h (wqe_page_map_dynamic ?e) = None" "wqe_page_map_dynamic ?e \<noteq> 0"
    using assms(11-13) fields(3) by (simp_all add: heap_simps)
  ultimately have "dis_wq_consume_all kt lib ?h s r = Some (Inl BadFree)"
    by (intro consume_all_stale [OF _ f, where cq = "wq_cq ?w" and x = "cqe_of ?e IB_WC_SUCCESS"])
  with post show ?thesis by blast
qed

text \<open>The example queue, empty, with the pointer \<open>q\<close> in the page map field of its first slot.\<close>

definition ex_slot_heap :: "ptr \<Rightarrow> heap" where
  "ex_slot_heap q = ex_wq_heap\<lparr>h_wqe := [4 \<mapsto> zero_wqe\<lparr>wqe_page_map_dynamic := q\<rparr> # replicate 3 zero_wqe],
     h_cq := [7 \<mapsto> zero_cq\<lparr>cq_cqe_max := 4, cq_cqe_circ := zero_circ\<lparr>circ_buf_mem := 8\<rparr>\<rparr>],
     h_cqe := [8 \<mapsto> replicate 4 zero_cqe]\<rparr>"

lemma ex_slot_queue:
  "get_wq (ex_slot_heap q) (SqOf 2) = Inr ex_wq" "wq_ok (ex_slot_heap q) (SqOf 2)"
  "wq_list (ex_slot_heap q) (SqOf 2) = []" "wq_cap (ex_slot_heap q) (SqOf 2) = 3" "wq_pd (ex_slot_heap q) (SqOf 2) = 3"
proof -
  show g: "get_wq (ex_slot_heap q) (SqOf 2) = Inr ex_wq"
    by (simp add: ex_slot_heap_def ex_wq_heap_def kres_simps)
  show "wq_ok (ex_slot_heap q) (SqOf 2)"
    by (simp add: wq_ok_def g del: get_wq.simps)
      (simp add: ex_slot_heap_def ex_wq_heap_def ex_wq_def deref_Some circ_ok_def zero_wqe_def zero_circ_def
        DIS_SGE_PER_WQE_def)
  show "wq_list (ex_slot_heap q) (SqOf 2) = []" "wq_cap (ex_slot_heap q) (SqOf 2) = 3" "wq_pd (ex_slot_heap q) (SqOf 2) = 3"
    by (simp_all add: wq_list_def wq_cap_def wq_pd_def g del: get_wq.simps)
      (simp_all add: ex_slot_heap_def ex_wq_heap_def ex_wq_def circ_list_def zero_circ_def ring_list_def)
qed

lemma ex_slot_request:
  "request_in_user_mrs (ex_slot_heap q) 3 (ex_request 0x8800 0x1000 0)"
  "request_count (ex_slot_heap q) 3 (ex_request 0x8800 0x1000 0) = 2"
proof -
  have same: "h_pd (ex_slot_heap q) = h_pd ex_wq_heap" "h_mr (ex_slot_heap q) = h_mr ex_wq_heap"
    "h_iov (ex_slot_heap q) = h_iov ex_wq_heap"
    by (simp_all add: ex_slot_heap_def)
  have "user_span (ex_slot_heap q) 3 = user_span ex_wq_heap 3"
    by (intro ext) (simp only: user_span_def same)
  then show "request_in_user_mrs (ex_slot_heap q) 3 (ex_request 0x8800 0x1000 0)"
    "request_count (ex_slot_heap q) 3 (ex_request 0x8800 0x1000 0) = 2"
    using ex_request_user by (simp_all add: request_in_user_mrs_def request_count_def span_count_def [abs_def])
qed

lemma ex_slot_cq:
  "cq_ok (ex_slot_heap q) 7" "cq_list (ex_slot_heap q) 7 = []" "cq_cap (ex_slot_heap q) 7 = 3"
  by (simp_all add: cq_ok_def cq_list_def cq_cap_def ex_slot_heap_def zero_cq_def circ_ok_def zero_circ_def
      circ_list_def ring_list_def)

lemma ex_wq_fields: "wq_cq ex_wq = 7" "wq_wq_type ex_wq = DIS_SQ" "circ_buf_mem (wq_wqe_circ ex_wq) = 4"
  "circ_head (wq_wqe_circ ex_wq) = 0" "wq_wqe_max ex_wq = 4" "wq_ibqp ex_wq = 2" "wq_sci_msq ex_wq = 0"
  by (simp_all add: ex_wq_def zero_wq_def zero_circ_def)

theorem reused_slot_double_free_witness:
  "\<exists>h'. dis_qp_post_one_sqe roomy_env (ex_slot_heap 20) (SqOf 2) (ex_request 0x8800 0x1000 0) = Inr (0, h')
    \<and> dis_wq_consume_all ex_running ex_lib h' 3 (SqOf 2) = Some (Inl BadFree)"
proof -
  have "h_iov (ex_slot_heap 20) 20 = None"
    "h_wqe (ex_slot_heap 20) 4 = Some (zero_wqe\<lparr>wqe_page_map_dynamic := 20\<rparr> # replicate 3 zero_wqe)"
    by (simp_all add: ex_slot_heap_def ex_wq_heap_def)
  then show ?thesis
    using reused_slot_double_free [OF ex_patient ex_slot_queue(2,1) [of 20] ex_wq_fields(2) ex_slot_queue(3),
        of _ "ex_request 0x8800 0x1000 0" roomy_env 20]
    by (simp add: ex_slot_queue ex_slot_request ex_slot_cq ex_wq_fields roomy_iov_sized del: get_wq.simps)
qed

section \<open>Stopping\<close>

definition stop_sticky :: "'w kthread_env \<Rightarrow> bool" where
  \<comment> \<open>once told to stop, the thread is told so again\<close>
  "stop_sticky kt \<longleftrightarrow> (\<forall>s. fst (kthread_should_stop kt s) \<longrightarrow>
     fst (kthread_should_stop kt (snd (kthread_should_stop kt s))))"

definition send_refused :: "'w scilib \<Rightarrow> bool" where
  \<comment> \<open>the connection is broken: no message is ever accepted\<close>
  "send_refused lib \<longleftrightarrow> (\<forall>q v n s. fst (SCILSendVMsg lib q v n s) \<noteq> SCI_ERR_OK)"

lemma sqe_loop_times_out:
  assumes "stop_clock kt lib m" "stop_sticky kt" "send_refused lib" "get_wqe h p = Inr e"
    "wqe_sci_msq e = Some wq" "msg_iovs h e = Inr iovs" "get_wq h wq = Inr w"
  shows "\<exists>s'. sqe_loop kt lib h s wq p fc = Some (finish_sqe h s' wq p IB_WC_RESP_TIMEOUT_ERR)
    \<and> fst (kthread_should_stop kt s')"
proof (induction "m s" arbitrary: s fc rule: less_induct)
  case less
  obtain stop s1 where k: "kthread_should_stop kt s = (stop, s1)" by fastforce
  show ?case
  proof (cases stop)
    case True
    with k assms(2) have "fst (kthread_should_stop kt s1)"
      unfolding stop_sticky_def by (metis fst_conv snd_conv)
    with k True show ?thesis by (subst sqe_loop.simps) auto
  next
    case False
    let ?r = "SCILSendVMsg lib (wq_sci_msq w) iovs (wqe_byte_len e) s1"
    have call: "dis_sci_if_send_v_msg lib h s1 p = Inr (-42, snd ?r)"
      using assms(3) by (simp add: dis_sci_if_send_v_msg_def split_beta Let_def assms(4,6)
          handle_of_wq [OF assms(5,7)] send_refused_def)
    then have "m (snd ?r) < m s"
      using k False stop_clockD(1) [OF assms(1), of s s1] stop_clockD(4) [OF assms(1) call] by simp
    with less [of "snd ?r"] k False call show ?thesis
      by (subst sqe_loop.simps) auto
  qed
qed

text \<open>
  C37. Stopping completes one request, not all. When the connection is broken and the thread, at work
  on its queue, is told to stop, then \<open>dis_wq_consume_all\<close> posts a timeout completion for the entry
  at the front, frees its page map, returns -42, and leaves the other entries in the queue without
  any completion.
\<close>

theorem stop_completes_front_only:
  assumes "stop_clock kt lib m" "stop_sticky kt" "send_refused lib"
    "\<not> fst (kthread_should_stop kt s)" "work_ok h wq" "get_wq h wq = Inr w" "wq_wq_type w = DIS_SQ"
    "wq_list h wq = e # es" "cq_ok h (wq_cq w)" "length (cq_list h (wq_cq w)) < cq_cap h (wq_cq w)"
  shows "\<exists>h' s'. dis_wq_consume_all kt lib h s wq = Some (Inr (-42, h', s')) \<and> work_ok h' wq
    \<and> wq_list h' wq = es \<and> h_iov h' = h_iov h |` (- set (dyn_maps [e]))
    \<and> cq_list h' (wq_cq w) = cq_list h (wq_cq w) @ [cqe_of e IB_WC_RESP_TIMEOUT_ERR]"
proof -
  let ?c = "cqe_of e IB_WC_RESP_TIMEOUT_ERR"
  obtain s1 where k: "kthread_should_stop kt s = (False, s1)"
    using assms(4) by (cases "kthread_should_stop kt s") auto
  have wq: "wq_ok h wq" and e: "entry_ok h wq e" using assms(5,8) by (auto simp: work_ok_def)
  from wq_front_some [OF wq assms(8)] obtain mem i where
    p: "wq_front h wq = Inr (Some (mem, i))" "get_wqe h (mem, i) = Inr e" by blast
  from e assms(6) obtain iovs where v: "msg_iovs h e = Inr iovs" by (rule entry_msg)
  have "wqe_sci_msq e = Some wq" using e by (simp add: entry_ok_def)
  from sqe_loop_times_out [OF assms(1-3) p(2) this v assms(6), of s1 0] obtain s2 where
    s2: "sqe_loop kt lib h s1 wq (mem, i) 0 = Some (finish_sqe h s2 wq (mem, i) IB_WC_RESP_TIMEOUT_ERR)"
      "fst (kthread_should_stop kt s2)" by blast
  have one: "consume_one kt lib h s1 wq (mem, i) =
      Some (Inr (IB_WC_RESP_TIMEOUT_ERR, cq_pushed h (wq_cq w) ?c, s2))"
    using s2(1) p(2) assms(6,7) post_sqe_cqe_room [OF assms(9,6) refl assms(10)]
    by (simp add: consume_one_def dis_wq_consume_one_sqe_def finish_sqe_def)
  from consume_step [OF assms(5,8,6,9,10) p(1), of ?c] obtain h3 where
    h3: "rbind (release_map (cq_pushed h (wq_cq w) ?c) (mem, i)) (\<lambda>h2. wq_advance h2 wq) = Inr h3"
      "work_ok h3 wq" "wq_list h3 wq = es" "h_iov h3 = h_iov h |` (- set (dyn_maps [e]))"
      "cq_list h3 (wq_cq w) = cq_list h (wq_cq w) @ [?c]" by blast
  obtain s3 where "kthread_should_stop kt s2 = (True, s3)"
    using s2(2) by (cases "kthread_should_stop kt s2") auto
  then have "dis_wq_consume_all kt lib h3 s2 wq = Some (Inr (-42, h3, s3))"
    by (simp add: dis_wq_consume_all.simps)
  then have "dis_wq_consume_all kt lib h s wq = Some (Inr (-42, h3, s3))"
    using k p(1) one h3(1) by (subst dis_wq_consume_all.simps) simp
  with h3 show ?thesis by blast
qed

definition ex_broken_lib :: "nat scilib" where
  "ex_broken_lib = ex_lib\<lparr>SCILSendVMsg := \<lambda>q v n s. (SCI_ERR_NOT_CONNECTED, s)\<rparr>"

theorem stop_completes_front_only_witness:
  "\<exists>h' s'. dis_wq_consume_all ex_stopping ex_broken_lib (ex_work_heap ex_entry DIS_SQ) 3 (SqOf 2)
      = Some (Inr (-42, h', s')) \<and> wq_list h' (SqOf 2) = []
    \<and> cq_list h' 7 = [cqe_of ex_entry IB_WC_RESP_TIMEOUT_ERR]"
proof -
  have e: "ex_entry = ex_entry\<lparr>wqe_opcode := 0\<rparr>" "length (wqe_page_map_static ex_entry) = 4"
    by (simp_all add: ex_entry_def zero_wqe_def)
  have "stop_clock ex_stopping ex_broken_lib id" "stop_sticky ex_stopping" "send_refused ex_broken_lib"
    "\<not> fst (kthread_should_stop ex_stopping 3)" "wq_cq ex_wq = 7"
    by (simp_all add: stop_clock_def ex_stopping_def ex_broken_lib_def ex_lib_def stop_sticky_def
        send_refused_def ex_wq_def)
  then show ?thesis
    using stop_completes_front_only [of ex_stopping ex_broken_lib id 3 "ex_work_heap ex_entry DIS_SQ" "SqOf 2"]
      ex_work_ok [of 0 DIS_SQ] e ex_work_get [of ex_entry DIS_SQ] ex_work_cq [of ex_entry DIS_SQ]
      ex_work_wq [OF e(2), of DIS_SQ]
    by (fastforce simp del: get_wq.simps)
qed

end
