(* ===== verification/Queue_Pair.thy ===== *)
theory Queue_Pair
  imports Memory_Region Completion_Queue Work_Queue
begin

text \<open>
  Queue pairs: creation, state changes, posting lists of requests and destruction (\<open>dis_verbs.c\<close>),
  and the start and end of their worker threads (\<open>dis_qp_init\<close>, \<open>dis_qp_notify\<close> and \<open>dis_qp_exit\<close> of
  \<open>dis_qp.c\<close>).
\<close>

section \<open>Creation\<close>

text \<open>The fields of \<open>struct ib_qp_init_attr\<close> that the driver reads, its \<open>cap\<close> included.\<close>

record qp_init_attr =
  ia_send_cq :: ptr
  ia_recv_cq :: ptr
  ia_srq :: ptr
  ia_sq_sig_type :: u32
  ia_qp_type :: u32
  ia_event_handler :: u64
  ia_max_send_wr :: u32
  ia_max_recv_wr :: u32
  ia_max_send_sge :: u32
  ia_max_recv_sge :: u32
  ia_max_inline_data :: u32

definition to_dis_qp :: "ptr \<Rightarrow> ptr" where
  "to_dis_qp ibqp = (if ibqp \<noteq> NULL then ibqp else NULL)"

definition to_dis_cq :: "ptr \<Rightarrow> ptr" where
  "to_dis_cq ibcq = (if ibcq \<noteq> NULL then ibcq else NULL)"

lemma container_qp_simps [simp]: "to_dis_qp p = p" "to_dis_cq p = p"
  by (simp_all add: to_dis_qp_def to_dis_cq_def)

text \<open>\<open>kzalloc\<close> of an array of zeroed work queue entries.\<close>

definition new_wqes :: "heap \<Rightarrow> u32 \<Rightarrow> heap" where
  "new_wqes h n = h\<lparr>h_next := Suc (h_next h), h_wqe := (h_wqe h)(h_next h \<mapsto> replicate (unat n) zero_wqe)\<rparr>"

definition put_qp :: "heap \<Rightarrow> ptr \<Rightarrow> dis_qp \<Rightarrow> heap" where
  "put_qp h p qp = h\<lparr>h_qp := (h_qp h)(p \<mapsto> qp)\<rparr>"

definition qp_attrs :: "dis_pd \<Rightarrow> ptr \<Rightarrow> qp_init_attr \<Rightarrow> dis_qp" where
  "qp_attrs pd ibpd ia = zero_qp
     \<lparr>qp_dev := to_dis_dev (pd_ibpd_device pd), qp_sq_sig_type := ia_sq_sig_type ia,
      qp_type := ia_qp_type ia, qp_state := IB_QPS_RESET, qp_mtu := ib_mtu_enum_to_int IB_MTU_4096,
      qp_l_qpn := pd_qp_c pd, qp_event_handler := ia_event_handler ia, qp_ibqp_pd := ibpd,
      qp_ibqp_send_cq := ia_send_cq ia, qp_ibqp_recv_cq := ia_recv_cq ia, qp_ibqp_srq := ia_srq ia,
      qp_ibqp_qp_type := ia_qp_type ia, qp_ibqp_qp_num := pd_qp_c pd\<rparr>"

definition sq_attrs :: "ptr \<Rightarrow> qp_init_attr \<Rightarrow> u32 \<Rightarrow> dis_wq \<Rightarrow> dis_wq" where
  "sq_attrs ibqp ia wqe_max w = w\<lparr>wq_ibqp := ibqp, wq_cq := to_dis_cq (ia_send_cq ia),
     wq_sge_max := ia_max_send_sge ia, wq_inline_max := ia_max_inline_data ia,
     wq_wqe_max := wqe_max, wq_wq_type := DIS_SQ\<rparr>"

definition rq_attrs :: "ptr \<Rightarrow> qp_init_attr \<Rightarrow> u32 \<Rightarrow> dis_wq \<Rightarrow> dis_wq" where
  "rq_attrs ibqp ia wqe_max w = w\<lparr>wq_ibqp := ibqp, wq_cq := to_dis_cq (ia_recv_cq ia),
     wq_sge_max := ia_max_recv_sge ia, wq_inline_max := ia_max_inline_data ia,
     wq_wqe_max := wqe_max, wq_wq_type := DIS_RQ\<rparr>"

definition set_buf :: "dis_wq \<Rightarrow> ptr \<Rightarrow> dis_wq" where
  "set_buf w buf = w\<lparr>wq_wqe_circ := (wq_wqe_circ w)\<lparr>circ_buf_mem := buf\<rparr>\<rparr>"

definition register_qp :: "heap \<Rightarrow> ptr \<Rightarrow> ptr \<Rightarrow> (ptr \<times> heap) kres" where
  "register_qp h pdp qpp =
     rbind (deref (h_pd h) pdp) (\<lambda>pd.
     rbind (array_put (pd_qp_list pd) (unat (pd_qp_c pd)) qpp) (\<lambda>lst.
     Inr (qpp, h\<lparr>h_pd := (h_pd h)(pdp \<mapsto> pd\<lparr>pd_qp_list := lst, pd_qp_c := pd_qp_c pd + 1\<rparr>)\<rparr>)))"

text \<open>The result is \<open>NULL\<close> on every error path.\<close>

definition dis_create_qp :: "kenv \<Rightarrow> heap \<Rightarrow> ptr \<Rightarrow> qp_init_attr \<Rightarrow> (ptr \<times> heap) kres" where
  "dis_create_qp env h ibpd ia =
     rbind (deref (h_pd h) (to_dis_pd ibpd)) (\<lambda>pd.
     if pd_qp_c pd \<ge> DIS_QP_MAX then Inr (NULL, h)
     else if \<not> k_alloc env h AllocQp then Inr (NULL, h)
     else
       let qpp = h_next h; qp = qp_attrs pd ibpd ia in
       rbind (roundup_pow_of_two (ucast (ia_max_send_wr ia + 1))) (\<lambda>n.
       let sq = sq_attrs qpp ia (ucast n) (qp_sq qp);
           h1 = put_qp (h\<lparr>h_next := Suc qpp\<rparr>) qpp (qp\<lparr>qp_sq := sq\<rparr>) in
       if \<not> k_alloc env h1 (AllocWqes DIS_SQ (wq_wqe_max sq)) then
         rbind (kfree (h_qp h1) qpp) (\<lambda>qps. Inr (NULL, h1\<lparr>h_qp := qps\<rparr>))
       else
         let sqbuf = h_next h1; sq1 = set_buf sq sqbuf; h2 = new_wqes h1 (wq_wqe_max sq) in
         rbind (roundup_pow_of_two (ucast (ia_max_recv_wr ia + 1))) (\<lambda>m.
         let rq = rq_attrs qpp ia (ucast m) (qp_rq qp);
             h3 = put_qp h2 qpp (qp\<lparr>qp_sq := sq1, qp_rq := rq\<rparr>) in
         if \<not> k_alloc env h3 (AllocWqes DIS_RQ (wq_wqe_max rq)) then
           rbind (kfree (h_wqe h3) sqbuf) (\<lambda>wqes.
           rbind (kfree (h_qp h3) qpp) (\<lambda>qps. Inr (NULL, h3\<lparr>h_wqe := wqes, h_qp := qps\<rparr>)))
         else
           let rq1 = set_buf rq (h_next h3); h4 = new_wqes h3 (wq_wqe_max rq) in
           register_qp (put_qp h4 qpp (qp\<lparr>qp_sq := sq1, qp_rq := rq1\<rparr>)) (to_dis_pd ibpd) qpp)))"

section \<open>Worker threads\<close>

definition dis_qp_init :: "kenv \<Rightarrow> heap \<Rightarrow> wq_ref \<Rightarrow> (int \<times> heap) kres" where
  "dis_qp_init env h r =
     rbind (get_wq h r) (\<lambda>w.
     if wq_wq_state w = DIS_WQ_EXITED then Inr (-42, h)
     else
       let w1 = w\<lparr>wq_wait_queue := True, wq_wq_state := DIS_WQ_INITIALIZED, wq_wq_flag := DIS_WQ_EMPTY\<rparr>;
           p = h_next h;
           thread = (case k_kthread_create env h of Some e \<Rightarrow> Inl e | None \<Rightarrow> Inr p);
           w2 = w1\<lparr>wq_thread := thread\<rparr> in
       if thread = Inr NULL then Inr (-42, set_wq h r (w2\<lparr>wq_wq_state := DIS_WQ_UNINITIALIZED\<rparr>))
       else case thread of
         Inl e \<Rightarrow> Inl ErrPtrDeref \<comment> \<open>\<open>wake_up_process\<close> of an error pointer, which is not \<open>NULL\<close>\<close>
       | Inr t \<Rightarrow> Inr (0, set_wq (h\<lparr>h_next := Suc p,
             h_thread := (h_thread h)(p \<mapsto> \<lparr>kt_wq = r, kt_woken = True\<rparr>)\<rparr>) r w2))"

definition dis_qp_notify :: "heap \<Rightarrow> wq_ref \<Rightarrow> (int \<times> heap) kres" where
  "dis_qp_notify h r =
     rbind (get_wq h r) (\<lambda>w.
     if wq_wq_state w = DIS_WQ_UNINITIALIZED then Inr (-42, h)
     else Inr (0, set_wq h r (w\<lparr>wq_wq_flag := DIS_WQ_POST\<rparr>)))"

text \<open>
  \<open>kthread_stop\<close> and \<open>msleep\<close> let other threads run, the worker among them: what they leave of the
  store is up to the scheduler.
\<close>

record 'w sched_env =
  kthread_stop :: "ptr \<Rightarrow> heap \<times> 'w \<Rightarrow> heap \<times> 'w"
  msleep :: "heap \<times> 'w \<Rightarrow> heap \<times> 'w"

partial_function (option) await_exited :: "'w sched_env \<Rightarrow> heap \<Rightarrow> 'w \<Rightarrow> wq_ref \<Rightarrow> (heap \<times> 'w) kres option"
where
  "await_exited sch h s r =
     (case get_wq h r of
        Inl f \<Rightarrow> Some (Inl f)
      | Inr w \<Rightarrow> if wq_wq_state w \<noteq> DIS_WQ_EXITED
          then (case msleep sch (h, s) of (h1, s1) \<Rightarrow> await_exited sch h1 s1 r)
          else Some (Inr (h, s)))"

definition dis_qp_exit :: "'w sched_env \<Rightarrow> heap \<Rightarrow> 'w \<Rightarrow> wq_ref \<Rightarrow> (heap \<times> 'w) kres option" where
  "dis_qp_exit sch h s r =
     (case get_wq h r of
        Inl f \<Rightarrow> Some (Inl f)
      | Inr w \<Rightarrow>
          if wq_wq_state w = DIS_WQ_UNINITIALIZED \<or> wq_wq_state w = DIS_WQ_EXITED
          then Some (Inr (h, s))
          else (case wq_thread w of
              Inl e \<Rightarrow> Some (Inl ErrPtrDeref)
            | Inr t \<Rightarrow> (case deref (h_thread h) t of
                Inl f \<Rightarrow> Some (Inl f)
              | Inr _ \<Rightarrow> (case kthread_stop sch t (h, s) of (h1, s1) \<Rightarrow> await_exited sch h1 s1 r))))"

section \<open>State changes\<close>

text \<open>The attributes of \<open>dis_modify_qp\<close> that it reads; the mask says which are set.\<close>

record qp_attr =
  qa_qp_state :: ib_qp_state
  qa_path_mtu :: ib_mtu
  qa_dest_qp_num :: u32

definition set_qpns :: "dis_qp \<Rightarrow> dis_qp" where
  "set_qpns qp = (let qp1 = qp\<lparr>qp_r_qpn := qp_l_qpn qp\<rparr> in
     qp1\<lparr>qp_rq := (qp_rq qp1)\<lparr>wq_l_qpn := qp_l_qpn qp1, wq_r_qpn := qp_r_qpn qp1\<rparr>,
         qp_sq := (qp_sq qp1)\<lparr>wq_l_qpn := qp_l_qpn qp1, wq_r_qpn := qp_r_qpn qp1\<rparr>\<rparr>)"

definition set_mtu :: "ib_mtu \<Rightarrow> dis_qp \<Rightarrow> dis_qp" where
  "set_mtu mtu qp = (let qp1 = qp\<lparr>qp_mtu := ib_mtu_enum_to_int mtu\<rparr> in
     qp1\<lparr>qp_rq := (qp_rq qp1)\<lparr>wq_mtu := qp_mtu qp1\<rparr>, qp_sq := (qp_sq qp1)\<lparr>wq_mtu := qp_mtu qp1\<rparr>\<rparr>)"

definition modify_to_rtr :: "kenv \<Rightarrow> heap \<Rightarrow> ptr \<Rightarrow> qp_attr \<Rightarrow> u32 \<Rightarrow> (int \<times> heap) kres" where
  "modify_to_rtr env h qpp attr attr_mask =
     rbind (deref (h_qp h) qpp) (\<lambda>qp.
     let qp1 = (if attr_mask AND IB_QP_DEST_QPN \<noteq> 0 then set_qpns qp else qp);
         qp2 = (if attr_mask AND IB_QP_PATH_MTU \<noteq> 0 then set_mtu (qa_path_mtu attr) qp1 else qp1);
         h1 = put_qp h qpp qp2 in
     rbind (dis_qp_init env h1 (RqOf qpp)) (\<lambda>(ret, h2).
     if ret \<noteq> 0 then Inr (-42, h2)
     else rbind (dis_qp_init env h2 (SqOf qpp)) (\<lambda>(ret, h3).
       if ret \<noteq> 0 then Inr (-42, h3) else Inr (0, h3))))"

definition dis_modify_qp :: "kenv \<Rightarrow> heap \<Rightarrow> ptr \<Rightarrow> qp_attr \<Rightarrow> u32 \<Rightarrow> (int \<times> heap) kres" where
  "dis_modify_qp env h ibqp attr attr_mask =
     (let qpp = to_dis_qp ibqp in
     if attr_mask AND IB_QP_STATE \<noteq> 0 then
       rbind (case qa_qp_state attr of
           IB_QPS_RESET \<Rightarrow> Inr (0, h)
         | IB_QPS_INIT \<Rightarrow> Inr (0, h)
         | IB_QPS_RTR \<Rightarrow> modify_to_rtr env h qpp attr attr_mask
         | IB_QPS_RTS \<Rightarrow> Inr (0, h)
         | _ \<Rightarrow> Inr (-42, h)) (\<lambda>(ret, h1).
       if ret \<noteq> 0 then Inr (-42, h1)
       else rbind (deref (h_qp h1) qpp) (\<lambda>qp.
         Inr (0, put_qp h1 qpp (qp\<lparr>qp_state := qa_qp_state attr\<rparr>))))
     else Inr (0, h))"

definition dis_query_qp :: "heap \<Rightarrow> ptr \<Rightarrow> (int \<times> heap) kres" where
  "dis_query_qp h ibqp = Inr (-42, h)"

definition dis_destroy_qp :: "'w sched_env \<Rightarrow> heap \<Rightarrow> 'w \<Rightarrow> ptr \<Rightarrow> (int \<times> heap \<times> 'w) kres option" where
  "dis_destroy_qp sch h s ibqp =
     (let qpp = to_dis_qp ibqp in
     case dis_qp_exit sch h s (RqOf qpp) of
       None \<Rightarrow> None
     | Some (Inl f) \<Rightarrow> Some (Inl f)
     | Some (Inr (h1, s1)) \<Rightarrow> (case dis_qp_exit sch h1 s1 (SqOf qpp) of
           None \<Rightarrow> None
         | Some (Inl f) \<Rightarrow> Some (Inl f)
         | Some (Inr (h2, s2)) \<Rightarrow> Some (
             rbind (deref (h_qp h2) qpp) (\<lambda>qp.
             rbind (kfree (h_wqe h2) (circ_buf_mem (wq_wqe_circ (qp_rq qp)))) (\<lambda>m1.
             rbind (kfree m1 (circ_buf_mem (wq_wqe_circ (qp_sq qp)))) (\<lambda>m2.
             rbind (kfree (h_qp h2) qpp) (\<lambda>qps.
             Inr (0, h2\<lparr>h_wqe := m2, h_qp := qps\<rparr>, s2))))))))"

section \<open>Posting lists of requests\<close>

text \<open>
  The requests are a linked list. The driver never writes the \<open>bad_wr\<close> argument of either function.
\<close>

fun post_send_loop :: "kenv \<Rightarrow> heap \<Rightarrow> wq_ref \<Rightarrow> ib_wr list \<Rightarrow> (int \<times> heap) kres" where
  "post_send_loop env h r [] = Inr (0, h)"
| "post_send_loop env h r (wr # wrs) =
     rbind (dis_qp_post_one_sqe env h r wr) (\<lambda>(ret, h1).
     if ret \<noteq> 0 then Inr (-42, h1)
     else rbind (dis_qp_notify h1 r) (\<lambda>(ret', h2). post_send_loop env h2 r wrs))"

fun post_recv_loop :: "kenv \<Rightarrow> heap \<Rightarrow> wq_ref \<Rightarrow> ib_wr list \<Rightarrow> (int \<times> heap) kres" where
  "post_recv_loop env h r [] = Inr (0, h)"
| "post_recv_loop env h r (wr # wrs) =
     rbind (dis_qp_post_one_rqe env h r wr) (\<lambda>(ret, h1).
     if ret \<noteq> 0 then Inr (-42, h1)
     else rbind (dis_qp_notify h1 r) (\<lambda>(ret', h2). post_recv_loop env h2 r wrs))"

definition dis_post_send :: "kenv \<Rightarrow> heap \<Rightarrow> ptr \<Rightarrow> ib_wr list \<Rightarrow> (int \<times> heap) kres" where
  "dis_post_send env h ibqp wrs = post_send_loop env h (SqOf (to_dis_qp ibqp)) wrs"

definition dis_post_recv :: "kenv \<Rightarrow> heap \<Rightarrow> ptr \<Rightarrow> ib_wr list \<Rightarrow> (int \<times> heap) kres" where
  "dis_post_recv env h ibqp wrs = post_recv_loop env h (RqOf (to_dis_qp ibqp)) wrs"

section \<open>Well-formed queue pair tables\<close>

definition qp_table_ok :: "heap \<Rightarrow> ptr \<Rightarrow> bool" where
  "qp_table_ok h pdp \<longleftrightarrow> heap_ok h \<and> (case h_pd h pdp of None \<Rightarrow> False
     | Some pd \<Rightarrow> pd_ok pd \<and> (\<forall>p \<in> set (pd_qp_list pd). p < h_next h))"

definition qp_count :: "heap \<Rightarrow> ptr \<Rightarrow> nat" where
  "qp_count h pdp = (case h_pd h pdp of None \<Rightarrow> 0 | Some pd \<Rightarrow> unat (pd_qp_c pd))"

definition qp_lookup :: "heap \<Rightarrow> ptr \<Rightarrow> nat \<Rightarrow> ptr option" where
  "qp_lookup h pdp qpn = (case h_pd h pdp of None \<Rightarrow> None
     | Some pd \<Rightarrow> if unat DIS_QP_INI \<le> qpn \<and> qpn < unat (pd_qp_c pd) then Some (pd_qp_list pd ! qpn) else None)"

text \<open>Requests whose ring sizes the kernel's rounding is documented for and that fit an index.\<close>

definition qp_request_ok :: "qp_init_attr \<Rightarrow> bool" where
  "qp_request_ok ia \<longleftrightarrow> unat (ia_max_send_wr ia) < 2 ^ 31 \<and> unat (ia_max_recv_wr ia) < 2 ^ 31"

lemma qp_table_okE:
  assumes "qp_table_ok h pdp"
  obtains pd where "heap_ok h" "0 < h_next h" "pdp \<noteq> NULL" "h_pd h pdp = Some pd" "pd_ok pd"
    "\<forall>p \<in> set (pd_qp_list pd). p < h_next h"
  using assms by (cases pdp) (auto simp: qp_table_ok_def heap_ok_def fresh_in_def split: option.splits)

lemma heap_ok_next: "heap_ok h \<Longrightarrow> h_next h \<le> n \<Longrightarrow> heap_ok (h\<lparr>h_next := n\<rparr>)"
  by (auto simp: heap_ok_def fresh_in_def)

lemma qp_table_ok_next: "qp_table_ok h pdp \<Longrightarrow> h_next h \<le> n \<Longrightarrow> qp_table_ok (h\<lparr>h_next := n\<rparr>) pdp"
  by (auto simp: qp_table_ok_def heap_ok_next split: option.splits)

lemma pd_ok_register_qp:
  assumes "pd_ok pd" "pd_qp_c pd < DIS_QP_MAX" "p \<noteq> NULL"
  shows "pd_ok (pd\<lparr>pd_qp_list := (pd_qp_list pd)[unat (pd_qp_c pd) := p], pd_qp_c := pd_qp_c pd + 1\<rparr>)"
proof -
  have "unat (pd_qp_c pd) < 200" using assms(2) by (simp add: word_less_nat_alt)
  then have "unat (pd_qp_c pd + 1) = Suc (unat (pd_qp_c pd))"
    by (simp add: unat_plus_if')
  with assms show ?thesis
    by (auto simp: pd_ok_def word_le_nat_alt word_less_nat_alt nth_list_update)
qed

section \<open>Creation, all paths\<close>

text \<open>A queue as creation leaves it: empty, not started, with room for at least \<open>max_wr\<close> entries.\<close>

definition created_queue :: "heap \<Rightarrow> wq_ref \<Rightarrow> u32 \<Rightarrow> bool" where
  "created_queue h r max_wr \<longleftrightarrow> wq_ok h r \<and> wq_list h r = [] \<and> unat max_wr \<le> wq_cap h r
     \<and> wq_cap h r \<le> 2 * unat max_wr
     \<and> (case get_wq h r of Inl _ \<Rightarrow> False | Inr w \<Rightarrow> wq_wq_state w = DIS_WQ_UNINITIALIZED
        \<and> (\<forall>slots. h_wqe h (circ_buf_mem (wq_wqe_circ w)) = Some slots \<longrightarrow>
             (\<forall>e \<in> set slots. wqe_page_map_dynamic e = NULL)))"

text \<open>The queue pair, and the store, of a creation that succeeds with rings of \<open>n\<close> and \<open>m\<close> slots.\<close>

definition created_qp :: "dis_pd \<Rightarrow> ptr \<Rightarrow> qp_init_attr \<Rightarrow> ptr \<Rightarrow> u32 \<Rightarrow> u32 \<Rightarrow> dis_qp" where
  "created_qp pd ibpd ia p n m = (qp_attrs pd ibpd ia)
     \<lparr>qp_sq := set_buf (sq_attrs p ia n zero_wq) (Suc p),
      qp_rq := set_buf (rq_attrs p ia m zero_wq) (Suc (Suc p))\<rparr>"

definition created_heap :: "heap \<Rightarrow> dis_pd \<Rightarrow> ptr \<Rightarrow> qp_init_attr \<Rightarrow> u32 \<Rightarrow> u32 \<Rightarrow> heap" where
  "created_heap h pd ibpd ia n m = (let p = h_next h in
     h\<lparr>h_next := p + 3, h_qp := (h_qp h)(p \<mapsto> created_qp pd ibpd ia p n m),
       h_wqe := (h_wqe h)(Suc p \<mapsto> replicate (unat n) zero_wqe, Suc (Suc p) \<mapsto> replicate (unat m) zero_wqe),
       h_pd := (h_pd h)(ibpd \<mapsto> pd\<lparr>pd_qp_list := (pd_qp_list pd)[unat (pd_qp_c pd) := p],
         pd_qp_c := pd_qp_c pd + 1\<rparr>)\<rparr>)"

lemma qp_attrs_zero [simp]: "qp_sq (qp_attrs pd ibpd ia) = zero_wq" "qp_rq (qp_attrs pd ibpd ia) = zero_wq"
  by (simp_all add: qp_attrs_def zero_qp_def)

lemma create_qp_cases:
  assumes "qp_table_ok h ibpd" "h_pd h ibpd = Some pd"
    "roundup_pow_of_two (ucast (ia_max_send_wr ia + 1)) = Inr n"
    "roundup_pow_of_two (ucast (ia_max_recv_wr ia + 1)) = Inr m"
  shows "(\<exists>k \<ge> h_next h. dis_create_qp env h ibpd ia = Inr (NULL, h\<lparr>h_next := k\<rparr>))
    \<or> pd_qp_c pd < DIS_QP_MAX
      \<and> dis_create_qp env h ibpd ia = Inr (h_next h, created_heap h pd ibpd ia (ucast n) (ucast m))"
proof -
  let ?p = "h_next h"
  obtain pd': "heap_ok h" "0 < ?p" "ibpd \<noteq> NULL" "pd_ok pd"
    using qp_table_okE [OF assms(1)] assms(2) by (metis option.inject)
  then have fresh: "h_qp h ?p = None" "h_wqe h (Suc ?p) = None" "h_wqe h (Suc (Suc ?p)) = None"
    by (auto simp: heap_ok_def fresh_in_def)
  note unfold = dis_create_qp_def kres_simps Let_def fun_upd_idem put_qp_def new_wqes_def
  show ?thesis
  proof (cases "pd_qp_c pd < DIS_QP_MAX \<and> k_alloc env h AllocQp")
    case False
    then have "dis_create_qp env h ibpd ia = Inr (NULL, h)"
      using assms(2) \<open>ibpd \<noteq> NULL\<close> by (auto simp: unfold not_less)
    then show ?thesis by (intro disjI1 exI [of _ ?p]) simp
  next
    case True
    then have room: "\<not> DIS_QP_MAX \<le> pd_qp_c pd" by (simp add: not_le)
    let ?qp = "qp_attrs pd ibpd ia"
    let ?h1 = "put_qp (h\<lparr>h_next := Suc ?p\<rparr>) ?p (?qp\<lparr>qp_sq := sq_attrs ?p ia (ucast n) zero_wq\<rparr>)"
    note known = True room assms(2-4) \<open>ibpd \<noteq> NULL\<close> \<open>0 < ?p\<close> fresh
    have idx: "unat (pd_qp_c pd) < length (pd_qp_list pd)"
      using \<open>pd_ok pd\<close> True by (simp add: pd_ok_def word_less_nat_alt)
    show ?thesis
    proof (cases "k_alloc env ?h1 (AllocWqes DIS_SQ (ucast n))")
      case False
      then show ?thesis
        using known by (intro disjI1 exI [of _ "Suc ?p"]) (simp add: unfold sq_attrs_def)
    next
      case sq: True
      let ?h3 = "put_qp (new_wqes ?h1 (ucast n)) ?p (?qp\<lparr>qp_sq := set_buf (sq_attrs ?p ia (ucast n) zero_wq)
        (Suc ?p), qp_rq := rq_attrs ?p ia (ucast m) zero_wq\<rparr>)"
      show ?thesis
      proof (cases "k_alloc env ?h3 (AllocWqes DIS_RQ (ucast m))")
        case False
        then show ?thesis
          using known sq by (intro disjI1 exI [of _ "Suc (Suc ?p)"]) (simp add: unfold sq_attrs_def rq_attrs_def)
      next
        case True
        then show ?thesis
          using known sq idx
          by (intro disjI2) (simp add: unfold sq_attrs_def rq_attrs_def register_qp_def created_heap_def
              created_qp_def numeral_3_eq_3)
      qed
    qed
  qed
qed

lemma created_table_ok:
  assumes "qp_table_ok h ibpd" "h_pd h ibpd = Some pd" "pd_qp_c pd < DIS_QP_MAX"
  shows "qp_table_ok (created_heap h pd ibpd ia n m) ibpd"
    "qp_count (created_heap h pd ibpd ia n m) ibpd = Suc (qp_count h ibpd)"
    "qp_lookup (created_heap h pd ibpd ia n m) ibpd = (qp_lookup h ibpd)(qp_count h ibpd \<mapsto> h_next h)"
proof -
  obtain pd': "heap_ok h" "0 < h_next h" "ibpd \<noteq> NULL" "pd_ok pd" "\<forall>p \<in> set (pd_qp_list pd). p < h_next h"
    using qp_table_okE [OF assms(1)] assms(2) by (metis option.inject)
  have c: "unat (pd_qp_c pd) < 200" using assms(3) by (simp add: word_less_nat_alt)
  then have c1: "unat (pd_qp_c pd + 1) = Suc (unat (pd_qp_c pd))" by (simp add: unat_plus_if')
  have l: "length (pd_qp_list pd) = 200" "100 \<le> unat (pd_qp_c pd)"
    using \<open>pd_ok pd\<close> by (simp_all add: pd_ok_def word_le_nat_alt)
  have "heap_ok (created_heap h pd ibpd ia n m)"
    using \<open>heap_ok h\<close> \<open>ibpd \<noteq> NULL\<close> assms(2) by (auto simp: heap_ok_def created_heap_def fresh_in_def Let_def)
  moreover have "\<forall>p \<in> set ((pd_qp_list pd)[unat (pd_qp_c pd) := h_next h]). p < h_next h + 3"
    using pd'(5) by (auto dest!: subsetD [OF set_update_subset_insert])
  ultimately show "qp_table_ok (created_heap h pd ibpd ia n m) ibpd"
    using pd_ok_register_qp [OF \<open>pd_ok pd\<close> assms(3), of "h_next h"] \<open>0 < h_next h\<close>
    by (simp add: qp_table_ok_def created_heap_def Let_def)
  show "qp_count (created_heap h pd ibpd ia n m) ibpd = Suc (qp_count h ibpd)"
    "qp_lookup (created_heap h pd ibpd ia n m) ibpd = (qp_lookup h ibpd)(qp_count h ibpd \<mapsto> h_next h)"
    using assms(2) c c1 l by (auto simp: qp_count_def qp_lookup_def created_heap_def Let_def fun_eq_iff)
qed

lemma qp_lookup_next:
  assumes "qp_table_ok h pdp" shows "h_next h \<notin> ran (qp_lookup h pdp)"
proof -
  obtain pd where pd: "h_pd h pdp = Some pd" "pd_ok pd" "\<forall>p \<in> set (pd_qp_list pd). p < h_next h"
    by (rule qp_table_okE [OF assms])
  then have "pd_qp_list pd ! k < h_next h" if "k < unat (pd_qp_c pd)" for k
    using that by (simp add: pd_ok_def word_le_nat_alt)
  with pd(1) show ?thesis by (fastforce simp: ran_def qp_lookup_def split: if_splits)
qed

lemma created_queue_ring:
  assumes "ring_size n" "unat n = unat (m :: u64)" "Suc (unat max_wr) \<le> unat m" "unat m \<le> 2 * unat max_wr + 1"
    "get_wq h r = Inr w" "w = (set_buf w' buf)\<lparr>wq_wqe_max := n\<rparr>" "wq_wqe_circ w' = zero_circ"
    "wq_wq_state w' = DIS_WQ_UNINITIALIZED" "buf \<noteq> NULL" "h_wqe h buf = Some (replicate (unat n) zero_wqe)"
    "h_qp h (wq_ibqp w) = Some qp" "wq_ibqp w \<noteq> NULL" "h_pd h (qp_ibqp_pd qp) = Some pd" "qp_ibqp_pd qp \<noteq> NULL"
  shows "created_queue h r max_wr"
proof -
  have "circ_ok (wq_wqe_circ w) n (replicate (unat n) zero_wqe)"
    using assms(1-3,6,7) by (simp add: circ_ok_def set_buf_def zero_circ_def)
  with assms show ?thesis
    by (simp add: created_queue_def wq_ok_def wq_list_def wq_cap_def deref_Some set_buf_def zero_circ_def
        circ_list_def ring_list_def zero_wqe_def) linarith
qed

lemma created_queues:
  assumes "qp_table_ok h ibpd" "h_pd h ibpd = Some pd" "qp_request_ok ia"
    "roundup_pow_of_two (ucast (ia_max_send_wr ia + 1)) = Inr n"
    "roundup_pow_of_two (ucast (ia_max_recv_wr ia + 1)) = Inr m"
  defines "h' \<equiv> created_heap h pd ibpd ia (ucast n) (ucast m)"
  shows "created_queue h' (SqOf (h_next h)) (ia_max_send_wr ia)"
    "created_queue h' (RqOf (h_next h)) (ia_max_recv_wr ia)"
proof -
  let ?p = "h_next h" and ?qp = "created_qp pd ibpd ia (h_next h) (ucast n) (ucast m)"
  have pos: "0 < ?p" "ibpd \<noteq> NULL" using assms(1) by (auto elim: qp_table_okE)
  have qp: "h_qp h' ?p = Some ?qp" "h_wqe h' (Suc ?p) = Some (replicate (unat (ucast n :: u32)) zero_wqe)"
    "h_wqe h' (Suc (Suc ?p)) = Some (replicate (unat (ucast m :: u32)) zero_wqe)"
    "\<exists>pd'. h_pd h' ibpd = Some pd'" "qp_ibqp_pd ?qp = ibpd"
    by (simp_all add: h'_def created_heap_def Let_def created_qp_def qp_attrs_def)
  then obtain pd' where pd': "h_pd h' (qp_ibqp_pd ?qp) = Some pd'" by auto
  obtain n' where n: "roundup_pow_of_two (ucast (ia_max_send_wr ia + 1)) = Inr n'" "ring_size (ucast n')"
    "unat (ucast n' :: u32) = unat n'" "Suc (unat (ia_max_send_wr ia)) \<le> unat n'"
    "unat n' \<le> 2 * unat (ia_max_send_wr ia) + 1"
    using create_cq_size assms(3) unfolding qp_request_ok_def by blast
  obtain m' where m: "roundup_pow_of_two (ucast (ia_max_recv_wr ia + 1)) = Inr m'" "ring_size (ucast m')"
    "unat (ucast m' :: u32) = unat m'" "Suc (unat (ia_max_recv_wr ia)) \<le> unat m'"
    "unat m' \<le> 2 * unat (ia_max_recv_wr ia) + 1"
    using create_cq_size assms(3) unfolding qp_request_ok_def by blast
  from n(1) m(1) assms(4,5) have [simp]: "n' = n" "m' = m" by simp_all
  show "created_queue h' (SqOf ?p) (ia_max_send_wr ia)"
    using n(2-5) qp pd' pos
    by (intro created_queue_ring [of "ucast n" n _ _ _ "qp_sq ?qp" "sq_attrs ?p ia (ucast n) zero_wq" "Suc ?p" ?qp pd'])
      (simp_all add: kres_simps created_qp_def sq_attrs_def zero_wq_def set_buf_def)
  show "created_queue h' (RqOf ?p) (ia_max_recv_wr ia)"
    using m(2-5) qp pd' pos
    by (intro created_queue_ring [of "ucast m" m _ _ _ "qp_rq ?qp" "rq_attrs ?p ia (ucast m) zero_wq" "Suc (Suc ?p)" ?qp pd'])
      (simp_all add: kres_simps created_qp_def rq_attrs_def zero_wq_def set_buf_def)
qed

lemma create_qp_ok:
  assumes "qp_table_ok h ibpd" "h_pd h ibpd = Some pd" "qp_request_ok ia"
  shows "(\<exists>k \<ge> h_next h. dis_create_qp env h ibpd ia = Inr (NULL, h\<lparr>h_next := k\<rparr>))
    \<or> (\<exists>n m. pd_qp_c pd < DIS_QP_MAX
      \<and> dis_create_qp env h ibpd ia = Inr (h_next h, created_heap h pd ibpd ia n m)
      \<and> created_queue (created_heap h pd ibpd ia n m) (SqOf (h_next h)) (ia_max_send_wr ia)
      \<and> created_queue (created_heap h pd ibpd ia n m) (RqOf (h_next h)) (ia_max_recv_wr ia))"
proof -
  obtain n where n: "roundup_pow_of_two (ucast (ia_max_send_wr ia + 1)) = Inr n"
    using create_cq_size assms(3) unfolding qp_request_ok_def by blast
  obtain m where m: "roundup_pow_of_two (ucast (ia_max_recv_wr ia + 1)) = Inr m"
    using create_cq_size assms(3) unfolding qp_request_ok_def by blast
  from create_qp_cases [OF assms(1,2) n m, of env] created_queues [OF assms n m] show ?thesis by blast
qed

section \<open>The queue pair table as a table of keys\<close>

text \<open>The numbers a queue pair carries: the one the core and the peers see, and its own copy.\<close>

definition qp_nums :: "heap \<Rightarrow> ptr \<Rightarrow> (u32 \<times> u32) option" where
  "qp_nums h p = map_option (\<lambda>qp. (qp_ibqp_qp_num qp, qp_l_qpn qp)) (h_qp h p)"

lemma created_nums:
  assumes "qp_table_ok h ibpd" "h_pd h ibpd = Some pd"
  shows "qp_nums h (h_next h) = None"
    "qp_nums (created_heap h pd ibpd ia n m) = (qp_nums h)(h_next h
       \<mapsto> (of_nat (qp_count h ibpd), of_nat (qp_count h ibpd)))"
proof -
  have "heap_ok h" "0 < h_next h" using assms(1) by (auto elim: qp_table_okE)
  then show "qp_nums h (h_next h) = None"
    by (simp add: qp_nums_def heap_ok_def fresh_in_next)
  show "qp_nums (created_heap h pd ibpd ia n m) = (qp_nums h)(h_next h
       \<mapsto> (of_nat (qp_count h ibpd), of_nat (qp_count h ibpd)))"
    using assms(2) by (auto simp: qp_nums_def created_heap_def created_qp_def qp_attrs_def Let_def qp_count_def)
qed

interpretation qpt: key_table
  "\<lambda>h. qp_table_ok h pdp" "\<lambda>h. qp_count h pdp" "unat DIS_QP_MAX" "\<lambda>h. qp_lookup h pdp"
  "\<lambda>h ia. dis_create_qp env h pdp ia" qp_request_ok qp_nums
  "\<lambda>n. (of_nat n, of_nat n)" for env pdp
proof (unfold_locales, goal_cases)
  case (1 h)
  then show ?case by (auto elim!: qp_table_okE simp: qp_count_def pd_ok_def word_le_nat_alt)
next
  case (2 h k)
  then show ?case by (auto simp: qp_lookup_def qp_count_def split: option.splits)
next
  case (3 h ia)
  then obtain pd where "h_pd h pdp = Some pd" "pdp \<noteq> NULL" by (auto elim: qp_table_okE)
  with 3 show ?case by (simp add: dis_create_qp_def kres_simps qp_count_def word_le_nat_alt)
next
  case (4 h ia)
  then obtain pd where pd: "h_pd h pdp = Some pd" "0 < h_next h" by (auto elim: qp_table_okE)
  from create_qp_ok [OF 4(1) pd(1) 4(2), of env] consider
      (refused) k where "h_next h \<le> k" "dis_create_qp env h pdp ia = Inr (NULL, h\<lparr>h_next := k\<rparr>)"
    | (created) n m where "pd_qp_c pd < DIS_QP_MAX"
        "dis_create_qp env h pdp ia = Inr (h_next h, created_heap h pd pdp ia n m)" by blast
  then show ?case
  proof cases
    case refused
    with qp_table_ok_next [OF 4(1)] show ?thesis
      by (intro exI [of _ NULL] exI [of _ "h\<lparr>h_next := k\<rparr>"])
        (simp add: qp_count_def qp_lookup_def qp_nums_def fun_eq_iff)
  next
    case created
    with created_table_ok [OF 4(1) pd(1)] created_nums [OF 4(1) pd(1)] qp_lookup_next [OF 4(1)] pd(2) show ?thesis
      by (intro exI [of _ "h_next h"] exI [of _ "created_heap h pd pdp ia n m"]) simp
  qed
qed

end
