(* ===== verification/Thread_Points.thy ===== *)
theory Thread_Points
  imports Worker_Queue
begin

text \<open>
  A worker thread seen from the middle: the places where \<open>dis_wq_thread\<close> and the functions it calls
  look at the stop flag, and what the thread still does from each of them. \<open>kthread_stop\<close> finds a
  running thread on its way to one of these places.
\<close>

section \<open>The places where the thread looks at the stop flag\<close>

text \<open>
  The loop heads of \<open>dis_wq_init\<close>, \<open>dis_wq_thread\<close>, \<open>dis_wq_consume_all\<close>, \<open>dis_wq_consume_one_sqe\<close> and
  \<open>dis_wq_consume_one_rqe\<close> (with the entry in hand and the local variables of the loop), and the
  condition of \<open>wait_event_killable\<close>.
\<close>

datatype thread_point = InInit | AtLoop | InConsume | InSend wqe_ptr nat
  | InReceive wqe_ptr c_int c_int nat | Asleep

definition thread_end :: "'w scilib \<Rightarrow> heap \<Rightarrow> 'w \<Rightarrow> wq_ref \<Rightarrow> (int \<times> heap \<times> 'w) kres" where
  "thread_end lib h s wq = rbind (dis_wq_exit lib h s wq) (\<lambda>(h1, s1).
     rbind (set_wq_state h1 wq DIS_WQ_EXITED) (\<lambda>h2. Inr (0, h2, s1)))"

definition rest_loop :: "'w kthread_env \<Rightarrow> 'w scilib \<Rightarrow> heap \<Rightarrow> 'w \<Rightarrow> wq_ref
    \<Rightarrow> (int \<times> heap \<times> 'w) kres option" where
  "rest_loop kt lib h s wq = (case worker_loop kt lib h s wq of
       None \<Rightarrow> None
     | Some (Inl f) \<Rightarrow> Some (Inl f)
     | Some (Inr (h1, s1)) \<Rightarrow> Some (thread_end lib h1 s1 wq))"

definition rest_asleep :: "'w kthread_env \<Rightarrow> 'w scilib \<Rightarrow> heap \<Rightarrow> 'w \<Rightarrow> wq_ref
    \<Rightarrow> (int \<times> heap \<times> 'w) kres option" where
  "rest_asleep kt lib h s wq = (case wait_event_killable kt wq (h, s) of (ret, h1, s1) \<Rightarrow>
     if ret \<noteq> 0 then Some (thread_end lib h1 s1 wq) else rest_loop kt lib h1 s1 wq)"

definition rest_consume :: "'w kthread_env \<Rightarrow> 'w scilib \<Rightarrow> heap \<Rightarrow> 'w \<Rightarrow> wq_ref
    \<Rightarrow> (int \<times> heap \<times> 'w) kres option" where
  "rest_consume kt lib h s wq = (case dis_wq_consume_all kt lib h s wq of
       None \<Rightarrow> None
     | Some (Inl f) \<Rightarrow> Some (Inl f)
     | Some (Inr (ret, h1, s1)) \<Rightarrow>
         if ret \<noteq> 0 then Some (thread_end lib h1 s1 wq) else rest_asleep kt lib h1 s1 wq)"

definition rest_entry :: "'w kthread_env \<Rightarrow> 'w scilib \<Rightarrow> wq_ref \<Rightarrow> wqe_ptr
    \<Rightarrow> (u32 \<times> heap \<times> 'w) kres option \<Rightarrow> (int \<times> heap \<times> 'w) kres option" where
  "rest_entry kt lib wq p res = (case res of
       None \<Rightarrow> None
     | Some (Inl f) \<Rightarrow> Some (Inl f)
     | Some (Inr (st, h1, s1)) \<Rightarrow> (case rbind (release_map h1 p) (\<lambda>h2. wq_advance h2 wq) of
           Inl f \<Rightarrow> Some (Inl f)
         | Inr h3 \<Rightarrow> rest_consume kt lib h3 s1 wq))"

fun thread_rest :: "'w kthread_env \<Rightarrow> sci_params \<Rightarrow> 'w scilib \<Rightarrow> thread_point \<Rightarrow> heap \<Rightarrow> 'w \<Rightarrow> wq_ref
    \<Rightarrow> (int \<times> heap \<times> 'w) kres option" where
  "thread_rest kt par lib InInit h s wq = (case dis_wq_init kt par lib h s wq of
       None \<Rightarrow> None
     | Some (Inl f) \<Rightarrow> Some (Inl f)
     | Some (Inr (ret, h1, s1)) \<Rightarrow>
         if ret \<noteq> 0 then Some (rbind (set_wq_state h1 wq DIS_WQ_EXITED) (\<lambda>h2. Inr (-42, h2, s1)))
         else rest_loop kt lib h1 s1 wq)"
| "thread_rest kt par lib AtLoop h s wq = rest_loop kt lib h s wq"
| "thread_rest kt par lib InConsume h s wq = rest_consume kt lib h s wq"
| "thread_rest kt par lib (InSend p fc) h s wq = rest_entry kt lib wq p (sqe_loop kt lib h s wq p fc)"
| "thread_rest kt par lib (InReceive p l t fc) h s wq =
     rest_entry kt lib wq p (rqe_loop kt lib h s wq p l t fc)"
| "thread_rest kt par lib Asleep h s wq = rest_asleep kt lib h s wq"

section \<open>The thread passes through these places\<close>

lemma thread_starts:
  "dis_wq_thread kt par lib h s wq = (case set_wq_state h wq DIS_WQ_RUNNING of
     Inl f \<Rightarrow> Some (Inl f) | Inr h1 \<Rightarrow> thread_rest kt par lib InInit h1 s wq)"
  by (auto simp: dis_wq_thread_def rest_loop_def thread_end_def split: sum.splits option.splits)

text \<open>Each place leads to the next one, by one round of its loop.\<close>

lemma rest_init:
  "thread_rest kt par lib InInit h s wq = (case kthread_should_stop kt s of (stop, s1) \<Rightarrow>
     if stop then Some (rbind (set_wq_state h wq DIS_WQ_EXITED) (\<lambda>h2. Inr (-42, h2, s1)))
     else (case rbind (get_wq h wq) (\<lambda>w. case wq_wq_type w of
               DIS_RQ \<Rightarrow> dis_sci_if_create_msq par lib h s1 wq
             | DIS_SQ \<Rightarrow> dis_sci_if_connect_msq par lib h s1 wq) of
         Inl f \<Rightarrow> Some (Inl f)
       | Inr (ret, h1, s2) \<Rightarrow> thread_rest kt par lib (if ret = 0 then AtLoop else InInit) h1 s2 wq))"
  by (subst thread_rest.simps(1), subst dis_wq_init.simps) (auto split: prod.splits sum.splits)

lemma rest_at_loop:
  "thread_rest kt par lib AtLoop h s wq = (case kthread_should_stop kt s of (stop, s1) \<Rightarrow>
     if stop then Some (thread_end lib h s1 wq)
     else (case set_wq_flag h wq DIS_WQ_EMPTY of Inl f \<Rightarrow> Some (Inl f)
       | Inr h1 \<Rightarrow> thread_rest kt par lib InConsume h1 s1 wq))"
  by (simp add: rest_loop_def rest_consume_def rest_asleep_def worker_loop.simps [of kt lib h s wq]
      split: prod.splits sum.splits option.splits if_splits)

lemma rest_in_consume:
  "thread_rest kt par lib InConsume h s wq = (case kthread_should_stop kt s of (stop, s1) \<Rightarrow>
     if stop then Some (thread_end lib h s1 wq)
     else (case wq_front h wq of Inl f \<Rightarrow> Some (Inl f)
       | Inr None \<Rightarrow> thread_rest kt par lib Asleep h s1 wq
       | Inr (Some p) \<Rightarrow> (case get_wq h wq of Inl f \<Rightarrow> Some (Inl f)
           | Inr w \<Rightarrow> (case wq_wq_type w of
               DIS_SQ \<Rightarrow> thread_rest kt par lib (InSend p 0) h s1 wq
             | DIS_RQ \<Rightarrow> (case get_wqe h p of Inl f \<Rightarrow> Some (Inl f)
                 | Inr e \<Rightarrow> thread_rest kt par lib (InReceive p (wqe_byte_len e) (wqe_byte_len e) 0) h s1 wq)))))"
  by (simp add: rest_consume_def rest_entry_def consume_one_def dis_wq_consume_one_sqe_def
      dis_wq_consume_one_rqe_def dis_wq_consume_all.simps [of kt lib h s wq]
      split: prod.splits sum.splits option.splits if_splits dis_wq_type.splits)

section \<open>Once the flag is set\<close>

text \<open>
  The flag is set and stays so; a thread asleep in \<open>wait_event_killable\<close> then finds its condition
  true, and so does one that is about to sleep.
\<close>

definition stopped :: "'w kthread_env \<Rightarrow> 'w \<Rightarrow> bool" where
  "stopped kt s \<longleftrightarrow> kthread_should_stop kt s = (True, s)
     \<and> (\<forall>wq h. wait_event_killable kt wq (h, s) = (0, h, s))"

definition ends_exited :: "wq_ref \<Rightarrow> (int \<times> heap \<times> 'w) kres option \<Rightarrow> bool" where
  "ends_exited wq res \<longleftrightarrow> (\<exists>x. res = Some x \<and> (\<forall>ret h' s'. x = Inr (ret, h', s') \<longrightarrow>
     (\<exists>w. get_wq h' wq = Inr w \<and> wq_wq_state w = DIS_WQ_EXITED)))"

lemma thread_end_exited: "ends_exited wq (Some (thread_end lib h s wq))"
  by (auto simp: ends_exited_def thread_end_def set_wq_state_def rbind_eq_Inr heap_simps)

lemma set_exited: "ends_exited wq (Some (rbind (set_wq_state h wq DIS_WQ_EXITED) (\<lambda>h2. Inr (ret, h2, s))))"
  by (auto simp: ends_exited_def set_wq_state_def rbind_eq_Inr heap_simps)

lemma fault_exited [simp]: "ends_exited wq (Some (Inl f))"
  by (simp add: ends_exited_def)

lemma rest_stopped:
  assumes "stopped kt s"
  shows "rest_loop kt lib h s wq = Some (thread_end lib h s wq)"
    "rest_asleep kt lib h s wq = Some (thread_end lib h s wq)"
    "rest_consume kt lib h s wq = Some (thread_end lib h s wq)"
  using assms
  by (simp_all add: rest_loop_def rest_asleep_def rest_consume_def stopped_def
      worker_loop.simps [of kt lib h s wq] dis_wq_consume_all.simps [of kt lib h s wq])

lemma rest_entry_stopped:
  assumes "stopped kt s" "\<forall>st h' s'. x = Inr (st, h', s') \<longrightarrow> s' = s"
  shows "ends_exited wq (rest_entry kt lib wq p (Some x))"
  using assms rest_stopped(3) [OF assms(1)] thread_end_exited
  by (auto simp: rest_entry_def split: sum.splits prod.splits)

lemma finish_world: 
  "finish_sqe h s wq p st = Inr (st', h', s') \<Longrightarrow> s' = s"
  "finish_rqe h s wq p st = Inr (st', h', s') \<Longrightarrow> s' = s"
  by (auto simp: finish_sqe_def finish_rqe_def rbind_eq_Inr)

text \<open>Wherever it stands, the thread ends, and marks its queue exited unless it faults.\<close>

lemma thread_rest_stopped:
  assumes "stopped kt s"
  shows "ends_exited wq (thread_rest kt par lib pt h s wq)"
proof (cases pt)
  case InInit
  with assms set_exited show ?thesis by (simp add: stopped_def dis_wq_init.simps [of kt par lib h s wq])
next
  case (InSend p fc)
  have "sqe_loop kt lib h s wq p fc = Some (finish_sqe h s wq p IB_WC_RESP_TIMEOUT_ERR)"
    using assms by (simp add: stopped_def sqe_loop.simps [of kt lib h s wq p fc])
  then show ?thesis
    unfolding InSend thread_rest.simps by (simp only:) (rule rest_entry_stopped [OF assms], auto dest: finish_world)
next
  case (InReceive p l t fc)
  have "rqe_loop kt lib h s wq p l t fc = Some (finish_rqe h s wq p IB_WC_RESP_TIMEOUT_ERR)"
    using assms by (simp add: stopped_def rqe_loop.simps [of kt lib h s wq p l t fc])
  then show ?thesis
    unfolding InReceive thread_rest.simps by (simp only:) (rule rest_entry_stopped [OF assms], auto dest: finish_world)
qed (use rest_stopped [OF assms] thread_end_exited in simp_all)

end
