(* ===== verification/Qp_Lifecycle.thy ===== *)
theory Qp_Lifecycle
  imports Queue_Pair Thread_Points
begin

text \<open>
  What holds of queue pairs over their life: creation on every path, the numbers handed out, posting of
  request lists, the state changes that start the worker threads, and the end of a queue pair together
  with the thread function of \<open>Worker\<close>.
\<close>

section \<open>Posting a list of requests\<close>

text \<open>The two posting loops are one, up to the routine that posts a request.\<close>

fun post_loop :: "(heap \<Rightarrow> ib_wr \<Rightarrow> (int \<times> heap) kres) \<Rightarrow> wq_ref \<Rightarrow> heap \<Rightarrow> ib_wr list \<Rightarrow> (int \<times> heap) kres" where
  "post_loop post r h [] = Inr (0, h)"
| "post_loop post r h (wr # wrs) = rbind (post h wr) (\<lambda>(ret, h1).
     if ret \<noteq> 0 then Inr (-42, h1)
     else rbind (dis_qp_notify h1 r) (\<lambda>(ret', h2). post_loop post r h2 wrs))"

lemma post_loops:
  "post_send_loop env h r wrs = post_loop (\<lambda>h. dis_qp_post_one_sqe env h r) r h wrs"
  "post_recv_loop env h r wrs = post_loop (\<lambda>h. dis_qp_post_one_rqe env h r) r h wrs"
  by (induction wrs arbitrary: h) (auto intro!: rbind_cong)

lemma notify_ok:
  assumes "get_wq h r = Inr w"
  obtains ret w' where "dis_qp_notify h r = Inr (ret, set_wq h r w')"
    "w' = (if wq_wq_state w = DIS_WQ_UNINITIALIZED then w else w\<lparr>wq_wq_flag := DIS_WQ_POST\<rparr>)"
  using set_wq_get_wq [OF assms]
  by (intro that [of "if wq_wq_state w = DIS_WQ_UNINITIALIZED then -42 else 0"
      "if wq_wq_state w = DIS_WQ_UNINITIALIZED then w else w\<lparr>wq_wq_flag := DIS_WQ_POST\<rparr>"])
    (simp_all add: dis_qp_notify_def assms)

text \<open>Writing the flag of a queue, or its state, keeps the queue.\<close>

lemma set_wq_same_ring:
  assumes "get_wq h r = Inr w" "wq_wqe_circ w' = wq_wqe_circ w" "wq_wqe_max w' = wq_wqe_max w"
    "wq_ibqp w' = wq_ibqp w"
  shows "wq_ok h r \<Longrightarrow> wq_ok (set_wq h r w') r" "wq_list (set_wq h r w') r = wq_list h r"
    "wq_cap (set_wq h r w') r = wq_cap h r" "wq_ok h r \<Longrightarrow> wq_pd (set_wq h r w') r = wq_pd h r"
proof -
  note g = get_wq_set_wq [OF assms(1), of w']
  show "wq_list (set_wq h r w') r = wq_list h r" "wq_cap (set_wq h r w') r = wq_cap h r"
    using assms g by (simp_all add: wq_list_def wq_cap_def heap_simps cong: option.case_cong)
  have "wq_ok (set_wq h r w') r \<and> wq_pd (set_wq h r w') r = wq_pd h r" if "wq_ok h r"
    using that
  proof (cases rule: wq_okE)
    case (1 w0 qp pd slots)
    then have [simp]: "w0 = w" using assms(1) by simp
    obtain qp' where "h_qp (set_wq h r w') (wq_ibqp w) = Some qp'" "qp_ibqp_pd qp' = qp_ibqp_pd qp"
      using set_wq_qp_pd [OF 1(3), of r w'] by auto
    with 1 assms g show ?thesis by (simp add: wq_ok_def wq_pd_def deref_Some heap_simps)
  qed
  then show "wq_ok h r \<Longrightarrow> wq_ok (set_wq h r w') r" "wq_ok h r \<Longrightarrow> wq_pd (set_wq h r w') r = wq_pd h r"
    by blast+
qed

lemma notify_keeps:
  assumes "wq_live r h"
  obtains ret h' where "dis_qp_notify h r = Inr (ret, h')" "wq_live r h'" "wq_list h' r = wq_list h r"
    "wq_cap h' r = wq_cap h r" "\<forall>env wr. postable env r h wr \<longrightarrow> postable env r h' wr"
proof -
  from assms have "wq_ok h r" by (simp add: wq_live_def)
  then obtain w where w: "get_wq h r = Inr w" by (auto elim: wq_okE)
  obtain ret w' where n: "dis_qp_notify h r = Inr (ret, set_wq h r w')"
    "w' = (if wq_wq_state w = DIS_WQ_UNINITIALIZED then w else w\<lparr>wq_wq_flag := DIS_WQ_POST\<rparr>)"
    by (rule notify_ok [OF w])
  have same: "wq_wqe_circ w' = wq_wqe_circ w" "wq_wqe_max w' = wq_wqe_max w" "wq_ibqp w' = wq_ibqp w"
    using n(2) by simp_all
  note ring = set_wq_same_ring [OF w same]
  have "postable env r (set_wq h r w') wr" if "postable env r h wr" for env wr
    using that ring(4) \<open>wq_ok h r\<close> by (intro postable_mono [of "set_wq h r w'" h]) (simp_all add: heap_simps)
  moreover have "wq_live r (set_wq h r w')" using assms ring(1) by (simp add: wq_live_def heap_simps)
  ultimately show ?thesis using that [of ret "set_wq h r w'"] n(1) ring(2,3) by simp
qed

text \<open>A loop over any bounded queue view of a work queue accepts as many requests as fit.\<close>

lemma post_loop_prefix:
  assumes bq: "bounded_queue (wq_live r) (\<lambda>h. map wqe_view (wq_list h r)) (\<lambda>h. wq_cap h r)
      (postable env r) (\<lambda>_. request_view opc) post (wq_take r)"
    and "wq_live r h" "\<forall>wr \<in> set wrs. postable env r h wr"
  shows "\<exists>h'. post_loop post r h wrs
      = Inr (if length wrs \<le> wq_cap h r - length (wq_list h r) then 0 else -42, h')
    \<and> wq_live r h' \<and> wq_cap h' r = wq_cap h r
    \<and> map wqe_view (wq_list h' r) = map wqe_view (wq_list h r)
        @ map (request_view opc) (take (wq_cap h r - length (wq_list h r)) wrs)"
  using assms(2,3)
proof (induction wrs arbitrary: h)
  case Nil
  then show ?case by simp
next
  case (Cons wr wrs)
  from Cons.prems have "wq_live r h" "postable env r h wr" by simp_all
  then show ?case
  proof (rule bounded_queue.enq_cases [OF bq], goal_cases room full)
    case (room h1)
    obtain ret h2 where n: "dis_qp_notify h1 r = Inr (ret, h2)" "wq_live r h2" "wq_list h2 r = wq_list h1 r"
      "wq_cap h2 r = wq_cap h1 r" "\<forall>env wr. postable env r h1 wr \<longrightarrow> postable env r h2 wr"
      using notify_keeps [OF \<open>wq_live r h1\<close>] by metis
    have len: "length (wq_list h1 r) = Suc (length (wq_list h r))"
      using arg_cong [OF room(4), of length] by simp
    have "\<forall>wr \<in> set wrs. postable env r h2 wr" using Cons.prems room n(5) by simp
    from Cons.IH [OF n(2) this] room n len show ?thesis
      by (auto simp: take_Cons' Suc_diff_Suc)
  next
    case full
    with Cons.prems show ?thesis by simp
  qed
qed

section \<open>Starting the workers\<close>

definition started :: "ptr \<Rightarrow> dis_wq \<Rightarrow> dis_wq" where
  "started t w = w\<lparr>wq_wait_queue := True, wq_wq_state := DIS_WQ_INITIALIZED, wq_wq_flag := DIS_WQ_EMPTY,
     wq_thread := Inr t\<rparr>"

lemma qp_init_starts:
  assumes "get_wq h r = Inr w" "wq_wq_state w \<noteq> DIS_WQ_EXITED" "k_kthread_create env h = None" "0 < h_next h"
  shows "dis_qp_init env h r = Inr (0, set_wq (h\<lparr>h_next := Suc (h_next h),
    h_thread := (h_thread h)(h_next h \<mapsto> \<lparr>kt_wq = r, kt_woken = True\<rparr>)\<rparr>) r (started (h_next h) w))"
  using assms by (simp add: dis_qp_init_def started_def Let_def)

text \<open>The queue pair that \<open>IB_QPS_RTR\<close> leaves, with threads \<open>t\<close> and \<open>t'\<close> for its queues.\<close>

definition rtr_qp :: "qp_attr \<Rightarrow> u32 \<Rightarrow> dis_qp \<Rightarrow> ptr \<Rightarrow> ptr \<Rightarrow> dis_qp" where
  "rtr_qp attr attr_mask qp t t' = (
     let qp1 = (if attr_mask AND IB_QP_DEST_QPN \<noteq> 0 then set_qpns qp else qp);
         qp2 = (if attr_mask AND IB_QP_PATH_MTU \<noteq> 0 then set_mtu (qa_path_mtu attr) qp1 else qp1) in
     qp2\<lparr>qp_rq := started t (qp_rq qp2), qp_sq := started t' (qp_sq qp2), qp_state := IB_QPS_RTR\<rparr>)"

lemma set_qpns_mtu_state [simp]:
  "wq_wq_state (qp_rq (set_qpns qp)) = wq_wq_state (qp_rq qp)"
  "wq_wq_state (qp_sq (set_qpns qp)) = wq_wq_state (qp_sq qp)"
  "wq_wq_state (qp_rq (set_mtu m qp)) = wq_wq_state (qp_rq qp)"
  "wq_wq_state (qp_sq (set_mtu m qp)) = wq_wq_state (qp_sq qp)"
  by (simp_all add: set_qpns_def set_mtu_def Let_def)

lemma modify_rtr:
  assumes "h_qp h p = Some qp" "p \<noteq> NULL" "0 < h_next h" "\<forall>h'. k_kthread_create env h' = None"
    "wq_wq_state (qp_rq qp) \<noteq> DIS_WQ_EXITED" "wq_wq_state (qp_sq qp) \<noteq> DIS_WQ_EXITED"
    "attr_mask AND IB_QP_STATE \<noteq> 0" "qa_qp_state attr = IB_QPS_RTR"
  shows "dis_modify_qp env h p attr attr_mask = Inr (0, h\<lparr>h_next := h_next h + 2,
     h_qp := (h_qp h)(p \<mapsto> rtr_qp attr attr_mask qp (h_next h) (Suc (h_next h))),
     h_thread := (h_thread h)(h_next h \<mapsto> \<lparr>kt_wq = RqOf p, kt_woken = True\<rparr>,
       Suc (h_next h) \<mapsto> \<lparr>kt_wq = SqOf p, kt_woken = True\<rparr>)\<rparr>)"
proof -
  let ?qp1 = "if attr_mask AND IB_QP_DEST_QPN \<noteq> 0 then set_qpns qp else qp"
  let ?qp2 = "if attr_mask AND IB_QP_PATH_MTU \<noteq> 0 then set_mtu (qa_path_mtu attr) ?qp1 else ?qp1"
  let ?h1 = "put_qp h p ?qp2"
  have s: "wq_wq_state (qp_rq ?qp2) \<noteq> DIS_WQ_EXITED" "wq_wq_state (qp_sq ?qp2) \<noteq> DIS_WQ_EXITED"
    using assms(5,6) by simp_all
  have g: "get_wq ?h1 (RqOf p) = Inr (qp_rq ?qp2)" "get_wq ?h1 (SqOf p) = Inr (qp_sq ?qp2)"
    using assms(2) by (simp_all add: put_qp_def kres_simps)
  define h2 where "h2 = set_wq (?h1\<lparr>h_next := Suc (h_next h),
      h_thread := (h_thread h)(h_next h \<mapsto> \<lparr>kt_wq = RqOf p, kt_woken = True\<rparr>)\<rparr>) (RqOf p)
      (started (h_next h) (qp_rq ?qp2))"
  have 1: "dis_qp_init env ?h1 (RqOf p) = Inr (0, h2)"
    unfolding h2_def using qp_init_starts [OF g(1) s(1), of env] assms(3,4) by (simp add: put_qp_def)
  have "get_wq h2 (SqOf p) = Inr (qp_sq ?qp2)"
    using g(2) by (simp add: h2_def heap_simps del: get_wq.simps set_wq.simps)
  moreover have "h_next h2 = Suc (h_next h)" by (simp add: h2_def heap_simps del: set_wq.simps)
  ultimately have 2: "dis_qp_init env h2 (SqOf p) = Inr (0, set_wq (h2\<lparr>h_next := Suc (Suc (h_next h)),
      h_thread := (h_thread h2)(Suc (h_next h) \<mapsto> \<lparr>kt_wq = SqOf p, kt_woken = True\<rparr>)\<rparr>) (SqOf p)
      (started (Suc (h_next h)) (qp_sq ?qp2)))"
    using qp_init_starts [of h2 "SqOf p" _ env] s(2) assms(4) by simp
  have "modify_to_rtr env h p attr attr_mask = Inr (0, set_wq (h2\<lparr>h_next := Suc (Suc (h_next h)),
      h_thread := (h_thread h2)(Suc (h_next h) \<mapsto> \<lparr>kt_wq = SqOf p, kt_woken = True\<rparr>)\<rparr>) (SqOf p)
      (started (Suc (h_next h)) (qp_sq ?qp2)))"
    unfolding modify_to_rtr_def Let_def using assms(1,2) 1 2
    by (simp only: deref_Some rbind_Inr split_conv if_False simp_thms)
  then show ?thesis
    using assms(2,7,8) by (simp add: dis_modify_qp_def rtr_qp_def h2_def put_qp_def Let_def kres_simps)
qed

section \<open>What posting leaves alone\<close>

definition wq_fixed :: "dis_wq \<Rightarrow> dis_wq" where
  \<comment> \<open>a queue without its ring indices and its flag\<close>
  "wq_fixed w = w\<lparr>wq_wqe_circ := zero_circ, wq_wq_flag := DIS_WQ_EMPTY\<rparr>"

definition only_ring :: "heap \<Rightarrow> wq_ref \<Rightarrow> heap \<Rightarrow> bool" where
  \<comment> \<open>of the queue pairs and shared queues, only the ring indices and the flag of this queue differ\<close>
  "only_ring h r h' \<longleftrightarrow> (\<forall>w. get_wq h r = Inr w \<longrightarrow> (\<exists>w'. wq_fixed w' = wq_fixed w
     \<and> h_qp h' = h_qp (set_wq h r w') \<and> h_srq h' = h_srq (set_wq h r w')))"

definition leaves :: "(heap \<Rightarrow> bool) \<Rightarrow> ('a \<times> heap) kres \<Rightarrow> bool" where
  "leaves Q r \<longleftrightarrow> (\<forall>ret h'. r = Inr (ret, h') \<longrightarrow> Q h')"

lemma leaves_simps [simp]: "leaves Q (Inl f)" "leaves Q (Inr (ret, h')) \<longleftrightarrow> Q h'"
  by (simp_all add: leaves_def)

lemma leaves_rbind [intro]: "(\<And>x. r = Inr x \<Longrightarrow> leaves Q (f x)) \<Longrightarrow> leaves Q (rbind r f)"
  by (auto simp: leaves_def rbind_eq_Inr)

lemma leaves_if [intro]: "(b \<Longrightarrow> leaves Q r) \<Longrightarrow> (\<not> b \<Longrightarrow> leaves Q s) \<Longrightarrow> leaves Q (if b then r else s)"
  by simp

lemma leaves_split [intro]: "(\<And>a b. x = (a, b) \<Longrightarrow> leaves Q (f a b)) \<Longrightarrow> leaves Q (case x of (a, b) \<Rightarrow> f a b)"
  by (cases x) simp

lemma only_ring_simps [simp]:
  "only_ring h r h" "only_ring h r (store_wqe h m s i e)"
  "only_ring h r (store_wqe (h\<lparr>h_next := n, h_iov := v\<rparr>) m s i e)"
proof -
  have s: "h_qp (h\<lparr>h_next := n, h_iov := v\<rparr>) = h_qp h" "h_srq (h\<lparr>h_next := n, h_iov := v\<rparr>) = h_srq h"
    by simp_all
  show "only_ring h r h" "only_ring h r (store_wqe h m s i e)"
    "only_ring h r (store_wqe (h\<lparr>h_next := n, h_iov := v\<rparr>) m s i e)"
    by (auto simp: only_ring_def set_wq_get_wq heap_simps s)
qed

lemma wq_from_tables:
  assumes "h_qp x = h_qp y" "h_srq x = h_srq y"
  shows "get_wq x r = get_wq y r" "h_qp (set_wq x r w) = h_qp (set_wq y r w)"
    "h_srq (set_wq x r w) = h_srq (set_wq y r w)"
  using assms by (cases r; simp split: option.splits)+

lemma only_ring_wq: "only_ring h r h' \<Longrightarrow> get_wq h r = Inr w \<Longrightarrow> \<exists>w'. get_wq h' r = Inr w' \<and> wq_fixed w' = wq_fixed w"
  using wq_from_tables(1) [of h' "set_wq h r w'" r for w'] get_wq_set_wq [of h r w]
  by (metis only_ring_def)

lemma only_ring_trans: "only_ring h r h1 \<Longrightarrow> only_ring h1 r h2 \<Longrightarrow> only_ring h r h2"
  unfolding only_ring_def
proof (intro allI impI)
  fix w
  assume h1: "\<forall>w. get_wq h r = Inr w \<longrightarrow> (\<exists>w'. wq_fixed w' = wq_fixed w
      \<and> h_qp h1 = h_qp (set_wq h r w') \<and> h_srq h1 = h_srq (set_wq h r w'))"
    and h2: "\<forall>w. get_wq h1 r = Inr w \<longrightarrow> (\<exists>w'. wq_fixed w' = wq_fixed w
      \<and> h_qp h2 = h_qp (set_wq h1 r w') \<and> h_srq h2 = h_srq (set_wq h1 r w'))"
    and w: "get_wq h r = Inr w"
  then obtain w1 where w1: "wq_fixed w1 = wq_fixed w" "h_qp h1 = h_qp (set_wq h r w1)"
    "h_srq h1 = h_srq (set_wq h r w1)" by blast
  then have "get_wq h1 r = Inr w1" using wq_from_tables(1) get_wq_set_wq [OF w] by metis
  with h2 obtain w2 where "wq_fixed w2 = wq_fixed w1" "h_qp h2 = h_qp (set_wq h1 r w2)"
    "h_srq h2 = h_srq (set_wq h1 r w2)" by blast
  with w1 show "\<exists>w'. wq_fixed w' = wq_fixed w \<and> h_qp h2 = h_qp (set_wq h r w') \<and> h_srq h2 = h_srq (set_wq h r w')"
    using wq_from_tables(2,3) [of h1 "set_wq h r w1" r w2] by (auto simp: heap_simps)
qed

lemma notify_ring: "leaves (only_ring h r) (dis_qp_notify h r)"
  unfolding dis_qp_notify_def
  by (intro leaves_rbind leaves_if)
    (auto simp: only_ring_def wq_fixed_def intro!: exI [of _ "w\<lparr>wq_wq_flag := DIS_WQ_POST\<rparr>" for w])

lemma leaves_ring_step:
  "only_ring h r h1 \<Longrightarrow> leaves (only_ring h1 r) res \<Longrightarrow> leaves (only_ring h r) res"
  using only_ring_trans by (auto simp: leaves_def)

lemma post_one_ring: "leaves (only_ring h r) (post_one opc env h r wr)"
proof -
  have prepare: "leaves (only_ring h r) (post_prepare opc env h r wr)"
    unfolding post_prepare_def Let_def
    by (intro leaves_rbind leaves_if leaves_split) simp_all
  have "leaves (only_ring h1 r) (post_publish h1 r c)" for h1 c
    unfolding post_publish_def
    by (intro leaves_rbind) (auto simp: only_ring_def publish_def wq_fixed_def
        intro!: exI [of _ "w\<lparr>wq_wqe_circ := x\<rparr>" for w x])
  moreover have "only_ring h r h1" if "post_prepare opc env h r wr = Inr (res, h1)" for res h1
    using prepare that by simp
  ultimately show ?thesis
    unfolding post_one_def
    by (intro leaves_rbind leaves_split) (auto intro: leaves_ring_step split: sum.splits)
qed

lemma post_loop_ring:
  assumes "\<And>h wr. leaves (only_ring h r) (post h wr)"
  shows "leaves (only_ring h r) (post_loop post r h wrs)"
proof (induction wrs arbitrary: h)
  case Nil
  then show ?case by simp
next
  case (Cons wr wrs)
  have "leaves (only_ring h r) (post_loop post r h2 wrs)"
    if "post h wr = Inr (ret, h1)" "dis_qp_notify h1 r = Inr (ret', h2)" for ret h1 ret' h2
  proof -
    have "only_ring h r h1" "only_ring h1 r h2"
      using assms [of h wr] notify_ring [of h1 r] that by simp_all
    from only_ring_trans [OF this] Cons.IH show ?thesis by (rule leaves_ring_step)
  qed
  moreover have "only_ring h r h1" if "post h wr = Inr (ret, h1)" for ret h1
    using assms [of h wr] that by simp
  ultimately show ?case
    unfolding post_loop.simps by (intro leaves_rbind leaves_split leaves_if) simp_all
qed

lemma post_send_ring: "leaves (only_ring h r) (post_send_loop env h r wrs)"
  and post_recv_ring: "leaves (only_ring h r) (post_recv_loop env h r wrs)"
  unfolding post_loops by (rule post_loop_ring; simp add: post_sqe_one post_rqe_one post_one_ring)+

section \<open>The end of a worker, seen from the queue pair\<close>

definition wq_status :: "heap \<Rightarrow> wq_ref \<Rightarrow> dis_wq_status option" where
  "wq_status h r = (case get_wq h r of Inl _ \<Rightarrow> None | Inr w \<Rightarrow> Some (wq_wq_state w))"

lemma wq_status_Some: "wq_status h r = Some st \<longleftrightarrow> (\<exists>w. get_wq h r = Inr w \<and> wq_wq_state w = st)"
  by (auto simp: wq_status_def split: sum.splits)

lemma await_exited_stuck:
  fixes sch :: "'w sched_env"
  assumes "\<forall>h s. wq_status (fst (msleep sch (h, s))) r = wq_status h r"
    "wq_status h r = Some st" "st \<noteq> DIS_WQ_EXITED"
  shows "await_exited sch h s r = None"
proof -
  define P where "P = (\<lambda>(sch :: 'w sched_env) h (s :: 'w) r (y :: (heap \<times> 'w) kres).
    (\<forall>h s. wq_status (fst (msleep sch (h, s))) r = wq_status h r) \<longrightarrow> wq_status h r \<noteq> Some st)"
  have "P sch h s r y" if "await_exited sch h s r = Some y" for y
    using that
  proof (rule await_exited.raw_induct [where P = P, rotated])
    fix await and sch :: "'w sched_env" and h s r and y :: "(heap \<times> 'w) kres"
    assume IH: "\<And>sch h s r y. await sch h s r = Some y \<Longrightarrow> P sch h s r y"
      and step: "(case get_wq h r of Inl f \<Rightarrow> Some (Inl f)
        | Inr w \<Rightarrow> if wq_wq_state w \<noteq> DIS_WQ_EXITED
            then case msleep sch (h, s) of (h1, s1) \<Rightarrow> await sch h1 s1 r else Some (Inr (h, s))) = Some y"
    obtain h1 s1 where m: "msleep sch (h, s) = (h1, s1)" by (cases "msleep sch (h, s)")
    show "P sch h s r y"
      unfolding P_def
    proof (intro impI notI)
      assume idle: "\<forall>h s. wq_status (fst (msleep sch (h, s))) r = wq_status h r" and now: "wq_status h r = Some st"
      then have "await sch h1 s1 r = Some y"
        using step assms(3) m by (auto simp: wq_status_Some)
      moreover have "wq_status h1 r = Some st" using idle now m by (metis fst_conv)
      ultimately show False using IH idle by (auto simp: P_def)
    qed
  qed
  then show ?thesis using assms(1,2) by (cases "await_exited sch h s r") (auto simp: P_def)
qed

lemma await_exited_returns:
  assumes "wq_status (fst ((msleep sch ^^ n) (h, s))) r = Some DIS_WQ_EXITED"
    "\<forall>i < n. wq_status (fst ((msleep sch ^^ i) (h, s))) r \<noteq> None"
  shows "\<exists>h' s'. await_exited sch h s r = Some (Inr (h', s')) \<and> wq_status h' r = Some DIS_WQ_EXITED"
  using assms
proof (induction n arbitrary: h s)
  case 0
  then show ?case by (subst await_exited.simps) (auto simp: wq_status_Some)
next
  case (Suc n)
  obtain st where st: "wq_status h r = Some st" using Suc.prems(2) by fastforce
  show ?case
  proof (cases "st = DIS_WQ_EXITED")
    case True
    with st show ?thesis by (subst await_exited.simps) (auto simp: wq_status_Some)
  next
    case False
    obtain h1 s1 where m: "msleep sch (h, s) = (h1, s1)" by (cases "msleep sch (h, s)")
    have "\<forall>i < n. wq_status (fst ((msleep sch ^^ i) (h1, s1))) r \<noteq> None"
      using Suc.prems(2) m by (metis Suc_mono comp_apply funpow_Suc_right)
    with Suc.IH [of h1 s1] Suc.prems(1) m
    have "\<exists>h' s'. await_exited sch h1 s1 r = Some (Inr (h', s')) \<and> wq_status h' r = Some DIS_WQ_EXITED"
      by (simp add: funpow_Suc_right del: funpow.simps)
    then show ?thesis using st False m by (subst await_exited.simps) (auto simp: wq_status_Some)
  qed
qed

text \<open>A queue whose worker was created, and \<open>kthread_stop\<close> as documented: it returns after the thread.\<close>

definition has_worker :: "heap \<Rightarrow> wq_ref \<Rightarrow> bool" where
  "has_worker h r \<longleftrightarrow> (case get_wq h r of Inl _ \<Rightarrow> False | Inr w \<Rightarrow>
     DIS_WQ_UNINITIALIZED < wq_wq_state w \<and> wq_wq_state w < DIS_WQ_EXITED
     \<and> (case wq_thread w of Inl _ \<Rightarrow> False
        | Inr t \<Rightarrow> t \<noteq> NULL \<and> (case h_thread h t of None \<Rightarrow> False | Some kt \<Rightarrow> kt_wq kt = r)))"

lemma has_workerE:
  assumes "has_worker h r"
  obtains w t kt where "get_wq h r = Inr w" "wq_wq_state w = DIS_WQ_INITIALIZED \<or> wq_wq_state w = DIS_WQ_RUNNING"
    "wq_thread w = Inr t" "t \<noteq> NULL" "h_thread h t = Some kt" "kt_wq kt = r"
  using assms status_between by (auto simp: has_worker_def split: sum.splits option.splits)

lemma qp_exit_has_worker:
  assumes "has_worker h r"
  obtains t kt where "h_thread h t = Some kt" "kt_wq kt = r"
    "\<And>sch :: 'w sched_env. \<And>s. dis_qp_exit sch h s r = (case kthread_stop sch t (h, s) of (h1, s1) \<Rightarrow> await_exited sch h1 s1 r)"
proof -
  obtain w t kt where *: "get_wq h r = Inr w"
    "wq_wq_state w = DIS_WQ_INITIALIZED \<or> wq_wq_state w = DIS_WQ_RUNNING"
    "wq_thread w = Inr t" "t \<noteq> NULL" "h_thread h t = Some kt" "kt_wq kt = r"
    by (rule has_workerE [OF assms])
  moreover from this have "dis_qp_exit sch h s r = (case kthread_stop sch t (h, s) of (h1, s1) \<Rightarrow> await_exited sch h1 s1 r)"
    for sch :: "'w sched_env" and s
    by (auto simp: dis_qp_exit_def kres_simps)
  ultimately show ?thesis using that by blast
qed

text \<open>
  What \<open>kthread_stop\<close> promises for a thread that has started: it sets the flag that
  \<open>kthread_should_stop\<close> reads, wakes the thread, and returns after the thread has run to its end from
  where it was. \<open>running\<close> is the place where each thread that has started next looks at the flag; for a
  thread that was never run nothing is promised.
\<close>

definition stop_wakes :: "'w kthread_env \<Rightarrow> sci_params \<Rightarrow> 'w scilib \<Rightarrow> 'w sched_env \<Rightarrow> ('w \<Rightarrow> 'w)
    \<Rightarrow> ('w \<Rightarrow> ptr \<Rightarrow> thread_point option) \<Rightarrow> bool" where
  "stop_wakes kt par lib sch set_stop running \<longleftrightarrow> (\<forall>s. stopped kt (set_stop s))
     \<and> (\<forall>h s t x pt ret h' s'. h_thread h t = Some x \<longrightarrow> running s t = Some pt \<longrightarrow>
        thread_rest kt par lib pt h (set_stop s) (kt_wq x) = Some (Inr (ret, h', s')) \<longrightarrow>
        kthread_stop sch t (h, s) = (h', s'))"

section \<open>Examples\<close>

definition ex_attrs :: qp_init_attr where
  "ex_attrs = \<lparr>ia_send_cq = 4, ia_recv_cq = 4, ia_srq = NULL, ia_sq_sig_type = 0, ia_qp_type = 2,
     ia_event_handler = 0, ia_max_send_wr = 1, ia_max_recv_wr = 1, ia_max_send_sge = 4,
     ia_max_recv_sge = 4, ia_max_inline_data = 0\<rparr>"

lemma ex_attrs_ok: "qp_request_ok ex_attrs"
  by (simp add: qp_request_ok_def ex_attrs_def)

lemma ex_qp_table_ok: "qp_table_ok ex_pd_heap 7"
  using ex_pd_heap_ok by (auto simp: mr_table_ok_def qp_table_ok_def ex_pd_heap_def)

text \<open>A scheduler that never lets the worker run, and one that runs it to its end when it is stopped.\<close>

definition ex_sched :: "nat sched_env" where
  "ex_sched = \<lparr>kthread_stop = \<lambda>t x. x, msleep = \<lambda>x. x\<rparr>"

definition ex_running_at :: "thread_point \<Rightarrow> nat \<Rightarrow> ptr \<Rightarrow> thread_point option" where
  "ex_running_at pt s t = (if s = 0 then None else Some pt)"

definition ex_stop_at :: "thread_point \<Rightarrow> nat sched_env" where
  "ex_stop_at pt = \<lparr>kthread_stop = \<lambda>t (h, s). (case h_thread h t of None \<Rightarrow> (h, s)
     | Some x \<Rightarrow> (case ex_running_at pt s t of None \<Rightarrow> (h, s)
       | Some pt \<Rightarrow> (case thread_rest ex_stopping default_params ex_lib pt h 0 (kt_wq x) of
           Some (Inr (ret, h', s')) \<Rightarrow> (h', s') | _ \<Rightarrow> (h, s)))), msleep = \<lambda>x. x\<rparr>"

lemma ex_stopped: "stopped ex_stopping 0"
  by (simp add: stopped_def ex_stopping_def)

lemma ex_stop_wakes:
  "stop_wakes ex_stopping default_params ex_lib (ex_stop_at pt) (\<lambda>_. 0) (ex_running_at pt)"
  using ex_stopped by (auto simp: stop_wakes_def ex_stop_at_def)

text \<open>The example queue of \<open>Worker_Queue\<close> with its worker (thread 20) running and one entry to send.\<close>

definition ex_wq_running :: dis_wq where
  "ex_wq_running = ex_wq\<lparr>wq_wqe_circ := \<lparr>circ_buf_mem = 4, circ_head = 1, circ_tail = 0\<rparr>, wq_wq_type := DIS_SQ,
     wq_wq_state := DIS_WQ_RUNNING, wq_thread := Inr 20\<rparr>"

definition ex_running_heap :: heap where
  "ex_running_heap = set_wq (ex_work_heap ex_entry DIS_SQ) (SqOf 2) ex_wq_running
     \<lparr>h_thread := [20 \<mapsto> \<lparr>kt_wq = SqOf 2, kt_woken = True\<rparr>]\<rparr>"

lemma ex_round: "roundup_pow_of_two 2 = Inr 2"
  by (simp add: roundup_pow_of_two_def fls.simps)

lemma ex_create_qp:
  "dis_create_qp roomy_env ex_pd_heap 7 ex_attrs = Inr (8, created_heap ex_pd_heap (the (h_pd ex_pd_heap 7)) 7 ex_attrs 2 2)"
proof -
  have r: "roundup_pow_of_two (ucast (ia_max_send_wr ex_attrs + 1)) = Inr 2"
    "roundup_pow_of_two (ucast (ia_max_recv_wr ex_attrs + 1)) = Inr 2"
    by (simp_all add: ex_attrs_def ex_round)
  show ?thesis
    by (simp add: dis_create_qp_def ex_pd_heap_def r kres_simps dis_limits Let_def roomy_env_def
        qp_attrs_def sq_attrs_def rq_attrs_def register_qp_def put_qp_def new_wqes_def created_heap_def
        created_qp_def zero_qp_def zero_wq_def)
qed


text \<open>The store after creating that queue pair, and a change to RTR.\<close>

definition ex_created :: heap where
  "ex_created = created_heap ex_pd_heap (the (h_pd ex_pd_heap 7)) 7 ex_attrs 2 2"

definition ex_rtr :: qp_attr where
  "ex_rtr = \<lparr>qa_qp_state = IB_QPS_RTR, qa_path_mtu = IB_MTU_4096, qa_dest_qp_num = 5\<rparr>"

lemma ex_created_ok: "heap_ok ex_created"
proof -
  have "h_pd ex_pd_heap 7 = Some (the (h_pd ex_pd_heap 7))" "pd_qp_c (the (h_pd ex_pd_heap 7)) < DIS_QP_MAX"
    by (simp_all add: ex_pd_heap_def dis_limits)
  from created_table_ok(1) [OF ex_qp_table_ok this] show ?thesis by (simp add: ex_created_def qp_table_ok_def)
qed

lemma ex_created_qp:
  defines "qp \<equiv> created_qp (the (h_pd ex_pd_heap 7)) 7 ex_attrs 8 2 2"
  shows "h_qp ex_created 8 = Some qp" "qp_l_qpn qp = 100"
    "wq_wq_state (qp_rq qp) \<noteq> DIS_WQ_EXITED" "wq_wq_state (qp_sq qp) \<noteq> DIS_WQ_EXITED"
  by (simp_all add: qp_def ex_created_def created_heap_def created_qp_def qp_attrs_def Let_def ex_pd_heap_def
      dis_limits set_buf_def sq_attrs_def rq_attrs_def zero_wq_def)

section \<open>Properties\<close>

text \<open>
  C11. Creating a queue pair is all or nothing. For ring sizes that fit an index, \<open>dis_create_qp\<close> either
  returns \<open>NULL\<close> and leaves every object as it was (each error path frees what it took), or registers a
  fresh queue pair under the next number, in state RESET, with a send and a receive queue that are
  empty, not started, and have room for at least as many requests as were asked for.
\<close>

theorem create_qp_all_or_nothing:
  assumes "qp_table_ok h ibpd" "qp_request_ok ia"
  shows "(\<exists>n. dis_create_qp env h ibpd ia = Inr (NULL, h\<lparr>h_next := n\<rparr>))
    \<or> (\<exists>p h' qp. dis_create_qp env h ibpd ia = Inr (p, h') \<and> p \<noteq> NULL \<and> h_qp h p = None
      \<and> h_qp h' = (h_qp h)(p \<mapsto> qp) \<and> qp_state qp = IB_QPS_RESET
      \<and> unat (qp_ibqp_qp_num qp) = qp_count h ibpd \<and> qp_l_qpn qp = qp_ibqp_qp_num qp
      \<and> qp_table_ok h' ibpd \<and> qp_lookup h' ibpd = (qp_lookup h ibpd)(qp_count h ibpd \<mapsto> p)
      \<and> created_queue h' (SqOf p) (ia_max_send_wr ia) \<and> created_queue h' (RqOf p) (ia_max_recv_wr ia))"
proof -
  obtain pd where pd: "h_pd h ibpd = Some pd" "0 < h_next h" "heap_ok h"
    using assms(1) by (auto elim: qp_table_okE)
  then have fresh: "h_qp h (h_next h) = None" by (simp add: heap_ok_def fresh_in_next)
  show ?thesis
    using create_qp_ok [OF assms(1) pd(1) assms(2), of env]
  proof (elim disjE exE conjE, goal_cases)
    case (1 k)
    then show ?case by blast
  next
    case (2 n m)
    note table = created_table_ok [OF assms(1) pd(1) 2(1), of ia n m]
    have "h_qp (created_heap h pd ibpd ia n m)
        = (h_qp h)(h_next h \<mapsto> created_qp pd ibpd ia (h_next h) n m)"
      by (simp add: created_heap_def Let_def)
    with 2 table pd fresh show ?case
      by (intro disjI2 exI [of _ "h_next h"] exI [of _ "created_heap h pd ibpd ia n m"]
          exI [of _ "created_qp pd ibpd ia (h_next h) n m"])
        (simp add: created_qp_def qp_attrs_def qp_count_def)
  qed
qed

theorem create_qp_all_or_nothing_witness:
  "\<exists>p h'. dis_create_qp roomy_env ex_pd_heap 7 ex_attrs = Inr (p, h') \<and> p \<noteq> NULL
    \<and> created_queue h' (SqOf p) 1 \<and> created_queue h' (RqOf p) 1"
proof -
  have "ia_max_send_wr ex_attrs = 1" "ia_max_recv_wr ex_attrs = 1" by (simp_all add: ex_attrs_def)
  with create_qp_all_or_nothing [OF ex_qp_table_ok ex_attrs_ok, of roomy_env] show ?thesis
    by (auto simp: ex_create_qp)
qed

text \<open>
  C20. Over any sequence of creations in a protection domain, refused or not, the numbers the queue
  pairs created carry, \<open>qp_num\<close> for the core and \<open>l_qpn\<close> for the message queues, are consecutive, each
  names its own queue pair in the domain's table from then on, they stay below \<open>DIS_QP_MAX\<close>, and no
  creation changes the numbers of a queue pair there was before.
\<close>

theorem qp_numbers_unique:
  assumes "qp_table_ok h pdp" "\<forall>ia \<in> set ias. qp_request_ok ia"
  shows "\<exists>ps h'. register_all (\<lambda>h. dis_create_qp env h pdp) ias h = Inr (ps, h') \<and> qp_table_ok h' pdp
    \<and> distinct ps \<and> qp_count h' pdp = qp_count h pdp + length ps \<and> qp_count h' pdp \<le> unat DIS_QP_MAX
    \<and> (\<forall>i < length ps. qp_lookup h' pdp (qp_count h pdp + i) = Some (ps ! i))
    \<and> (\<forall>k < qp_count h pdp. qp_lookup h' pdp k = qp_lookup h pdp k)
    \<and> (\<forall>i < length ps. qp_nums h' (ps ! i)
        = Some (of_nat (qp_count h pdp + i), of_nat (qp_count h pdp + i)))
    \<and> (\<forall>p. qp_nums h p \<noteq> None \<longrightarrow> qp_nums h' p = qp_nums h p)"
proof -
  obtain ps h' where *: "register_all (\<lambda>h. dis_create_qp env h pdp) ias h = Inr (ps, h')"
    "qp_table_ok h' pdp" "qp_count h' pdp = qp_count h pdp + length ps" "distinct ps"
    "\<forall>i < length ps. qp_lookup h' pdp (qp_count h pdp + i) = Some (ps ! i)"
    "\<forall>k < qp_count h pdp. qp_lookup h' pdp k = qp_lookup h pdp k"
    "\<forall>i < length ps. qp_nums h' (ps ! i)
        = Some (of_nat (qp_count h pdp + i), of_nat (qp_count h pdp + i))"
    "\<forall>p. qp_nums h p \<noteq> None \<longrightarrow> qp_nums h' p = qp_nums h p"
    using qpt.register_all_keys [OF assms, of env] by blast
  moreover have "qp_count h' pdp \<le> unat DIS_QP_MAX" by (rule qpt.count_limit [OF *(2)])
  ultimately show ?thesis by blast
qed

theorem qp_numbers_unique_witness:
  "\<exists>ps h'. register_all (\<lambda>h. dis_create_qp roomy_env h 7) [ex_attrs, ex_attrs] ex_pd_heap = Inr (ps, h')
    \<and> distinct ps \<and> qp_count h' 7 = 100 + length ps
    \<and> (\<forall>i < length ps. qp_nums h' (ps ! i) = Some (100 + of_nat i, 100 + of_nat i))"
proof -
  have "qp_count ex_pd_heap 7 = 100" by (simp add: qp_count_def ex_pd_heap_def dis_limits)
  with qp_numbers_unique [OF ex_qp_table_ok, of "[ex_attrs, ex_attrs]" roomy_env] ex_attrs_ok
  show ?thesis by auto
qed

text \<open>
  Queue pair numbers are unique only within a protection domain: creations in two domains that
  have handed out equally many numbers give two live queue pairs with the same number, which is the
  number the message queue identifiers are computed from.
\<close>

lemma qp_numbers_collide:
  assumes "qp_table_ok h pa" "qp_table_ok h pb" "pa \<noteq> pb" "qp_count h pa = qp_count h pb"
    "qp_request_ok ia" "qp_request_ok ib"
    "dis_create_qp env h pa ia = Inr (p, h1)" "p \<noteq> NULL"
    "dis_create_qp env h1 pb ib = Inr (q, h2)" "q \<noteq> NULL"
  shows "p \<noteq> q \<and> (\<exists>qp qp'. h_qp h2 p = Some qp \<and> h_qp h2 q = Some qp'
    \<and> qp_ibqp_qp_num qp = qp_ibqp_qp_num qp' \<and> qp_l_qpn qp = qp_l_qpn qp')"
proof -
  obtain pda pdb where pd: "h_pd h pa = Some pda" "h_pd h pb = Some pdb"
    using assms(1,2) by (auto elim!: qp_table_okE)
  then have same: "pd_qp_c pda = pd_qp_c pdb" using assms(4) by (simp add: qp_count_def word_unat_eq_iff)
  obtain n m where 1: "h1 = created_heap h pda pa ia n m" "p = h_next h" "pd_qp_c pda < DIS_QP_MAX"
    using create_qp_ok [OF assms(1) pd(1) assms(5), of env] assms(7,8) by auto
  have pdb: "h_pd h1 pb = Some pdb" using 1 assms(3) pd(2) by (simp add: created_heap_def Let_def)
  have "heap_ok h1" using created_table_ok(1) [OF assms(1) pd(1) 1(3)] 1(1) by (auto simp: qp_table_ok_def)
  moreover have "\<forall>x \<in> set (pd_qp_list pdb). x < h_next h1"
    using assms(2) pd(2) 1(1) by (fastforce simp: qp_table_ok_def created_heap_def Let_def)
  ultimately have "qp_table_ok h1 pb" using pdb assms(2) pd(2) by (simp add: qp_table_ok_def)
  then obtain n' m' where 2: "h2 = created_heap h1 pdb pb ib n' m'" "q = h_next h1"
    using create_qp_ok [of h1 pb pdb ib env] pdb assms(6,9,10) by auto
  have "h_next h1 = h_next h + 3" using 1 by (simp add: created_heap_def Let_def)
  with 1 2 same show ?thesis
    by (simp add: created_heap_def created_qp_def qp_attrs_def Let_def)
qed

text \<open>
  C23. Destroying a queue pair that was never started gives back all that its creation took, the queue
  pair and both rings, without waiting for anything; but the protection domain keeps the pointer
  under the number, and the number is not given back.
\<close>

theorem destroy_unstarted_balanced:
  assumes "qp_table_ok h ibpd" "qp_request_ok ia" "dis_create_qp env h ibpd ia = Inr (p, h1)" "p \<noteq> NULL"
  shows "\<exists>h2. dis_destroy_qp sch h1 s p = Some (Inr (0, h2, s)) \<and> h_qp h2 = h_qp h \<and> h_wqe h2 = h_wqe h
    \<and> h_qp h2 p = None \<and> qp_lookup h2 ibpd (qp_count h ibpd) = Some p \<and> qp_count h2 ibpd = Suc (qp_count h ibpd)"
proof -
  obtain pd where pd: "h_pd h ibpd = Some pd" "0 < h_next h" "heap_ok h"
    using assms(1) by (auto elim: qp_table_okE)
  then obtain n m where c: "h1 = created_heap h pd ibpd ia n m" "p = h_next h" "pd_qp_c pd < DIS_QP_MAX"
    using create_qp_ok [OF assms(1) pd(1) assms(2), of env] assms(3,4) by auto
  note table = created_table_ok [OF assms(1) pd(1) c(3), of ia n m, folded c(1)]
  let ?qp = "created_qp pd ibpd ia p n m"
  have q: "h_qp h1 = (h_qp h)(p \<mapsto> ?qp)"
    "h_wqe h1 = (h_wqe h)(Suc p \<mapsto> replicate (unat n) zero_wqe, Suc (Suc p) \<mapsto> replicate (unat m) zero_wqe)"
    using c by (simp_all add: created_heap_def Let_def)
  have f: "h_qp h p = None" "h_wqe h (Suc p) = None" "h_wqe h (Suc (Suc p)) = None"
    using pd c(2) by (auto simp: heap_ok_def fresh_in_def)
  have idle: "dis_qp_exit sch h1 s (SqOf p) = Some (Inr (h1, s))" "dis_qp_exit sch h1 s (RqOf p) = Some (Inr (h1, s))"
    using assms(4) by (simp_all add: dis_qp_exit_def kres_simps q created_qp_def set_buf_def sq_attrs_def
        rq_attrs_def zero_wq_def)
  have mem: "circ_buf_mem (wq_wqe_circ (qp_sq ?qp)) = Suc p" "circ_buf_mem (wq_wqe_circ (qp_rq ?qp)) = Suc (Suc p)"
    by (simp_all add: created_qp_def set_buf_def)
  have w: "(h_wqe h)(Suc p := None, Suc (Suc p) := None) = h_wqe h" "(h_qp h)(p := None) = h_qp h"
    using f by auto
  have "dis_destroy_qp sch h1 s p = Some (Inr (0, h1\<lparr>h_wqe := h_wqe h, h_qp := h_qp h\<rparr>, s))"
    using assms(4) f w by (simp add: dis_destroy_qp_def Let_def idle kres_simps q mem fun_upd_twist fun_upd_idem)
  moreover have "qp_lookup (h1\<lparr>h_wqe := a, h_qp := b\<rparr>) ibpd = qp_lookup h1 ibpd"
    "qp_count (h1\<lparr>h_wqe := a, h_qp := b\<rparr>) ibpd = qp_count h1 ibpd" for a b
    by (simp_all add: qp_lookup_def qp_count_def fun_eq_iff)
  ultimately show ?thesis using table f c(2) by simp
qed

theorem destroy_unstarted_balanced_witness:
  "\<exists>h1 h2. dis_create_qp roomy_env ex_pd_heap 7 ex_attrs = Inr (8, h1)
    \<and> dis_destroy_qp ex_sched h1 0 8 = Some (Inr (0, h2, 0)) \<and> h_qp h2 = h_qp ex_pd_heap"
  using destroy_unstarted_balanced [OF ex_qp_table_ok ex_attrs_ok ex_create_qp, of ex_sched 0] ex_create_qp by auto

text \<open>
  C16. Posting a list of send requests. Whatever the state of the queue pair, \<open>dis_post_send\<close> accepts
  the requests in order until the send queue is full: it returns 0 if all fit and -42 otherwise, and
  what it adds to the queue is exactly the longest prefix of the list that fits. (The caller cannot
  tell how long that is: \<open>bad_wr\<close> is never written.)
\<close>

theorem post_send_prefix:
  assumes "wq_live (SqOf p) h" "\<forall>wr \<in> set wrs. postable env (SqOf p) h wr"
  shows "\<exists>h'. dis_post_send env h p wrs
      = Inr (if length wrs \<le> wq_cap h (SqOf p) - length (wq_list h (SqOf p)) then 0 else -42, h')
    \<and> wq_live (SqOf p) h' \<and> wq_cap h' (SqOf p) = wq_cap h (SqOf p)
    \<and> map wqe_view (wq_list h' (SqOf p)) = map wqe_view (wq_list h (SqOf p))
        @ map (request_view (ucast IB_WC_SEND)) (take (wq_cap h (SqOf p) - length (wq_list h (SqOf p))) wrs)"
  using post_loop_prefix [OF sqq.bounded_queue_axioms assms] by (simp add: dis_post_send_def post_loops)

theorem post_send_prefix_witness:
  "\<exists>h'. dis_post_send roomy_env ex_wq_heap 2 (replicate 4 (ex_request 0x8800 0x1000 0)) = Inr (-42, h')
    \<and> length (wq_list h' (SqOf 2)) = 3"
proof -
  have "wq_live (SqOf 2) ex_wq_heap"
    by (simp add: wq_live_def ex_wq_ok) (auto simp: ex_wq_heap_def fresh_in_def)
  moreover have "postable roomy_env (SqOf 2) ex_wq_heap (ex_request 0x8800 0x1000 0)"
    by (simp add: postable_def ex_wq_state ex_request_user roomy_iov_sized DIS_SGE_PER_WQE_def)
  ultimately obtain h' where "dis_post_send roomy_env ex_wq_heap 2 (replicate 4 (ex_request 0x8800 0x1000 0)) = Inr (-42, h')"
    "map wqe_view (wq_list h' (SqOf 2)) = map (request_view (ucast IB_WC_SEND)) (replicate 3 (ex_request 0x8800 0x1000 0))"
    using post_send_prefix [of 2 ex_wq_heap "replicate 4 (ex_request 0x8800 0x1000 0)" roomy_env]
    unfolding ex_wq_state by (auto simp del: replicate.simps)
  moreover from arg_cong [OF this(2), of length] have "length (wq_list h' (SqOf 2)) = 3"
    by simp
  ultimately show ?thesis by blast
qed

lemma post_recv_prefix:
  assumes "wq_live (RqOf p) h" "\<forall>wr \<in> set wrs. postable env (RqOf p) h wr"
  shows "\<exists>h'. dis_post_recv env h p wrs
      = Inr (if length wrs \<le> wq_cap h (RqOf p) - length (wq_list h (RqOf p)) then 0 else -42, h')
    \<and> wq_live (RqOf p) h' \<and> wq_cap h' (RqOf p) = wq_cap h (RqOf p)
    \<and> map wqe_view (wq_list h' (RqOf p)) = map wqe_view (wq_list h (RqOf p))
        @ map (request_view (ucast IB_WC_RECV)) (take (wq_cap h (RqOf p) - length (wq_list h (RqOf p))) wrs)"
  using post_loop_prefix [OF rqq.bounded_queue_axioms assms] by (simp add: dis_post_recv_def post_loops)

text \<open>
  C17. Moving to RTR starts the workers. From any state in which neither worker has exited, the change
  returns 0 and leaves a queue pair in state RTR in which both queues are initialised and each has a
  fresh thread that was woken and works on that queue; if the mask has \<open>IB_QP_DEST_QPN\<close>, the four
  queue pair numbers are the local number, whatever destination was given, and if it has
  \<open>IB_QP_PATH_MTU\<close>, all three path units are the one given.
\<close>

theorem rtr_starts_workers:
  assumes "h_qp h p = Some qp" "heap_ok h" "\<forall>h'. k_kthread_create env h' = None"
    "wq_wq_state (qp_rq qp) \<noteq> DIS_WQ_EXITED" "wq_wq_state (qp_sq qp) \<noteq> DIS_WQ_EXITED"
    "attr_mask AND IB_QP_STATE \<noteq> 0" "qa_qp_state attr = IB_QPS_RTR"
  shows "\<exists>h' qp' t t'. dis_modify_qp env h p attr attr_mask = Inr (0, h') \<and> h_qp h' = (h_qp h)(p \<mapsto> qp')
    \<and> qp_state qp' = IB_QPS_RTR \<and> t \<noteq> t' \<and> h_thread h t = None \<and> h_thread h t' = None
    \<and> h_thread h' = (h_thread h)(t \<mapsto> \<lparr>kt_wq = RqOf p, kt_woken = True\<rparr>, t' \<mapsto> \<lparr>kt_wq = SqOf p, kt_woken = True\<rparr>)
    \<and> wq_thread (qp_rq qp') = Inr t \<and> wq_thread (qp_sq qp') = Inr t'
    \<and> wq_wq_state (qp_rq qp') = DIS_WQ_INITIALIZED \<and> wq_wq_state (qp_sq qp') = DIS_WQ_INITIALIZED
    \<and> has_worker h' (RqOf p) \<and> has_worker h' (SqOf p)
    \<and> (attr_mask AND IB_QP_DEST_QPN \<noteq> 0 \<longrightarrow>
         (\<forall>w \<in> {qp_rq qp', qp_sq qp'}. wq_l_qpn w = qp_l_qpn qp \<and> wq_r_qpn w = qp_l_qpn qp))
    \<and> (attr_mask AND IB_QP_PATH_MTU \<noteq> 0 \<longrightarrow>
         (\<forall>w \<in> {qp_rq qp', qp_sq qp'}. wq_mtu w = ib_mtu_enum_to_int (qa_path_mtu attr)))"
proof -
  let ?n = "h_next h" and ?qp = "rtr_qp attr attr_mask qp (h_next h) (Suc (h_next h))"
  have p: "p \<noteq> NULL" "0 < ?n" "h_thread h ?n = None" "h_thread h (Suc ?n) = None"
    using assms(1,2) by (cases p; auto simp: heap_ok_def fresh_in_def)+
  note m = modify_rtr [OF assms(1) p(1,2) assms(3-7)]
  show ?thesis
    by (rule exI, rule exI [of _ ?qp], rule exI [of _ ?n], rule exI [of _ "Suc ?n"], rule conjI, rule m)
      (use p in \<open>auto simp: rtr_qp_def started_def set_qpns_def set_mtu_def Let_def has_worker_def status_between kres_simps\<close>)
qed

theorem rtr_starts_workers_witness:
  "\<exists>h' qp' t. dis_modify_qp roomy_env ex_created 8 ex_rtr (IB_QP_STATE OR IB_QP_DEST_QPN) = Inr (0, h')
    \<and> h_qp h' 8 = Some qp' \<and> qp_state qp' = IB_QPS_RTR \<and> wq_thread (qp_rq qp') = Inr t \<and> wq_r_qpn (qp_sq qp') = 100"
proof -
  have mask: "(IB_QP_STATE OR IB_QP_DEST_QPN) AND IB_QP_STATE \<noteq> 0" "(IB_QP_STATE OR IB_QP_DEST_QPN) AND IB_QP_DEST_QPN \<noteq> 0"
    by (simp_all add: IB_QP_STATE_def IB_QP_DEST_QPN_def)
  show ?thesis
    using rtr_starts_workers [OF ex_created_qp(1) ex_created_ok _ ex_created_qp(3,4) mask(1), of roomy_env ex_rtr]
      mask ex_created_qp(2)
    by (auto simp: roomy_env_def ex_rtr_def)
qed

lemma rtr_qp_threads:
  "wq_thread (qp_rq (rtr_qp attr attr_mask qp t t')) = Inr t" "wq_thread (qp_sq (rtr_qp attr attr_mask qp t t')) = Inr t'"
  by (simp_all add: rtr_qp_def started_def Let_def)

text \<open>
  A second change to RTR is not refused. It starts a second pair of workers on the same two queues
  while the first pair still runs: the receive queue then has two live threads working on it, and
  only the second can be stopped, because the queue has lost the first.
\<close>

lemma rtr_twice_two_workers:
  assumes "h_qp h p = Some qp" "heap_ok h" "\<forall>h'. k_kthread_create env h' = None"
    "wq_wq_state (qp_rq qp) \<noteq> DIS_WQ_EXITED" "wq_wq_state (qp_sq qp) \<noteq> DIS_WQ_EXITED"
    "attr_mask AND IB_QP_STATE \<noteq> 0" "qa_qp_state attr = IB_QPS_RTR"
  shows "\<exists>h1 h2 w t t'. dis_modify_qp env h p attr attr_mask = Inr (0, h1)
    \<and> dis_modify_qp env h1 p attr attr_mask = Inr (0, h2) \<and> t \<noteq> t'
    \<and> h_thread h2 t = Some \<lparr>kt_wq = RqOf p, kt_woken = True\<rparr>
    \<and> h_thread h2 t' = Some \<lparr>kt_wq = RqOf p, kt_woken = True\<rparr>
    \<and> get_wq h2 (RqOf p) = Inr w \<and> wq_thread w = Inr t'"
proof -
  let ?n = "h_next h" and ?qp = "rtr_qp attr attr_mask qp (h_next h) (Suc (h_next h))"
  let ?h1 = "h\<lparr>h_next := ?n + 2, h_qp := (h_qp h)(p \<mapsto> ?qp), h_thread := (h_thread h)
    (?n \<mapsto> \<lparr>kt_wq = RqOf p, kt_woken = True\<rparr>, Suc ?n \<mapsto> \<lparr>kt_wq = SqOf p, kt_woken = True\<rparr>)\<rparr>"
  let ?n' = "h_next ?h1"
  have p: "p \<noteq> NULL" "0 < ?n"
    using assms(1,2) by (cases p; auto simp: heap_ok_def fresh_in_def)+
  have "wq_wq_state (qp_rq ?qp) \<noteq> DIS_WQ_EXITED" "wq_wq_state (qp_sq ?qp) \<noteq> DIS_WQ_EXITED"
    "h_qp ?h1 p = Some ?qp" "0 < h_next ?h1"
    by (simp_all add: rtr_qp_def started_def Let_def)
  note 2 = modify_rtr [OF this(3) p(1) this(4) assms(3) this(1,2) assms(6,7)]
  show ?thesis
    by (rule exI [of _ ?h1], rule exI, rule exI [of _ "qp_rq (rtr_qp attr attr_mask ?qp ?n' (Suc ?n'))"], rule exI [of _ ?n], rule exI [of _ ?n'],
        rule conjI, rule modify_rtr [OF assms(1) p assms(3-7)], rule conjI, rule 2)
      (use p in \<open>auto simp: kres_simps rtr_qp_threads\<close>)
qed

text \<open>
  C18. The end of a worker that is running. Wherever the thread stands when \<open>kthread_stop\<close> sets its flag,
  in its setup, asleep, looking for work, or with an entry in hand, \<open>dis_qp_exit\<close> returns, with the
  queue marked exited (unless the entry in hand faults): a thread in its setup leaves just that mark,
  one with nothing in hand takes down its message queue first. From then on a second \<open>dis_qp_exit\<close>
  does nothing and the queue cannot be started again.
\<close>

theorem qp_exit_stops_worker:
  assumes "stop_wakes kt par lib sch set_stop running" "has_worker h r"
    "get_wq h r = Inr w" "wq_wq_state w = DIS_WQ_RUNNING" "wq_thread w = Inr t" "running s t = Some pt"
    "\<forall>f. thread_rest kt par lib pt h (set_stop s) r \<noteq> Some (Inl f)"
  shows "\<exists>ret h' s'. thread_rest kt par lib pt h (set_stop s) r = Some (Inr (ret, h', s'))
    \<and> dis_qp_exit sch h s r = Some (Inr (h', s')) \<and> wq_status h' r = Some DIS_WQ_EXITED
    \<and> (pt = InInit \<longrightarrow> h' = set_wq h r (w\<lparr>wq_wq_state := DIS_WQ_EXITED\<rparr>))
    \<and> (pt \<in> {AtLoop, InConsume, Asleep} \<longrightarrow> Inr (ret, h', s') = thread_end lib h (set_stop s) r)
    \<and> dis_qp_exit sch h' s' r = Some (Inr (h', s')) \<and> dis_qp_init env h' r = Inr (-42, h')"
proof -
  have st: "stopped kt (set_stop s)" using assms(1) by (simp add: stop_wakes_def)
  from thread_rest_stopped [OF st, of r par lib pt h] assms(7) obtain ret h' s' w' where
    run: "thread_rest kt par lib pt h (set_stop s) r = Some (Inr (ret, h', s'))"
      and w': "get_wq h' r = Inr w'" "wq_wq_state w' = DIS_WQ_EXITED"
    unfolding ends_exited_def by (metis prod_cases3 sum.exhaust)
  obtain x where x: "h_thread h t = Some x" "kt_wq x = r" "t \<noteq> NULL"
    using assms(2,3,5) by (auto elim: has_workerE)
  have stop: "kthread_stop sch t (h, s) = (h', s')"
    using assms(1,6) x run unfolding stop_wakes_def by metis
  moreover have "await_exited sch h' s' r = Some (Inr (h', s'))"
    using w' by (subst await_exited.simps) simp
  ultimately have ex: "dis_qp_exit sch h s r = Some (Inr (h', s'))"
    using assms(3-5) x by (simp add: dis_qp_exit_def kres_simps)
  have "h' = set_wq h r (w\<lparr>wq_wq_state := DIS_WQ_EXITED\<rparr>)" if "pt = InInit"
    using run that st assms(3) unfolding that rest_init by (simp add: stopped_def set_wq_state_def)
  moreover have "Inr (ret, h', s') = thread_end lib h (set_stop s) r" if "pt \<in> {AtLoop, InConsume, Asleep}"
    using run that rest_stopped [OF st, of lib h r] by auto
  ultimately show ?thesis
    using run ex w' by (auto simp: wq_status_Some dis_qp_exit_def dis_qp_init_def)
qed

text \<open>
  C36. A worker that is stopped before it ever ran is waited for without end. \<open>kthread_stop\<close> does not
  run the function of a thread that has not started yet, so nothing marks the queue exited: if the
  state of the queue stays what it is, \<open>dis_qp_exit\<close>, and with it \<open>dis_destroy_qp\<close>, never returns.
\<close>

theorem qp_exit_waits_forever:
  assumes "has_worker h r" "\<forall>t h s. wq_status (fst (kthread_stop sch t (h, s))) r = wq_status h r"
    "\<forall>h s. wq_status (fst (msleep sch (h, s))) r = wq_status h r"
  shows "dis_qp_exit sch h s r = None \<and> (r = RqOf p \<longrightarrow> dis_destroy_qp sch h s p = None)"
proof -
  obtain t x where t: "\<And>(sch :: 'a sched_env) s. dis_qp_exit sch h s r
      = (case kthread_stop sch t (h, s) of (h1, s1) \<Rightarrow> await_exited sch h1 s1 r)"
    using qp_exit_has_worker [OF assms(1)] by metis
  obtain h1 s1 where stop: "kthread_stop sch t (h, s) = (h1, s1)" by (cases "kthread_stop sch t (h, s)")
  obtain st where "wq_status h r = Some st" "st \<noteq> DIS_WQ_EXITED"
    using assms(1) by (auto simp: wq_status_Some elim!: has_workerE)
  moreover have "wq_status h1 r = wq_status h r" using assms(2) stop by (metis fst_conv)
  ultimately have "dis_qp_exit sch h s r = None"
    using await_exited_stuck [OF assms(3), of h1 st s1] t stop by simp
  then show ?thesis by (auto simp: dis_destroy_qp_def Let_def)
qed


lemma ex_started:
  "\<exists>h. dis_modify_qp roomy_env ex_created 8 ex_rtr IB_QP_STATE = Inr (0, h) \<and> has_worker h (RqOf 8)"
proof -
  have n: "h_next ex_created = 11" by (simp add: ex_created_def created_heap_def ex_pd_heap_def Let_def)
  show ?thesis
    using modify_rtr [OF ex_created_qp(1) _ _ _ ex_created_qp(3,4), of roomy_env IB_QP_STATE ex_rtr]
    by (simp add: n roomy_env_def IB_QP_STATE_def ex_rtr_def has_worker_def status_between kres_simps rtr_qp_def started_def Let_def)
qed

lemma ex_running_queue:
  "get_wq ex_running_heap (SqOf 2) = Inr ex_wq_running" "has_worker ex_running_heap (SqOf 2)"
  "wq_wq_state ex_wq_running = DIS_WQ_RUNNING" "wq_thread ex_wq_running = Inr 20"
proof -
  show g: "get_wq ex_running_heap (SqOf 2) = Inr ex_wq_running"
    by (simp add: ex_running_heap_def ex_work_heap_def kres_simps)
  show st: "wq_wq_state ex_wq_running = DIS_WQ_RUNNING" "wq_thread ex_wq_running = Inr 20"
    by (simp_all add: ex_wq_running_def)
  show "has_worker ex_running_heap (SqOf 2)"
    using st by (simp add: has_worker_def g less_dis_wq_status_def del: get_wq.simps)
      (simp add: ex_running_heap_def)
qed

lemma ex_running_work:
  "wq_front ex_running_heap (SqOf 2) = Inr (Some (4, 0))" "wq_list ex_running_heap (SqOf 2) = [ex_entry]"
  "get_wqe ex_running_heap (4, 0) = Inr ex_entry" "work_ok ex_running_heap (SqOf 2)"
  "cq_ok ex_running_heap 7" "cq_list ex_running_heap 7 = []" "cq_cap ex_running_heap 7 = 3"
proof -
  let ?h = ex_running_heap
  have ring: "wq_wqe_circ ex_wq_running = \<lparr>circ_buf_mem = 4, circ_head = 1, circ_tail = 0\<rparr>"
    "wq_wqe_max ex_wq_running = 4" "wq_ibqp ex_wq_running = 2" "h_wqe ?h 4 = Some (ex_entry # replicate 3 zero_wqe)"
    by (simp_all add: ex_wq_running_def ex_wq_fields ex_running_heap_def ex_work_heap_def)
  note g = ex_running_queue(1)
  show l: "wq_list ?h (SqOf 2) = [ex_entry]"
    by (simp add: wq_list_def g ring circ_list_def ring_list_def ring_cnt_def del: get_wq.simps)
  show "wq_front ?h (SqOf 2) = Inr (Some (4, 0))"
    by (simp add: wq_front_def g ring CIRC_CNT_def int_to_ulong_def del: get_wq.simps)
  show "get_wqe ?h (4, 0) = Inr ex_entry" by (simp add: kres_simps ring)
  have "h_qp ?h 2 = Some (zero_qp\<lparr>qp_ibqp_pd := 3, qp_sq := ex_wq_running\<rparr>)" "h_pd ?h 3 = Some ex_pd"
    "\<forall>e \<in> set (ex_entry # replicate 3 zero_wqe). length (wqe_page_map_static e) = DIS_SGE_PER_WQE"
    by (simp_all add: ex_running_heap_def ex_work_heap_def ex_wq_heap_def ex_entry_def zero_wqe_def DIS_SGE_PER_WQE_def)
  then have "wq_ok ?h (SqOf 2)"
    by (simp add: wq_ok_def g ring deref_Some circ_ok_def zero_qp_def del: get_wq.simps)
  moreover have "entry_ok ?h (SqOf 2) ex_entry" "dyn_maps [ex_entry] = []"
    by (simp_all add: entry_ok_def ex_entry_def msg_iovs_def zero_wqe_def Let_def)
  ultimately show "work_ok ?h (SqOf 2)" by (simp add: work_ok_def l)
  have "h_cq ?h = h_cq (ex_work_heap ex_entry DIS_SQ)" "h_cqe ?h = h_cqe (ex_work_heap ex_entry DIS_SQ)"
    by (simp_all add: ex_running_heap_def heap_simps del: set_wq.simps)
  then show "cq_ok ?h 7" "cq_list ?h 7 = []" "cq_cap ?h 7 = 3"
    using ex_work_cq [of ex_entry DIS_SQ]
    by (simp_all add: cq_ok_def cq_list_def cq_cap_def cong: option.case_cong)
qed

lemma ex_sending_ends:
  "thread_rest ex_stopping default_params ex_lib (InSend (4, 0) 0) ex_running_heap 0 (SqOf 2) \<noteq> Some (Inl f)"
proof -
  let ?h = ex_running_heap and ?c = "cqe_of ex_entry IB_WC_RESP_TIMEOUT_ERR"
  note h = ex_running_work
  have cq: "wq_cq ex_wq_running = 7" by (simp add: ex_wq_running_def ex_wq_fields)
  from consume_step [OF h(4,2) ex_running_queue(1) h(5) _ h(1), of ?c] h(6,7) obtain h3 w3 where
    h3: "rbind (release_map (cq_pushed ?h 7 ?c) (4, 0)) (\<lambda>h2. wq_advance h2 (SqOf 2)) = Inr h3"
      "get_wq h3 (SqOf 2) = Inr w3" by auto
  have "finish_sqe ?h (0 :: nat) (SqOf 2) (4, 0) IB_WC_RESP_TIMEOUT_ERR
      = Inr (IB_WC_RESP_TIMEOUT_ERR, cq_pushed ?h 7 ?c, 0)"
    using h(3) post_sqe_cqe_room [OF h(5) ex_running_queue(1) cq] h(6,7) by (simp add: finish_sqe_def)
  then have "thread_rest ex_stopping default_params ex_lib (InSend (4, 0) 0) ?h 0 (SqOf 2)
      = Some (thread_end ex_lib h3 0 (SqOf 2))"
    using h3(1) rest_stopped(3) [OF ex_stopped]
    by (simp add: sqe_loop.simps [of _ _ ?h] ex_stopping_def rest_entry_def)
  then show ?thesis
    using h3(2)
    by (auto simp: thread_end_def dis_wq_exit_def dis_sci_if_disconnect_msq_def dis_sci_if_remove_msq_def
        set_wq_state_def heap_simps split: prod.splits dis_wq_type.splits simp del: get_wq.simps set_wq.simps)
qed

theorem qp_exit_stops_worker_witness:
  "\<exists>h' s'. dis_qp_exit (ex_stop_at (InSend (4, 0) 0)) ex_running_heap 5 (SqOf 2) = Some (Inr (h', s'))
    \<and> wq_status h' (SqOf 2) = Some DIS_WQ_EXITED"
proof -
  have "ex_running_at (InSend (4, 0) 0) 5 20 = Some (InSend (4, 0) 0)" by (simp add: ex_running_at_def)
  from qp_exit_stops_worker [OF ex_stop_wakes ex_running_queue(2,1,3,4) this, of roomy_env] ex_sending_ends
  show ?thesis by blast
qed

theorem qp_exit_waits_forever_witness:
  "\<exists>h. dis_modify_qp roomy_env ex_created 8 ex_rtr IB_QP_STATE = Inr (0, h)
    \<and> dis_destroy_qp ex_sched h 0 8 = None"
proof -
  obtain h where "dis_modify_qp roomy_env ex_created 8 ex_rtr IB_QP_STATE = Inr (0, h)" "has_worker h (RqOf 8)"
    using ex_started by blast
  with qp_exit_waits_forever [OF this(2), of ex_sched 0 8] show ?thesis by (auto simp: ex_sched_def)
qed

lemma wq_fixed_sel: "wq_wq_state (wq_fixed w) = wq_wq_state w" "wq_thread (wq_fixed w) = wq_thread w"
  by (simp_all add: wq_fixed_def)

text \<open>A change of state that touches no queue.\<close>

lemma put_qp_state:
  fixes st :: ib_qp_state
  assumes "h_qp h p = Some qp" "p \<noteq> NULL"
  defines h'_def: "h' \<equiv> put_qp h p (qp\<lparr>qp_state := st\<rparr>)"
  shows "get_wq h' r = get_wq h r" "wq_list h' r = wq_list h r" "wq_cap h' r = wq_cap h r" "wq_pd h' r = wq_pd h r"
    "wq_live r h' = wq_live r h" "postable env r h' wr = postable env r h wr"
proof -
  show g: "get_wq h' r = get_wq h r" for r
    using assms(1,2) by (cases r) (auto simp: h'_def put_qp_def deref_def)
  have f: "h_wqe h' = h_wqe h" "h_pd h' = h_pd h" "h_mr h' = h_mr h" "h_iov h' = h_iov h" "h_next h' = h_next h"
    by (simp_all add: h'_def put_qp_def)
  have q: "h_qp h' = (h_qp h)(p \<mapsto> qp\<lparr>qp_state := st\<rparr>)" by (simp add: h'_def put_qp_def)
  show l: "wq_list h' r = wq_list h r" "wq_cap h' r = wq_cap h r"
    by (simp_all add: wq_list_def wq_cap_def g f cong: sum.case_cong)
  show pd: "wq_pd h' r = wq_pd h r"
    using assms(1) by (cases "get_wq h r") (simp_all add: wq_pd_def g q)
  have "wq_ok h' r = wq_ok h r"
    using assms(1,2) by (cases "get_wq h r") (auto simp: wq_ok_def g f q deref_def split: sum.splits option.splits)
  then show "wq_live r h' = wq_live r h" by (simp add: wq_live_def f)
  have "user_span h' = user_span h" by (intro ext) (simp only: user_span_def f)
  moreover from this have "span_count h' = span_count h" by (intro ext) (simp add: span_count_def)
  ultimately show "postable env r h' wr = postable env r h wr"
    by (simp add: postable_def pd request_in_user_mrs_def request_count_def)
qed

text \<open>
  C38. States are not checked. A queue pair whose workers were never started can be moved to RTS, and
  then accepts send requests with result 0: \<open>dis_qp_notify\<close> fails for want of a worker, but its result
  is ignored, and the requests stay in a queue that nothing serves.
\<close>

theorem rts_without_worker:
  assumes "wq_live (SqOf p) h" "h_qp h p = Some qp" "wq_wq_state (qp_sq qp) = DIS_WQ_UNINITIALIZED"
    "\<forall>wr \<in> set wrs. postable env (SqOf p) h wr" "length wrs \<le> wq_cap h (SqOf p) - length (wq_list h (SqOf p))"
    "attr_mask AND IB_QP_STATE \<noteq> 0" "qa_qp_state attr = IB_QPS_RTS"
  shows "\<exists>h1 h2 w. dis_modify_qp env' h p attr attr_mask = Inr (0, h1) \<and> h_thread h1 = h_thread h
    \<and> dis_post_send env h1 p wrs = Inr (0, h2) \<and> get_wq h2 (SqOf p) = Inr w
    \<and> wq_wq_state w = DIS_WQ_UNINITIALIZED \<and> wq_thread w = wq_thread (qp_sq qp)
    \<and> length (wq_list h2 (SqOf p)) = length (wq_list h (SqOf p)) + length wrs"
proof -
  have p: "p \<noteq> NULL" using assms(1) by (cases p) (auto simp: wq_live_def elim!: wq_okE)
  let ?h1 = "put_qp h p (qp\<lparr>qp_state := IB_QPS_RTS\<rparr>)"
  have 1: "dis_modify_qp env' h p attr attr_mask = Inr (0, ?h1)" "h_thread ?h1 = h_thread h"
    using assms(2,6,7) p by (simp_all add: dis_modify_qp_def kres_simps put_qp_def)
  note same = put_qp_state [OF assms(2) p, where st = IB_QPS_RTS]
  have "wq_live (SqOf p) ?h1" "\<forall>wr \<in> set wrs. postable env (SqOf p) ?h1 wr"
    using assms(1,4) same(5,6) by simp_all
  from post_loop_prefix [OF sqq.bounded_queue_axioms this] obtain h2 where
    2: "post_send_loop env ?h1 (SqOf p) wrs = Inr (0, h2)"
      "map wqe_view (wq_list h2 (SqOf p)) = map wqe_view (wq_list h (SqOf p)) @ map (request_view (ucast IB_WC_SEND)) wrs"
    using assms(5) same(2,3) by (auto simp: post_loops)
  have "get_wq ?h1 (SqOf p) = Inr (qp_sq qp)" unfolding same(1) using assms(2) p by (simp add: kres_simps)
  moreover have "only_ring ?h1 (SqOf p) h2" using post_send_ring [of ?h1 "SqOf p" env wrs] 2(1) by simp
  ultimately obtain w where w: "get_wq h2 (SqOf p) = Inr w" "wq_fixed w = wq_fixed (qp_sq qp)"
    using only_ring_wq by blast
  from w(2) have "wq_wq_state w = wq_wq_state (qp_sq qp)" "wq_thread w = wq_thread (qp_sq qp)"
    by (metis wq_fixed_sel)+
  moreover have "length (wq_list h2 (SqOf p)) = length (wq_list h (SqOf p)) + length wrs"
    using arg_cong [OF 2(2), of length] by simp
  ultimately show ?thesis using 1 2(1) w(1) assms(3) by (auto simp: dis_post_send_def)
qed

theorem rts_without_worker_witness:
  "\<exists>h1 h2. dis_modify_qp roomy_env ex_wq_heap 2 (ex_rtr\<lparr>qa_qp_state := IB_QPS_RTS\<rparr>) IB_QP_STATE = Inr (0, h1)
    \<and> dis_post_send roomy_env h1 2 [ex_request 0x8800 0x1000 0] = Inr (0, h2) \<and> length (wq_list h2 (SqOf 2)) = 1"
proof -
  let ?wrs = "[ex_request 0x8800 0x1000 0]" and ?rts = "ex_rtr\<lparr>qa_qp_state := IB_QPS_RTS\<rparr>"
  have live: "wq_live (SqOf 2) ex_wq_heap"
    by (simp add: wq_live_def ex_wq_ok) (auto simp: ex_wq_heap_def fresh_in_def)
  have wrs: "\<forall>wr \<in> set ?wrs. postable roomy_env (SqOf 2) ex_wq_heap wr"
    by (simp add: postable_def ex_wq_state ex_request_user roomy_iov_sized DIS_SGE_PER_WQE_def)
  have qp: "h_qp ex_wq_heap 2 = Some (the (h_qp ex_wq_heap 2))"
    "wq_wq_state (qp_sq (the (h_qp ex_wq_heap 2))) = DIS_WQ_UNINITIALIZED"
    by (simp_all add: ex_wq_heap_def ex_wq_def zero_wq_def)
  have len: "length ?wrs \<le> wq_cap ex_wq_heap (SqOf 2) - length (wq_list ex_wq_heap (SqOf 2))"
    by (simp add: ex_wq_state)
  have "IB_QP_STATE AND IB_QP_STATE \<noteq> 0" "qa_qp_state ?rts = IB_QPS_RTS" by (simp_all add: IB_QP_STATE_def)
  from rts_without_worker [OF live qp wrs len this, of roomy_env]
  show ?thesis unfolding ex_wq_state by (auto simp del: get_wq.simps)
qed

text \<open>
  An error of \<open>kthread_create\<close> is an error pointer, not \<open>NULL\<close>: the check misses it, and
  \<open>wake_up_process\<close> is called on it.
\<close>

lemma rtr_thread_error_faults:
  assumes "h_qp h p = Some qp" "p \<noteq> NULL" "\<forall>h'. k_kthread_create env h' = Some e"
    "wq_wq_state (qp_rq qp) \<noteq> DIS_WQ_EXITED" "attr_mask AND IB_QP_STATE \<noteq> 0" "qa_qp_state attr = IB_QPS_RTR"
  shows "dis_modify_qp env h p attr attr_mask = Inl ErrPtrDeref"
  using assms by (simp add: dis_modify_qp_def modify_to_rtr_def Let_def kres_simps dis_qp_init_def put_qp_def)

end
