(* ===== verification/Request_Transfer.thy ===== *)
theory Request_Transfer
  imports Qp_Lifecycle
begin

text \<open>
  From posted requests to finished transfers: \<open>dis_post_send\<close> and \<open>dis_post_recv\<close> (\<open>dis_verbs.c\<close>), the
  worker (\<open>dis_wq_consume_all\<close> in \<open>dis_qp.c\<close>), the SCI layer and the completion queue together. The
  library is seen through a record of the bytes it moved.
\<close>

section \<open>Posting into slots that hold no page map\<close>

text \<open>
  The next \<open>k\<close> slots hold no pointer of an earlier page map. A queue that was just created has only
  such slots; a slot that carried a request with a separate page map is not one
  (\<open>reused_slot_double_free\<close> says what happens then).
\<close>

definition next_clean :: "nat \<Rightarrow> heap \<Rightarrow> wq_ref \<Rightarrow> bool" where
  "next_clean k h r \<longleftrightarrow> (\<forall>w slots. get_wq h r = Inr w \<longrightarrow> h_wqe h (circ_buf_mem (wq_wqe_circ w)) = Some slots \<longrightarrow>
     (\<forall>j < k. wqe_page_map_dynamic (slots ! ((unat (circ_head (wq_wqe_circ w)) + j) mod unat (wq_wqe_max w))) = NULL))"

lemma created_queue_clean:
  assumes "created_queue h r n"
  shows "next_clean k h r"
proof -
  from assms obtain w slots where w: "get_wq h r = Inr w" "h_wqe h (circ_buf_mem (wq_wqe_circ w)) = Some slots"
    "circ_ok (wq_wqe_circ w) (wq_wqe_max w) slots" by (auto simp: created_queue_def elim!: wq_okE)
  with assms have "\<forall>e \<in> set slots. wqe_page_map_dynamic e = NULL" by (simp add: created_queue_def)
  moreover have "length slots = unat (wq_wqe_max w)" "0 < unat (wq_wqe_max w)"
    using circ_ok_bounds(4,6) [OF w(3)] by auto
  ultimately show ?thesis using w(1,2) by (simp add: next_clean_def)
qed

lemma next_clean_frame [heap_simps]: "next_clean k (new_iov h out) r = next_clean k h r"
  by (simp add: next_clean_def heap_simps)

lemma publish_clean:
  assumes "wq_ok h r" "get_wq h r = Inr w" "h_wqe h (circ_buf_mem (wq_wqe_circ w)) = Some slots"
    "next_clean (Suc k) h r" "Suc k < unat (wq_wqe_max w)"
  shows "next_clean k (publish (store_wqe h (circ_buf_mem (wq_wqe_circ w)) slots (unat (circ_head (wq_wqe_circ w))) e) r w
    (int_to_ulong (circ_head (wq_wqe_circ w)))) r"
proof -
  let ?hd = "unat (circ_head (wq_wqe_circ w))" and ?n = "unat (wq_wqe_max w)" and ?mem = "circ_buf_mem (wq_wqe_circ w)"
  let ?c = "(wq_wqe_circ w)\<lparr>circ_head := circ_next (int_to_ulong (circ_head (wq_wqe_circ w))) (wq_wqe_max w)\<rparr>"
  from assms(1-3) have c: "circ_ok (wq_wqe_circ w) (wq_wqe_max w) slots" by (auto elim!: wq_okE)
  note b = circ_ok_bounds [OF c]
  have hd: "unat (circ_head ?c) = Suc ?hd mod ?n" using b by (simp add: circ_next_ring)
  have clean: "wqe_page_map_dynamic (slots ! ((?hd + j) mod ?n)) = NULL" if "j < Suc k" for j
    using assms(2-4) that by (auto simp: next_clean_def)
  have "wqe_page_map_dynamic (slots[?hd := e] ! ((Suc ?hd mod ?n + j) mod ?n)) = NULL" if "j < k" for j
  proof -
    have "(Suc ?hd mod ?n + j) mod ?n = (?hd + Suc j) mod ?n" by (simp add: mod_add_left_eq)
    moreover have "(?hd + Suc j) mod ?n \<noteq> ?hd"
      using add_mod_ring [of ?hd ?n "Suc j"] b(4) assms(5) that by auto
    ultimately show ?thesis using clean [of "Suc j"] that by simp
  qed
  then show ?thesis
    using assms(2) hd by (auto simp: next_clean_def publish_def heap_simps store_wqe_def)
qed

text \<open>The entries that posting leaves are ready for the worker.\<close>

lemma dyn_maps_append: "dyn_maps (es @ es') = dyn_maps es @ dyn_maps es'"
  by (simp add: dyn_maps_def)

lemma posted_entry_ok:
  assumes "length (wqe_page_map_static slot) = DIS_SGE_PER_WQE" "request_in_user_mrs h (wq_pd h r) wr"
    "request_count h (wq_pd h r) wr \<le> 1024"
  shows "request_count h (wq_pd h r) wr \<le> DIS_SGE_PER_WQE \<Longrightarrow> wqe_page_map_dynamic slot = NULL \<Longrightarrow>
      entry_ok h' r (static_entry opc h r w wr slot)"
    "h_iov h' (h_next h) = Some out \<Longrightarrow> length out = request_count h (wq_pd h r) wr \<Longrightarrow> 0 < h_next h \<Longrightarrow>
      entry_ok h' r (dynamic_entry opc h r w wr slot)"
proof -
  have un: "unat (of_nat (request_count h (wq_pd h r) wr) :: u64) = request_count h (wq_pd h r) wr"
    using assms(3) by (simp add: unat_of_nat)
  have le: "length (request_chunks h (wq_pd h r) wr) \<le> request_count h (wq_pd h r) wr"
    using request_chunks_count [OF assms(2)] by simp
  show "request_count h (wq_pd h r) wr \<le> DIS_SGE_PER_WQE \<Longrightarrow> wqe_page_map_dynamic slot = NULL \<Longrightarrow>
      entry_ok h' r (static_entry opc h r w wr slot)"
    using assms(1) un le by (simp add: entry_ok_def static_entry_def begun_entry_def msg_iovs_def overlay_length Let_def)
  show "h_iov h' (h_next h) = Some out \<Longrightarrow> length out = request_count h (wq_pd h r) wr \<Longrightarrow> 0 < h_next h \<Longrightarrow>
      entry_ok h' r (dynamic_entry opc h r w wr slot)"
    using un by (simp add: entry_ok_def dynamic_entry_def begun_entry_def msg_iovs_def deref_Some Let_def)
qed

lemma work_ok_add:
  assumes "work_ok h r" "wq_ok h' r" "wq_list h' r = wq_list h r @ [e]" "entry_ok h' r e"
    "\<And>p. h_iov h p \<noteq> None \<Longrightarrow> h_iov h' p = h_iov h p"
    "wqe_page_map_dynamic e \<noteq> NULL \<Longrightarrow> h_iov h (wqe_page_map_dynamic e) = None"
  shows "work_ok h' r" "\<forall>e' \<in> set (wq_list h r). entry_iovs h' e' = entry_iovs h e'"
proof -
  have old: "entry_ok h r e'" if "e' \<in> set (wq_list h r)" for e' using assms(1) that by (simp add: work_ok_def)
  have same: "h_iov h' (wqe_page_map_dynamic e') = h_iov h (wqe_page_map_dynamic e')"
    if "e' \<in> set (wq_list h r)" "wqe_page_map_dynamic e' \<noteq> NULL" for e'
    using old [OF that(1)] that(2) assms(5) by (simp add: entry_ok_def)
  have "h_iov h p \<noteq> None" if "p \<in> set (dyn_maps (wq_list h r))" for p
    using that old by (auto simp: dyn_maps_def entry_ok_def)
  then have "wqe_page_map_dynamic e \<notin> set (dyn_maps (wq_list h r))" if "wqe_page_map_dynamic e \<noteq> NULL"
    using that assms(6) by blast
  then have "distinct (dyn_maps (wq_list h r @ [e]))"
    using assms(1) by (auto simp: dyn_maps_append work_ok_def)
  with assms(2-4) entry_frame [OF old same] show "work_ok h' r"
    "\<forall>e' \<in> set (wq_list h r). entry_iovs h' e' = entry_iovs h e'"
    by (auto simp: work_ok_def)
qed

lemma post_clean:
  assumes "wq_live r h" "work_ok h r" "postable env r h wr" "get_wq h r = Inr w" "next_clean (Suc k) h r"
    "length (wq_list h r) + Suc k \<le> wq_cap h r"
  shows "\<exists>h' e c. post_one opc env h r wr = Inr (0, h') \<and> wq_live r h' \<and> work_ok h' r \<and> next_clean k h' r
    \<and> get_wq h' r = Inr (w\<lparr>wq_wqe_circ := c\<rparr>) \<and> wq_list h' r = wq_list h r @ [e] \<and> wq_cap h' r = wq_cap h r
    \<and> wq_pd h' r = wq_pd h r \<and> post_frame h h' \<and> (\<forall>e' \<in> set (wq_list h r). entry_iovs h' e' = entry_iovs h e')
    \<and> entry_bytes h' e = request_bytes h (wq_pd h r) wr \<and> wqe_view e = request_view opc wr
    \<and> wqe_ibqp e = wq_ibqp w \<and> h_iov h' |` (- set (dyn_maps [e])) = h_iov h"
proof -
  have ok: "wq_ok h r" and live: "fresh_in (h_iov h) (h_next h)" "0 < h_next h"
    using assms(1) by (simp_all add: wq_live_def)
  have req: "request_in_user_mrs h (wq_pd h r) wr" "request_count h (wq_pd h r) wr \<le> 1024" "iov_sized env"
    using assms(3) by (simp_all add: postable_def)
  from ok assms(4) obtain slots where 1: "h_wqe h (circ_buf_mem (wq_wqe_circ w)) = Some slots"
    "circ_ok (wq_wqe_circ w) (wq_wqe_max w) slots"
    "\<forall>e \<in> set slots. length (wqe_page_map_static e) = DIS_SGE_PER_WQE" by (auto elim!: wq_okE)
  let ?i = "unat (circ_head (wq_wqe_circ w))" and ?n = "request_count h (wq_pd h r) wr"
    and ?cs = "request_chunks h (wq_pd h r) wr"
  let ?slot = "slots ! ?i" and ?out = "k_kmalloc_iov env h (of_nat ?n)"
  let ?post = "\<lambda>h e. publish (store_wqe h (circ_buf_mem (wq_wqe_circ w)) slots ?i e) r w
    (int_to_ulong (circ_head (wq_wqe_circ w)))"
  have st: "length (wqe_page_map_static ?slot) = DIS_SGE_PER_WQE" using circ_ok_bounds [OF 1(2)] 1(3) by simp
  have k: "Suc k < unat (wq_wqe_max w)" "length (wq_list h r) < wq_cap h r"
    using assms(4,6) by (simp_all add: wq_cap_def)
  have "wqe_page_map_dynamic (slots ! ((?i + 0) mod unat (wq_wqe_max w))) = NULL"
    using assms(4,5) 1(1) unfolding next_clean_def by blast
  then have clean: "wqe_page_map_dynamic ?slot = NULL" using circ_ok_bounds(4) [OF 1(2)] by simp
  note eval = post_one_request [OF ok k(2) assms(4) 1(1) req, of opc] and gath = gathered_entry [OF req(1,2) st]
    and ready = posted_entry_ok [OF st req(1,2)]
  show ?thesis
  proof (cases "?n \<le> DIS_SGE_PER_WQE")
    case True
    let ?e = "static_entry opc h r w wr ?slot"
    have "length (wqe_page_map_static ?e) = DIS_SGE_PER_WQE" and dyn: "dyn_maps [?e] = []"
      and fields: "wqe_ibqp ?e = wq_ibqp w" "wqe_view ?e = request_view opc wr"
      using True st clean request_chunks_count [OF req(1)]
      by (simp_all add: static_entry_def begun_entry_def wqe_view_def request_view_def overlay_length Let_def)
    note q = publish_wqe [OF ok assms(4) 1(1) k(2) this(1)]
    have iov: "h_iov (?post h ?e) = h_iov h" by (simp add: heap_simps)
    note wk = work_ok_add [OF assms(2) q(1,2) ready(1) [OF True clean]]
    have "work_ok (?post h ?e) r" "\<forall>e' \<in> set (wq_list h r). entry_iovs (?post h ?e) e' = entry_iovs h e'"
      by (rule wk; use dyn iov in \<open>auto split: if_splits\<close>)+
    moreover have "next_clean k (?post h ?e) r" by (rule publish_clean [OF ok assms(4) 1(1) assms(5) k(1)])
    moreover have "post_frame h (?post h ?e)" "wq_live r (?post h ?e)"
      using live q(1) by (auto simp: post_frame_def wq_live_def heap_simps)
    moreover have "get_wq (?post h ?e) r = Inr (w\<lparr>wq_wqe_circ := (wq_wqe_circ w)\<lparr>circ_head :=
        circ_next (int_to_ulong (circ_head (wq_wqe_circ w))) (wq_wqe_max w)\<rparr>\<rparr>)"
      using assms(4) by (simp add: publish_def heap_simps)
    moreover have "post_one opc env h r wr = Inr (0, ?post h ?e)" using eval True by simp
    moreover have "h_iov (?post h ?e) |` (- set (dyn_maps [?e])) = h_iov h" using dyn iov by simp
    ultimately show ?thesis
      using q(2-4) gathered_bytes [OF gath(1) [OF True] req(1,2)] fields by blast
  next
    case False
    let ?e = "dynamic_entry opc h r w wr ?slot" and ?h1 = "new_iov h (overlay ?cs ?out)"
    have fields: "length (wqe_page_map_static ?e) = DIS_SGE_PER_WQE" "wqe_page_map_dynamic ?e = h_next h"
      "wqe_ibqp ?e = wq_ibqp w" "wqe_view ?e = request_view opc wr"
      using st by (simp_all add: dynamic_entry_def begun_entry_def wqe_view_def request_view_def Let_def)
    note q = publish_wqe [of ?h1 r w slots ?e, unfolded heap_simps, OF ok assms(4) 1(1) k(2) fields(1)]
    have out: "length ?out = ?n" using req by (simp add: iov_sized_def unat_of_nat)
    have iov: "h_iov (?post ?h1 ?e) = (h_iov h)(h_next h \<mapsto> overlay ?cs ?out)" by (simp add: heap_simps)
    have "length (overlay ?cs ?out) = ?n" using request_chunks_count [OF req(1)] out by (simp add: overlay_length)
    note wk = work_ok_add [OF assms(2) q(1,2) ready(2) [OF _ this live(2)]]
    have none: "h_iov h (h_next h) = None" by (rule fresh_in_next [OF live(1)])
    have "work_ok (?post ?h1 ?e) r" "\<forall>e' \<in> set (wq_list h r). entry_iovs (?post ?h1 ?e) e' = entry_iovs h e'"
      by (rule wk; use iov none fields(2) in \<open>auto\<close>)+
    moreover have "next_clean k (?post ?h1 ?e) r"
      using publish_clean [of ?h1 r w slots k ?e, unfolded heap_simps, OF ok assms(4) 1(1) assms(5) k(1)] .
    moreover have "post_frame h (?post ?h1 ?e)" "wq_live r (?post ?h1 ?e)"
      using live q(1) by (auto simp: post_frame_def wq_live_def heap_simps)
    moreover have "get_wq (?post ?h1 ?e) r = Inr (w\<lparr>wq_wqe_circ := (wq_wqe_circ w)\<lparr>circ_head :=
        circ_next (int_to_ulong (circ_head (wq_wqe_circ w))) (wq_wqe_max w)\<rparr>\<rparr>)"
      using assms(4) by (simp add: publish_def heap_simps)
    moreover have "h_iov (?post ?h1 ?e) |` (- set (dyn_maps [?e])) = h_iov h"
      using live none fields(2) by (auto simp: iov fun_eq_iff restrict_map_def)
    moreover have "k_alloc env h (AllocIov (of_nat ?n))" using assms(3) False by (auto simp: postable_def)
    then have "post_one opc env h r wr = Inr (0, ?post ?h1 ?e)" using eval False by simp
    moreover have "h_iov (?post ?h1 ?e) (h_next h) = Some (overlay ?cs ?out)" using iov by simp
    then have "entry_bytes (?post ?h1 ?e) ?e = request_bytes h (wq_pd h r) wr"
      by (rule gathered_bytes [OF gath(2) [OF _ out] req(1,2)])
    ultimately show ?thesis using q(2-4) fields(3,4) by blast
  qed
qed

text \<open>Waking the worker changes nothing of this.\<close>

lemma notify_clean:
  assumes "wq_live r h" "work_ok h r" "next_clean k h r" "get_wq h r = Inr w"
  shows "\<exists>ret h' w'. dis_qp_notify h r = Inr (ret, h') \<and> wq_live r h' \<and> work_ok h' r \<and> next_clean k h' r
    \<and> get_wq h' r = Inr w' \<and> wq_fixed w' = wq_fixed w \<and> wq_list h' r = wq_list h r \<and> wq_cap h' r = wq_cap h r
    \<and> wq_pd h' r = wq_pd h r \<and> h_pd h' = h_pd h \<and> h_mr h' = h_mr h \<and> h_iov h' = h_iov h
    \<and> h_cq h' = h_cq h \<and> h_cqe h' = h_cqe h"
proof -
  obtain ret w' where n: "dis_qp_notify h r = Inr (ret, set_wq h r w')"
    "w' = (if wq_wq_state w = DIS_WQ_UNINITIALIZED then w else w\<lparr>wq_wq_flag := DIS_WQ_POST\<rparr>)"
    by (rule notify_ok [OF assms(4)])
  let ?h = "set_wq h r w'"
  have same: "wq_wqe_circ w' = wq_wqe_circ w" "wq_wqe_max w' = wq_wqe_max w" "wq_ibqp w' = wq_ibqp w"
    "wq_fixed w' = wq_fixed w"
    using n(2) by (simp_all add: wq_fixed_def)
  have ok: "wq_ok h r" using assms(1) by (simp add: wq_live_def)
  note ring = set_wq_same_ring [OF assms(4) same(1-3)] and g = get_wq_set_wq [OF assms(4), of w']
  have "entry_ok ?h r e" if "e \<in> set (wq_list h r)" for e
    using assms(2) that entry_frame(1) [of h r e ?h] by (simp add: work_ok_def heap_simps)
  then have "work_ok ?h r" using assms(2) ring by (simp add: work_ok_def)
  moreover have "next_clean k ?h r" using assms(3,4) g same(1,2) by (simp add: next_clean_def heap_simps)
  moreover have "wq_live r ?h" using assms(1) ring(1) by (simp add: wq_live_def heap_simps)
  ultimately show ?thesis using n(1) g same(4) ring ok by (auto simp: heap_simps)
qed

text \<open>Posting a list of requests that fit, into clean slots.\<close>

lemma post_loop_clean:
  "wq_live r h \<Longrightarrow> work_ok h r \<Longrightarrow> next_clean (length wrs) h r \<Longrightarrow>
    length (wq_list h r) + length wrs \<le> wq_cap h r \<Longrightarrow> \<forall>wr \<in> set wrs. postable env r h wr \<Longrightarrow>
    get_wq h r = Inr w \<Longrightarrow>
    \<exists>h' es w'. post_loop (\<lambda>h. post_one opc env h r) r h wrs = Inr (0, h') \<and> work_ok h' r
      \<and> wq_list h' r = wq_list h r @ es \<and> get_wq h' r = Inr w' \<and> wq_fixed w' = wq_fixed w
      \<and> map (entry_bytes h') es = map (request_bytes h (wq_pd h r)) wrs
      \<and> map wqe_view es = map (request_view opc) wrs \<and> (\<forall>e \<in> set es. wqe_ibqp e = wq_ibqp w)
      \<and> (\<forall>e' \<in> set (wq_list h r). entry_iovs h' e' = entry_iovs h e')
      \<and> h_iov h' |` (- set (dyn_maps es)) = h_iov h \<and> h_cq h' = h_cq h \<and> h_cqe h' = h_cqe h"
proof (induction wrs arbitrary: h w)
  case Nil
  then show ?case by simp
next
  case (Cons wr wrs)
  have p: "postable env r h wr" "next_clean (Suc (length wrs)) h r"
    "length (wq_list h r) + Suc (length wrs) \<le> wq_cap h r" using Cons.prems by simp_all
  from post_clean [OF Cons.prems(1,2) p(1) Cons.prems(6) p(2,3), of opc] obtain h1 e c where
    1: "post_one opc env h r wr = Inr (0, h1)" "wq_live r h1" "work_ok h1 r" "next_clean (length wrs) h1 r"
      "get_wq h1 r = Inr (w\<lparr>wq_wqe_circ := c\<rparr>)" "wq_list h1 r = wq_list h r @ [e]" "wq_cap h1 r = wq_cap h r"
      "wq_pd h1 r = wq_pd h r" "post_frame h h1" "\<forall>e' \<in> set (wq_list h r). entry_iovs h1 e' = entry_iovs h e'"
      "entry_bytes h1 e = request_bytes h (wq_pd h r) wr" "wqe_view e = request_view opc wr"
      "wqe_ibqp e = wq_ibqp w" "h_iov h1 |` (- set (dyn_maps [e])) = h_iov h" by blast
  from notify_clean [OF 1(2-5)] obtain ret h2 w2 where
    2: "dis_qp_notify h1 r = Inr (ret, h2)" "wq_live r h2" "work_ok h2 r" "next_clean (length wrs) h2 r"
      "get_wq h2 r = Inr w2" "wq_fixed w2 = wq_fixed (w\<lparr>wq_wqe_circ := c\<rparr>)" "wq_list h2 r = wq_list h1 r"
      "wq_cap h2 r = wq_cap h1 r" "wq_pd h2 r = wq_pd h1 r" "h_pd h2 = h_pd h1" "h_mr h2 = h_mr h1"
      "h_iov h2 = h_iov h1" "h_cq h2 = h_cq h1" "h_cqe h2 = h_cqe h1" by blast
  have fixed: "wq_fixed w2 = wq_fixed w" using 2(6) by (simp add: wq_fixed_def)
  have ext: "h_iov h \<subseteq>\<^sub>m h_iov h2" "h_pd h2 = h_pd h" "h_mr h2 = h_mr h" "h_cq h2 = h_cq h" "h_cqe h2 = h_cqe h"
    using Cons.prems(1) post_frame_iov(1) [OF 1(9)] 1(9) 2(10-14) by (simp_all add: wq_live_def post_frame_def)
  have post: "\<forall>wr \<in> set wrs. postable env r h2 wr"
    using Cons.prems(5) 1(8) 2(9) ext(1-3) by (auto intro: postable_mono [of h2 h])
  have "\<forall>wr \<in> set wrs. request_in_user_mrs h (wq_pd h r) wr" using Cons.prems(5) by (simp add: postable_def)
  then have bytes: "map (request_bytes h2 (wq_pd h2 r)) wrs = map (request_bytes h (wq_pd h r)) wrs"
    using request_bytes_mono [OF ext(2,3,1)] 1(8) 2(9) by simp
  have room: "length (wq_list h2 r) + length wrs \<le> wq_cap h2 r" using p(3) 1(6,7) 2(7,8) by simp
  from Cons.IH [OF 2(2-4) room post 2(5)] obtain h' es w' where
    3: "post_loop (\<lambda>h. post_one opc env h r) r h2 wrs = Inr (0, h')" "work_ok h' r"
      "wq_list h' r = wq_list h2 r @ es" "get_wq h' r = Inr w'" "wq_fixed w' = wq_fixed w2"
      "map (entry_bytes h') es = map (request_bytes h2 (wq_pd h2 r)) wrs"
      "map wqe_view es = map (request_view opc) wrs" "\<forall>e \<in> set es. wqe_ibqp e = wq_ibqp w2"
      "\<forall>e' \<in> set (wq_list h2 r). entry_iovs h' e' = entry_iovs h2 e'"
      "h_iov h' |` (- set (dyn_maps es)) = h_iov h2" "h_cq h' = h_cq h2" "h_cqe h' = h_cqe h2" by blast
  have "wq_ibqp w2 = wq_ibqp w" using arg_cong [OF fixed, of wq_ibqp] by (simp add: wq_fixed_def)
  moreover have "entry_iovs h2 e' = entry_iovs h1 e'" for e' unfolding entry_iovs_def 2(12) ..
  moreover from this have "entry_bytes h' e = request_bytes h (wq_pd h r) wr"
    using 3(9) 1(6,11) 2(7) by (simp add: entry_bytes_def)
  moreover have "h_iov h' |` (- set (dyn_maps (e # es))) = h_iov h"
  proof -
    have "h_iov h' |` (- set (dyn_maps (e # es))) = (h_iov h' |` (- set (dyn_maps es))) |` (- set (dyn_maps [e]))"
      by (auto simp: restrict_map_def)
    then show ?thesis by (simp only: 3(10) 2(12) 1(14))
  qed
  ultimately show ?case
    using 1 2 3 fixed ext bytes
    by (intro exI [of _ h'] exI [of _ "e # es"] exI [of _ w']) auto
qed

section \<open>Requests posted and ready to be carried out\<close>

text \<open>The completion of a request that was carried out.\<close>

definition request_cqe :: "u8 \<Rightarrow> ptr \<Rightarrow> ib_wr \<Rightarrow> dis_cqe" where
  "request_cqe opc ibqp wr = \<lparr>cqe_ibqp = ibqp, cqe_wr_id = ucast (wr_wr_id wr), cqe_status = ucast IB_WC_SUCCESS,
     cqe_byte_len = ucast (request_length wr), cqe_opcode = opc\<rparr>"

lemma cqe_of_request:
  "wqe_view e = request_view opc wr \<Longrightarrow> wqe_ibqp e = ibqp \<Longrightarrow> cqe_of e IB_WC_SUCCESS = request_cqe opc ibqp wr"
  by (simp add: wqe_view_def request_view_def cqe_of_def request_cqe_def)

lemma map_cqe_of_requests:
  "map wqe_view es = map (request_view opc) wrs \<Longrightarrow> \<forall>e \<in> set es. wqe_ibqp e = ibqp \<Longrightarrow>
    map (\<lambda>e. cqe_of e IB_WC_SUCCESS) es = map (request_cqe opc ibqp) wrs"
  by (induction es wrs rule: list_induct2') (auto intro: cqe_of_request)

text \<open>
  A queue that is empty, with clean slots for the requests and with room for them and for their
  completions.
\<close>

definition ready_for :: "kenv \<Rightarrow> wq_ref \<Rightarrow> dis_wq \<Rightarrow> heap \<Rightarrow> ib_wr list \<Rightarrow> bool" where
  "ready_for env r w h wrs \<longleftrightarrow> wq_live r h \<and> wq_list h r = [] \<and> next_clean (length wrs) h r \<and> get_wq h r = Inr w
     \<and> length wrs \<le> wq_cap h r \<and> (\<forall>wr \<in> set wrs. postable env r h wr)
     \<and> cq_ok h (wq_cq w) \<and> length (cq_list h (wq_cq w)) + length wrs \<le> cq_cap h (wq_cq w)"

lemma posted_work:
  assumes "ready_for env r w h wrs"
  obtains h1 es w1 where "post_loop (\<lambda>h. post_one opc env h r) r h wrs = Inr (0, h1)" "work_ok h1 r"
    "wq_list h1 r = es" "get_wq h1 r = Inr w1" "wq_cq w1 = wq_cq w" "wq_sci_msq w1 = wq_sci_msq w"
    "wq_wq_type w1 = wq_wq_type w" "cq_ok h1 (wq_cq w1)" "cq_list h1 (wq_cq w1) = cq_list h (wq_cq w)"
    "length (cq_list h1 (wq_cq w1)) + length (wq_list h1 r) \<le> cq_cap h1 (wq_cq w1)"
    "map (entry_bytes h1) es = map (request_bytes h (wq_pd h r)) wrs"
    "map (\<lambda>e. cqe_of e IB_WC_SUCCESS) es = map (request_cqe opc (wq_ibqp w)) wrs"
    "h_iov h1 |` (- set (dyn_maps es)) = h_iov h"
proof -
  note a = assms [unfolded ready_for_def]
  have "work_ok h r" using a by (simp add: work_ok_def wq_live_def)
  from post_loop_clean [of r h wrs env w opc, OF _ this] a
  obtain h1 es w1 where
    post: "post_loop (\<lambda>h. post_one opc env h r) r h wrs = Inr (0, h1)"
      "work_ok h1 r" "wq_list h1 r = es" "get_wq h1 r = Inr w1" "wq_fixed w1 = wq_fixed w"
      "map (entry_bytes h1) es = map (request_bytes h (wq_pd h r)) wrs"
      "map wqe_view es = map (request_view opc) wrs" "\<forall>e \<in> set es. wqe_ibqp e = wq_ibqp w"
      "h_iov h1 |` (- set (dyn_maps es)) = h_iov h" "h_cq h1 = h_cq h" "h_cqe h1 = h_cqe h"
    by auto
  have w1: "wq_cq w1 = wq_cq w" "wq_sci_msq w1 = wq_sci_msq w" "wq_wq_type w1 = wq_wq_type w"
    using arg_cong [OF post(5), of wq_cq] arg_cong [OF post(5), of wq_sci_msq]
      arg_cong [OF post(5), of wq_wq_type] by (simp_all add: wq_fixed_def)
  have cq: "cq_ok h1 c = cq_ok h c" "cq_list h1 c = cq_list h c" "cq_cap h1 c = cq_cap h c" for c
    using post(10,11) by (simp_all add: cq_ok_def cq_list_def cq_cap_def cong: option.case_cong)
  have "length es = length wrs" using arg_cong [OF post(7), of length] by simp
  then show ?thesis
    using that [OF post(1-4) w1] a cq w1(1) post(3,6,9) map_cqe_of_requests [OF post(7,8)] by simp
qed

section \<open>A library seen through the bytes it moved\<close>

text \<open>
  The messages taken, each with the handle it was sent on and the physical addresses of its bytes, and
  the addresses written by each delivery: of the segments it is given the library reads, or writes, as many
  bytes as the message has, from the first on.
\<close>

definition moved :: "sci_msq_queue_t \<times> iovec list \<times> u32 \<Rightarrow> (sci_msq_queue_t \<times> u64 list) list
    \<Rightarrow> (sci_msq_queue_t \<times> u64 list) list" where
  "moved x ms = (case x of (q, v, n) \<Rightarrow> ms @ [(q, take (unat n) (iov_bytes v))])"

lemma fold_moved:
  "fold (\<lambda>e. moved (entry_message h w e)) es ms = ms @ map (\<lambda>e. (wq_sci_msq w, entry_bytes h e)) es"
  by (induction es arbitrary: ms) (simp_all add: entry_message_def entry_bytes_def moved_def)

lemma fold_moved_parts:
  "fold (\<lambda>n. moved (q, v, n)) ns ms = ms @ map (\<lambda>n. (q, take (unat n) (iov_bytes v))) ns"
  by (induction ns arbitrary: ms) (simp_all add: moved_def)

lemma moved_requests:
  "map (entry_bytes h1) es = map (request_bytes h pdp) wrs \<Longrightarrow>
    map (\<lambda>e. (q, entry_bytes h1 e)) es = map (\<lambda>wr. (q, request_bytes h pdp wr)) wrs"
  by (drule arg_cong [of _ _ "map (Pair q)"]) (simp add: comp_def)

section \<open>Properties\<close>

text \<open>
  C1. Posted sends are transferred. Let the send queue of a queue pair be empty, with clean slots (as after
  creation, \<open>created_queue_clean\<close>) and room for a list of requests that lie in live user regions, and let the completion queue
  have room. Then \<open>dis_post_send\<close> returns 0, and when the worker has carried out the queue, the library
  has taken exactly one message for each request, in order, on the queue's handle, made of exactly the
  physical addresses of the bytes of the request; the completion queue has got exactly one successful
  completion for each, with its identifier and length; the queue is empty; and every page map made on
  the way is freed.
\<close>

theorem posted_sends_transferred:
  assumes "patient_send kt lib m" "tracks kt lib sent moved" "ready_for env (SqOf p) w h wrs" "wq_wq_type w = DIS_SQ"
  shows "\<exists>h1 h2 s'. dis_post_send env h p wrs = Inr (0, h1)
    \<and> dis_wq_consume_all kt lib h1 s (SqOf p) = Some (Inr (0, h2, s'))
    \<and> sent s' = sent s @ map (\<lambda>wr. (wq_sci_msq w, request_bytes h (wq_pd h (SqOf p)) wr)) wrs
    \<and> cq_list h2 (wq_cq w) = cq_list h (wq_cq w) @ map (request_cqe (ucast IB_WC_SEND) (wq_ibqp w)) wrs
    \<and> wq_list h2 (SqOf p) = [] \<and> h_iov h2 = h_iov h"
proof (rule posted_work [OF assms(3), of "ucast IB_WC_SEND"], goal_cases)
  case (1 h1 es w1)
  from drain_send [OF assms(1,2) 1(2,4) _ 1(8,10), of s] 1(7) assms(4) show ?case
    using 1(1,3,5,6,9,12,13) moved_requests [OF 1(11)]
    by (auto simp: dis_post_send_def post_loops post_sqe_one fold_moved)
qed

text \<open>
  C2. Posted receives are filled. The same for \<open>dis_post_recv\<close> and the receive queue, if messages arrive
  whole: each delivery writes exactly the bytes of its request, in the order the requests were posted.
\<close>

theorem posted_receives_filled:
  assumes "steady_receive kt lib m" "tracks_receive kt lib written moved" "whole_receive lib"
    "ready_for env (RqOf p) w h wrs" "wq_wq_type w = DIS_RQ"
  shows "\<exists>h1 h2 s'. dis_post_recv env h p wrs = Inr (0, h1)
    \<and> dis_wq_consume_all kt lib h1 s (RqOf p) = Some (Inr (0, h2, s'))
    \<and> written s' = written s @ map (\<lambda>wr. (wq_sci_msq w, request_bytes h (wq_pd h (RqOf p)) wr)) wrs
    \<and> cq_list h2 (wq_cq w) = cq_list h (wq_cq w) @ map (request_cqe (ucast IB_WC_RECV) (wq_ibqp w)) wrs
    \<and> wq_list h2 (RqOf p) = [] \<and> h_iov h2 = h_iov h"
proof (rule posted_work [OF assms(4), of "ucast IB_WC_RECV"], goal_cases)
  case (1 h1 es w1)
  from drain_receive [OF assms(1-3) 1(2,4) _ 1(8,10), of s] 1(7) assms(5) show ?case
    using 1(1,3,5,6,9,12,13) moved_requests [OF 1(11)]
    by (auto simp: dis_post_recv_def post_loops post_rqe_one fold_moved)
qed

text \<open>
  C30. Parts of a message land on each other. Every round of the receive loop hands the library the same
  segments, from the first on; so each part of a message that arrives in parts is written to the start of the
  buffer. If no part has more than \<open>k\<close> bytes, the receive completes with success and its full length
  although nothing past the first \<open>k\<close> bytes of the buffer was ever written.
\<close>

theorem received_parts_overlap:
  assumes "steady_receive kt lib m" "tracks_receive kt lib written moved" "parts_upto lib k" "work_ok h wq"
    "get_wq h wq = Inr w" "wq_wq_type w = DIS_RQ" "wq_list h wq = e # es" "wq_front h wq = Inr (Some p)"
    "cq_ok h (wq_cq w)" "length (cq_list h (wq_cq w)) < cq_cap h (wq_cq w)"
  shows "\<exists>s' (ns :: u32 list). consume_one kt lib h s wq p =
      Some (Inr (IB_WC_SUCCESS, cq_pushed h (wq_cq w) (cqe_of e IB_WC_SUCCESS), s'))
    \<and> sum_list (map unat ns) = unat (wqe_byte_len e)
    \<and> written s' = written s @ map (\<lambda>n. (wq_sci_msq w, take (unat n) (entry_bytes h e))) ns
    \<and> (\<forall>n \<in> set ns. set (take (unat n) (entry_bytes h e)) \<subseteq> set (take (unat k) (entry_bytes h e)))"
proof -
  from consume_one_receive_parts [OF assms(1,2,4-10), of s k] assms(3) obtain s' ns where
    1: "consume_one kt lib h s wq p =
        Some (Inr (IB_WC_SUCCESS, cq_pushed h (wq_cq w) (cqe_of e IB_WC_SUCCESS), s'))"
      "sum_list (map unat ns) = unat (wqe_byte_len e)" "\<forall>n \<in> set ns. n \<le> k"
      "written s' = written s @ map (\<lambda>n. (wq_sci_msq w, take (unat n) (iov_bytes (entry_iovs h e)))) ns"
    by (auto simp: fold_moved_parts)
  have "unat n \<le> unat (wqe_byte_len e)" if "n \<in> set ns" for n
    using member_le_sum_list [of "unat n" "map unat ns"] that 1(2) by simp
  then have "take (unat n) (iov_bytes (entry_iovs h e)) = take (unat n) (entry_bytes h e)" if "n \<in> set ns" for n
    using that by (simp add: entry_bytes_def min_absorb1)
  then have "written s' = written s @ map (\<lambda>n. (wq_sci_msq w, take (unat n) (entry_bytes h e))) ns"
    using 1(4) by simp
  moreover have "\<forall>n \<in> set ns. set (take (unat n) (entry_bytes h e)) \<subseteq> set (take (unat k) (entry_bytes h e))"
    using 1(3) by (intro ballI set_take_subset_set_take) (simp add: word_le_nat_alt)
  ultimately show ?thesis using 1(1,2) by (intro exI [of _ s'] exI [of _ ns] conjI)
qed

section \<open>Examples\<close>

text \<open>
  Libraries whose state is the record: one that moves every message at once, and one that delivers at
  most two bytes at a time.
\<close>

definition ex_mover :: "(u32 \<Rightarrow> u32) \<Rightarrow> (sci_msq_queue_t \<times> u64 list) list scilib" where
  "ex_mover part = \<lparr>SCILInit = \<lambda>s. (SCI_ERR_OK, s), SCILReconf = \<lambda>s. (SCI_ERR_OK, s),
     SCILDestroy = \<lambda>s. (SCI_ERR_OK, s), SCILCreateMsgQueue = \<lambda>q a b i j k n s. (SCI_ERR_OK, 1, s),
     SCILConnectMsgQueue = \<lambda>q a b i j k n s. (SCI_ERR_OK, q, s),
     SCILRemoveMsgQueue = \<lambda>q s. (0, s), SCILDisconnectMsgQueue = \<lambda>q s. (0, s),
     SCILSendVMsg = \<lambda>q v n s. (SCI_ERR_OK, moved (q, v, n) s),
     SCILReceiveVMsg = \<lambda>q v n s. (SCI_ERR_OK, part n, moved (q, v, part n) s)\<rparr>"

definition ex_never_stopped :: "(sci_msq_queue_t \<times> u64 list) list kthread_env" where
  "ex_never_stopped = \<lparr>kthread_should_stop = \<lambda>s. (False, s), wait_event_killable = \<lambda>wq (h, s). (0, h, s)\<rparr>"

lemma ex_mover_contract:
  "patient_send ex_never_stopped (ex_mover part) (\<lambda>_. 0)" "tracks ex_never_stopped (ex_mover part) id moved"
  "tracks_receive ex_never_stopped (ex_mover part) id moved" "whole_receive (ex_mover id)"
  "steady_receive ex_never_stopped (ex_mover id) (\<lambda>_. 0)"
  by (simp_all add: patient_send_def tracks_def tracks_receive_def whole_receive_def steady_receive_def
      ex_never_stopped_def ex_mover_def)

lemma ex_mover_parts: "parts_upto (ex_mover (min 2)) 2" "steady_receive ex_never_stopped (ex_mover (min 2)) (\<lambda>_. 0)"
  by (auto simp: parts_upto_def steady_receive_def ex_never_stopped_def ex_mover_def min_def split: if_splits)

lemma ex_slot_recv_queue:
  "get_wq (ex_slot_heap q) (RqOf 2) = Inr (ex_wq\<lparr>wq_wq_type := DIS_RQ\<rparr>)" "wq_ok (ex_slot_heap q) (RqOf 2)"
  "wq_list (ex_slot_heap q) (RqOf 2) = []" "wq_cap (ex_slot_heap q) (RqOf 2) = 3" "wq_pd (ex_slot_heap q) (RqOf 2) = 3"
proof -
  show g: "get_wq (ex_slot_heap q) (RqOf 2) = Inr (ex_wq\<lparr>wq_wq_type := DIS_RQ\<rparr>)"
    by (simp add: ex_slot_heap_def ex_wq_heap_def kres_simps)
  show "wq_ok (ex_slot_heap q) (RqOf 2)"
    by (simp add: wq_ok_def g del: get_wq.simps)
      (simp add: ex_slot_heap_def ex_wq_heap_def ex_wq_def deref_Some circ_ok_def zero_wqe_def zero_circ_def
        DIS_SGE_PER_WQE_def)
  show "wq_list (ex_slot_heap q) (RqOf 2) = []" "wq_cap (ex_slot_heap q) (RqOf 2) = 3" "wq_pd (ex_slot_heap q) (RqOf 2) = 3"
    by (simp_all add: wq_list_def wq_cap_def wq_pd_def g del: get_wq.simps)
      (simp_all add: ex_slot_heap_def ex_wq_heap_def ex_wq_def circ_list_def zero_circ_def ring_list_def)
qed

lemma ex_slot_ready:
  "ready_for roomy_env (SqOf 2) ex_wq (ex_slot_heap 0) (replicate 3 (ex_request 0x8800 0x1000 0))"
  "ready_for roomy_env (RqOf 2) (ex_wq\<lparr>wq_wq_type := DIS_RQ\<rparr>) (ex_slot_heap 0) (replicate 3 (ex_request 0x8800 0x1000 0))"
proof -
  have "next_clean 3 (ex_slot_heap 0) (SqOf 2)" "next_clean 3 (ex_slot_heap 0) (RqOf 2)"
    by (simp_all add: next_clean_def ex_slot_queue(1) ex_slot_recv_queue(1) ex_wq_fields del: get_wq.simps)
      (auto simp: ex_slot_heap_def zero_wqe_def numeral_3_eq_3 less_Suc_eq)
  moreover have "wq_live r (ex_slot_heap 0)" if "wq_ok (ex_slot_heap 0) r" for r
    using that by (simp add: wq_live_def ex_slot_heap_def ex_wq_heap_def fresh_in_def)
  moreover have "postable roomy_env r (ex_slot_heap 0) (ex_request 0x8800 0x1000 0)" if "wq_pd (ex_slot_heap 0) r = 3" for r
    using that by (simp add: postable_def ex_slot_request roomy_iov_sized DIS_SGE_PER_WQE_def)
  ultimately show
    "ready_for roomy_env (SqOf 2) ex_wq (ex_slot_heap 0) (replicate 3 (ex_request 0x8800 0x1000 0))"
    "ready_for roomy_env (RqOf 2) (ex_wq\<lparr>wq_wq_type := DIS_RQ\<rparr>) (ex_slot_heap 0) (replicate 3 (ex_request 0x8800 0x1000 0))"
    using ex_slot_queue [of 0] ex_slot_recv_queue [of 0] ex_slot_cq [of 0]
    by (simp_all add: ready_for_def ex_wq_fields del: get_wq.simps)
qed

theorem posted_sends_transferred_witness:
  "\<exists>h1 h2. dis_post_send roomy_env (ex_slot_heap 0) 2 (replicate 3 (ex_request 0x8800 0x1000 0)) = Inr (0, h1)
    \<and> dis_wq_consume_all ex_never_stopped (ex_mover id) h1 [] (SqOf 2) = Some (Inr (0, h2,
        replicate 3 (0, request_bytes (ex_slot_heap 0) 3 (ex_request 0x8800 0x1000 0))))
    \<and> cq_list h2 7 = replicate 3 (request_cqe (ucast IB_WC_SEND) 2 (ex_request 0x8800 0x1000 0))"
  using posted_sends_transferred [OF ex_mover_contract(1,2) [of id] ex_slot_ready(1) ex_wq_fields(2), of "[]"]
    ex_slot_queue(5) ex_slot_cq(2) by (simp add: ex_wq_fields) blast

theorem posted_receives_filled_witness:
  "\<exists>h1 h2. dis_post_recv roomy_env (ex_slot_heap 0) 2 (replicate 3 (ex_request 0x8800 0x1000 0)) = Inr (0, h1)
    \<and> dis_wq_consume_all ex_never_stopped (ex_mover id) h1 [] (RqOf 2) = Some (Inr (0, h2,
        replicate 3 (0, request_bytes (ex_slot_heap 0) 3 (ex_request 0x8800 0x1000 0))))
    \<and> cq_list h2 7 = replicate 3 (request_cqe (ucast IB_WC_RECV) 2 (ex_request 0x8800 0x1000 0))"
  using posted_receives_filled [OF ex_mover_contract(5) ex_mover_contract(3) [of id] ex_mover_contract(4)
      ex_slot_ready(2), of "[]"]
    ex_slot_recv_queue(5) ex_slot_cq(2) by (simp add: ex_wq_fields) blast

theorem received_parts_overlap_witness:
  "\<exists>s' (ns :: u32 list). consume_one ex_never_stopped (ex_mover (min 2)) (ex_work_heap ex_entry DIS_RQ) [] (SqOf 2) (4, 0)
      = Some (Inr (IB_WC_SUCCESS, cq_pushed (ex_work_heap ex_entry DIS_RQ) 7 (cqe_of ex_entry IB_WC_SUCCESS), s'))
    \<and> sum_list (map unat ns) = 5 \<and> (\<forall>x \<in> set s'. set (snd x) \<subseteq> {0x10800, 0x10801})"
proof -
  let ?h = "ex_work_heap ex_entry DIS_RQ"
  have e: "ex_entry = ex_entry\<lparr>wqe_opcode := 0\<rparr>" "length (wqe_page_map_static ex_entry) = 4"
    by (simp_all add: ex_entry_def zero_wqe_def)
  have b: "entry_bytes ?h ex_entry = map (\<lambda>k. 0x10800 + of_nat k) [0..<5]" "wqe_byte_len ex_entry = 5"
    by (simp_all add: entry_bytes_def entry_iovs_def ex_entry_def iov_bytes_def)
  have f: "wq_front ?h (SqOf 2) = Inr (Some (4, 0))"
    by (simp add: wq_front_def ex_work_get kres_simps del: get_wq.simps) (simp add: ex_wq_def CIRC_CNT_def int_to_ulong_def Let_def)
  have cq: "cq_ok ?h 7" "length (cq_list ?h 7) < cq_cap ?h 7" using ex_work_cq by simp_all
  have w: "wq_cq ex_wq = 7" by (simp add: ex_wq_def)
  show ?thesis
    using received_parts_overlap [OF ex_mover_parts(2) ex_mover_contract(3) ex_mover_parts(1),
        of ?h "SqOf 2" _ ex_entry "[]" "(4, 0)" "[]"]
      ex_work_ok [of 0 DIS_RQ] e ex_work_get [of ex_entry DIS_RQ] cq ex_work_wq [OF e(2), of DIS_RQ] f b w
    by (simp del: get_wq.simps) (fastforce simp: upt_rec)
qed

end
