(* ===== verification/Shared_Receive.thy ===== *)
theory Shared_Receive
  imports Queue_Pair
begin

text \<open>
  Shared receive queues (\<open>dis_verbs.c\<close>): creation, the two attribute calls, posting and destruction,
  with the lock of the queue. The work queue embedded in a shared receive queue is posted to by the
  routine the queue pairs use.
\<close>

section \<open>Operations\<close>

definition to_dis_srq :: "ptr \<Rightarrow> ptr" where
  "to_dis_srq ibsrq = (if ibsrq \<noteq> NULL then ibsrq else NULL)"

lemma container_srq [simp]: "to_dis_srq p = p"
  by (simp add: to_dis_srq_def)

definition put_srq :: "heap \<Rightarrow> ptr \<Rightarrow> dis_srq \<Rightarrow> heap" where
  "put_srq h p srq = h\<lparr>h_srq := (h_srq h)(p \<mapsto> srq)\<rparr>"

text \<open>\<open>spin_lock_irqsave\<close> and \<open>spin_unlock_irqrestore\<close> on \<open>srq_lock\<close>.\<close>

definition srq_lock :: "heap \<Rightarrow> ptr \<Rightarrow> heap kres" where
  "srq_lock h p = rbind (deref (h_srq h) p) (\<lambda>srq.
     if srq_srq_lock srq then Inl Deadlock else Inr (put_srq h p (srq\<lparr>srq_srq_lock := True\<rparr>)))"

definition srq_unlock :: "heap \<Rightarrow> ptr \<Rightarrow> heap kres" where
  "srq_unlock h p = rbind (deref (h_srq h) p) (\<lambda>srq. Inr (put_srq h p (srq\<lparr>srq_srq_lock := False\<rparr>)))"

text \<open>The attributes of \<open>struct ib_srq_init_attr\<close> and \<open>struct ib_srq_attr\<close> that the driver uses.\<close>

record srq_attr =
  sa_max_wr :: u32
  sa_max_sge :: u32
  sa_srq_limit :: u32

record srq_init_attr =
  si_srq_type :: u32
  si_attr :: srq_attr

definition srq_attrs :: "srq_init_attr \<Rightarrow> u32 \<Rightarrow> dis_srq \<Rightarrow> dis_srq" where
  "srq_attrs ia wqe_max srq = srq\<lparr>srq_srq_type := si_srq_type ia, srq_srq_limit := sa_srq_limit (si_attr ia),
     srq_rq := (srq_rq srq)\<lparr>wq_sge_max := sa_max_sge (si_attr ia), wq_wqe_max := wqe_max\<rparr>\<rparr>"

definition dis_create_srq :: "kenv \<Rightarrow> heap \<Rightarrow> ptr \<Rightarrow> srq_init_attr \<Rightarrow> (int \<times> heap) kres" where
  "dis_create_srq env h ibsrq ia =
     (let p = to_dis_srq ibsrq in
     rbind (deref (h_srq h) p) (\<lambda>srq.
     rbind (roundup_pow_of_two (ucast (sa_max_wr (si_attr ia)))) (\<lambda>n.
     let srq1 = srq_attrs ia (ucast n) srq;
         h1 = put_srq h p srq1 in
     if \<not> k_alloc env h1 (AllocWqes DIS_RQ (wq_wqe_max (srq_rq srq1)))
     then Inr (-42, put_srq h p (srq1\<lparr>srq_rq := set_buf (srq_rq srq1) NULL\<rparr>))
     else Inr (0, put_srq (new_wqes h1 (wq_wqe_max (srq_rq srq1))) p
       (srq1\<lparr>srq_rq := set_buf (srq_rq srq1) (h_next h1), srq_srq_lock := False\<rparr>)))))"

definition dis_modify_srq :: "heap \<Rightarrow> ptr \<Rightarrow> srq_attr \<Rightarrow> u32 \<Rightarrow> (int \<times> heap) kres" where
  "dis_modify_srq h ibsrq attr attr_mask =
     (let p = to_dis_srq ibsrq in
     rbind (srq_lock h p) (\<lambda>h1. rbind (srq_unlock h1 p) (\<lambda>h2. Inr (0, h2))))"

definition dis_query_srq :: "heap \<Rightarrow> ptr \<Rightarrow> srq_attr \<Rightarrow> (int \<times> srq_attr \<times> heap) kres" where
  "dis_query_srq h ibsrq attr =
     (let p = to_dis_srq ibsrq in
     rbind (srq_lock h p) (\<lambda>h1.
     rbind (deref (h_srq h1) p) (\<lambda>srq.
     let attr1 = attr\<lparr>sa_max_wr := wq_wqe_max (srq_rq srq), sa_max_sge := wq_sge_max (srq_rq srq),
           sa_srq_limit := srq_srq_limit srq\<rparr> in
     rbind (srq_unlock h1 p) (\<lambda>h2. Inr (0, attr1, h2)))))"

fun post_srq_loop :: "kenv \<Rightarrow> heap \<Rightarrow> ptr \<Rightarrow> ib_wr list \<Rightarrow> (int \<times> heap) kres" where
  "post_srq_loop env h p [] = rbind (srq_unlock h p) (\<lambda>h1. Inr (0, h1))"
| "post_srq_loop env h p (wr # wrs) =
     rbind (dis_qp_post_one_rqe env h (SrqRqOf p) wr) (\<lambda>(ret, h1).
     if ret \<noteq> 0 then rbind (srq_unlock h1 p) (\<lambda>h2. Inr (-42, h2))
     else rbind (dis_qp_notify h1 (SrqRqOf p)) (\<lambda>(ret', h2). post_srq_loop env h2 p wrs))"

definition dis_post_srq_recv :: "kenv \<Rightarrow> heap \<Rightarrow> ptr \<Rightarrow> ib_wr list \<Rightarrow> (int \<times> heap) kres" where
  "dis_post_srq_recv env h ibsrq wrs =
     (let p = to_dis_srq ibsrq in
     rbind (srq_lock h p) (\<lambda>h1. post_srq_loop env h1 p wrs))"

definition dis_destroy_srq :: "heap \<Rightarrow> ptr \<Rightarrow> heap kres" where
  "dis_destroy_srq h ibsrq =
     rbind (deref (h_srq h) (to_dis_srq ibsrq)) (\<lambda>srq.
     rbind (kfree (h_wqe h) (circ_buf_mem (wq_wqe_circ (srq_rq srq)))) (\<lambda>m.
     Inr (h\<lparr>h_wqe := m\<rparr>)))"

section \<open>The ring of a shared receive queue\<close>

definition srq_ok :: "heap \<Rightarrow> ptr \<Rightarrow> bool" where
  "srq_ok h p \<longleftrightarrow> p \<noteq> NULL \<and> (case h_srq h p of None \<Rightarrow> False
     | Some srq \<Rightarrow> \<not> srq_srq_lock srq \<and> circ_buf_mem (wq_wqe_circ (srq_rq srq)) \<noteq> NULL
         \<and> (case h_wqe h (circ_buf_mem (wq_wqe_circ (srq_rq srq))) of None \<Rightarrow> False
            | Some slots \<Rightarrow> circ_ok (wq_wqe_circ (srq_rq srq)) (wq_wqe_max (srq_rq srq)) slots))"

text \<open>Sizes the kernel's rounding is documented for and that fit an index.\<close>

lemma srq_size:
  assumes "0 < unat (n :: u32)" "unat n \<le> 2 ^ 31"
  obtains m where "roundup_pow_of_two (ucast n) = Inr m" "ring_size (ucast m)"
    "unat (ucast m :: u32) = unat m" "unat n \<le> unat m" "unat m < 2 * unat n"
proof -
  obtain m where m: "roundup_pow_of_two (ucast n) = Inr m"
    using roundup_pow_of_two_spec [of "ucast n"] assms by auto
  with roundup_pow_of_two_ring_size [OF _ _ m] assms show ?thesis by (auto intro: that)
qed

lemma exp_between: "n = 2 ^ k \<Longrightarrow> n \<le> (m :: nat) \<Longrightarrow> m < 2 * n \<Longrightarrow> m = 2 ^ j \<Longrightarrow> m = n"
proof -
  assume *: "n = 2 ^ k" "n \<le> m" "m < 2 * n" "m = 2 ^ j"
  then have "(2 :: nat) ^ k \<le> 2 ^ j" "(2 :: nat) ^ j < 2 ^ Suc k" by simp_all
  then have "k \<le> j" by simp
  moreover have "j < Suc k" using \<open>(2 :: nat) ^ j < 2 ^ Suc k\<close> by (rule power_less_imp_less_exp [rotated]) simp
  ultimately have "j = k" by simp
  with * show ?thesis by simp
qed

lemma create_srq_ok:
  assumes "heap_ok h" "h_srq h p = Some srq" "wq_wqe_circ (srq_rq srq) = zero_circ"
    "0 < unat (sa_max_wr (si_attr ia))" "unat (sa_max_wr (si_attr ia)) \<le> 2 ^ 31"
    "dis_create_srq env h p ia = Inr (0, h')"
  obtains srq' where "h_srq h' = (h_srq h)(p \<mapsto> srq')" "srq_ok h' p" "wq_ibqp (srq_rq srq') = wq_ibqp (srq_rq srq)"
    "wq_list h' (SrqRqOf p) = []" "wq_cap h' (SrqRqOf p) = unat (wq_wqe_max (srq_rq srq')) - 1"
    "unat (sa_max_wr (si_attr ia)) \<le> unat (wq_wqe_max (srq_rq srq'))"
    "unat (wq_wqe_max (srq_rq srq')) < 2 * unat (sa_max_wr (si_attr ia))" "ring_size (wq_wqe_max (srq_rq srq'))"
    "wq_sge_max (srq_rq srq') = sa_max_sge (si_attr ia)" "srq_srq_limit srq' = sa_srq_limit (si_attr ia)"
    "h_wqe h' = (h_wqe h)(h_next h \<mapsto> replicate (unat (wq_wqe_max (srq_rq srq'))) zero_wqe)"
    "circ_buf_mem (wq_wqe_circ (srq_rq srq')) = h_next h"
proof -
  have p: "p \<noteq> NULL" "0 < h_next h" using assms(1,2) by (cases p; auto simp: heap_ok_def fresh_in_def)+
  obtain m where m: "roundup_pow_of_two (ucast (sa_max_wr (si_attr ia))) = Inr m" "ring_size (ucast m)"
    "unat (ucast m :: u32) = unat m" "unat (sa_max_wr (si_attr ia)) \<le> unat m"
    "unat m < 2 * unat (sa_max_wr (si_attr ia))"
    using srq_size [OF assms(4,5)] .
  let ?srq = "(srq_attrs ia (ucast m) srq)\<lparr>srq_rq := set_buf (srq_rq (srq_attrs ia (ucast m) srq)) (h_next h),
    srq_srq_lock := False\<rparr>"
  have h': "h' = h\<lparr>h_next := Suc (h_next h), h_srq := (h_srq h)(p \<mapsto> ?srq),
      h_wqe := (h_wqe h)(h_next h \<mapsto> replicate (unat (ucast m :: u32)) zero_wqe)\<rparr>"
    using assms(6) p m(1) assms(2)
    by (auto simp: dis_create_srq_def Let_def kres_simps put_srq_def new_wqes_def srq_attrs_def split: if_splits)
  show ?thesis
    by (rule that [of ?srq])
      (use m p assms(3) in \<open>simp_all add: h' srq_ok_def srq_attrs_def set_buf_def circ_ok_def zero_circ_def
        wq_list_def wq_cap_def kres_simps circ_list_def ring_list_def\<close>)
qed

section \<open>An example\<close>

definition ex_srq_heap :: heap where
  "ex_srq_heap = empty_heap\<lparr>h_next := 8, h_srq := [7 \<mapsto> zero_srq]\<rparr>"

definition ex_srq_attrs :: srq_init_attr where
  "ex_srq_attrs = \<lparr>si_srq_type = 0, si_attr = \<lparr>sa_max_wr = 4, sa_max_sge = 2, sa_srq_limit = 1\<rparr>\<rparr>"

lemma ex_srq_heap_ok: "heap_ok ex_srq_heap" "h_srq ex_srq_heap 7 = Some zero_srq"
  "wq_wqe_circ (srq_rq zero_srq) = zero_circ" "wq_ibqp (srq_rq zero_srq) = NULL"
  by (auto simp: ex_srq_heap_def heap_ok_def empty_heap_def fresh_in_def zero_srq_def zero_wq_def)

lemma ex_create_srq: "\<exists>h. dis_create_srq roomy_env ex_srq_heap 7 ex_srq_attrs = Inr (0, h)"
  by (simp add: dis_create_srq_def ex_srq_heap_def ex_srq_attrs_def roomy_env_def kres_simps Let_def
      roundup_pow_of_two_def put_srq_def)

section \<open>Properties\<close>

text \<open>
  The size of a shared receive queue. A queue created for \<open>max_wr\<close> requests is empty and reports a
  ring of the least power of two that is at least \<open>max_wr\<close>; it holds one request fewer than it
  reports, so when \<open>max_wr\<close> is a power of two it holds one fewer than was asked for.
\<close>

lemma create_srq_capacity:
  assumes "heap_ok h" "h_srq h p = Some srq" "wq_wqe_circ (srq_rq srq) = zero_circ"
    "0 < unat (sa_max_wr (si_attr ia))" "unat (sa_max_wr (si_attr ia)) \<le> 2 ^ 31"
    "dis_create_srq env h p ia = Inr (0, h')"
  shows "srq_ok h' p \<and> wq_list h' (SrqRqOf p) = [] \<and> (\<exists>attr' h''. dis_query_srq h' p attr = Inr (0, attr', h'')
    \<and> sa_max_sge attr' = sa_max_sge (si_attr ia) \<and> sa_srq_limit attr' = sa_srq_limit (si_attr ia)
    \<and> (\<exists>k. unat (sa_max_wr attr') = 2 ^ k)
    \<and> unat (sa_max_wr (si_attr ia)) \<le> unat (sa_max_wr attr') \<and> unat (sa_max_wr attr') < 2 * unat (sa_max_wr (si_attr ia))
    \<and> wq_cap h' (SrqRqOf p) = unat (sa_max_wr attr') - 1
    \<and> (\<forall>k. unat (sa_max_wr (si_attr ia)) = 2 ^ k \<longrightarrow> wq_cap h' (SrqRqOf p) = unat (sa_max_wr (si_attr ia)) - 1))"
  using assms
proof (cases rule: create_srq_ok)
  case (1 srq')
  then obtain k where k: "unat (wq_wqe_max (srq_rq srq')) = 2 ^ k" by (auto simp: ring_size_def)
  have p: "p \<noteq> NULL" "h_srq h' p = Some srq'" "\<not> srq_srq_lock srq'" using 1(1,2) by (simp_all add: srq_ok_def)
  have q: "dis_query_srq h' p attr = Inr (0, attr\<lparr>sa_max_wr := wq_wqe_max (srq_rq srq'),
      sa_max_sge := wq_sge_max (srq_rq srq'), sa_srq_limit := srq_srq_limit srq'\<rparr>,
      put_srq (put_srq h' p (srq'\<lparr>srq_srq_lock := True\<rparr>)) p (srq'\<lparr>srq_srq_lock := False\<rparr>))"
    using p by (simp add: dis_query_srq_def srq_lock_def srq_unlock_def put_srq_def kres_simps)
  have "unat (wq_wqe_max (srq_rq srq')) = unat (sa_max_wr (si_attr ia))"
    if "unat (sa_max_wr (si_attr ia)) = 2 ^ j" for j
    using exp_between [OF that 1(6,7) k] .
  with 1 q k show ?thesis by auto
qed

text \<open>
  C34. A shared receive queue cannot be posted to. Nothing sets the back pointer \<open>rq.ibqp\<close> of its work
  queue, so the first request posted to a queue that was just created dereferences \<open>NULL\<close>, with the
  lock of the queue held; only an empty list of requests is accepted.
\<close>

theorem post_srq_recv_faults:
  assumes "heap_ok h" "h_srq h p = Some srq" "wq_wqe_circ (srq_rq srq) = zero_circ" "wq_ibqp (srq_rq srq) = NULL"
    "0 < unat (sa_max_wr (si_attr ia))" "unat (sa_max_wr (si_attr ia)) \<le> 2 ^ 31"
    "dis_create_srq env h p ia = Inr (0, h')"
  shows "dis_post_srq_recv env' h' p wrs = (if wrs = [] then Inr (0, h') else Inl NullDeref)"
  using assms(1-3,5-7)
proof (cases rule: create_srq_ok)
  case (1 srq')
  have p: "p \<noteq> NULL" "h_srq h' p = Some srq'" "\<not> srq_srq_lock srq'" using 1(1,2) by (simp_all add: srq_ok_def)
  then have "srq'\<lparr>srq_srq_lock := False\<rparr> = srq'" by simp
  with p 1(3) assms(4) show ?thesis
    by (cases wrs) (simp_all add: dis_post_srq_recv_def srq_lock_def srq_unlock_def put_srq_def kres_simps
        dis_qp_post_one_rqe_def fun_upd_idem)
qed

theorem post_srq_recv_faults_witness:
  "\<exists>h. dis_create_srq roomy_env ex_srq_heap 7 ex_srq_attrs = Inr (0, h)
    \<and> dis_post_srq_recv roomy_env h 7 [\<lparr>wr_wr_id = 1, wr_sg_list = [], wr_num_sge = 0\<rparr>] = Inl NullDeref"
proof -
  obtain h where h: "dis_create_srq roomy_env ex_srq_heap 7 ex_srq_attrs = Inr (0, h)" using ex_create_srq by blast
  have "0 < unat (sa_max_wr (si_attr ex_srq_attrs))" "unat (sa_max_wr (si_attr ex_srq_attrs)) \<le> 2 ^ 31"
    by (simp_all add: ex_srq_attrs_def)
  from post_srq_recv_faults [OF ex_srq_heap_ok this h] h show ?thesis by auto
qed

text \<open>Destruction gives the ring back, and changing attributes changes nothing.\<close>

lemma create_destroy_srq:
  assumes "heap_ok h" "h_srq h p = Some srq" "wq_wqe_circ (srq_rq srq) = zero_circ"
    "0 < unat (sa_max_wr (si_attr ia))" "unat (sa_max_wr (si_attr ia)) \<le> 2 ^ 31"
    "dis_create_srq env h p ia = Inr (0, h')"
  shows "\<exists>h''. dis_destroy_srq h' p = Inr h'' \<and> h_wqe h'' = h_wqe h"
  using assms
proof (cases rule: create_srq_ok)
  case (1 srq')
  have p: "p \<noteq> NULL" "h_srq h' p = Some srq'" using 1(1,2) by (simp_all add: srq_ok_def)
  have "h_next h \<noteq> NULL" "h_wqe h (h_next h) = None" using assms(1) by (simp_all add: heap_ok_def fresh_in_def)
  with p 1(11,12) show ?thesis by (auto simp: dis_destroy_srq_def kres_simps fun_eq_iff)
qed

lemma modify_srq_unchanged:
  assumes "srq_ok h p"
  shows "dis_modify_srq h p attr attr_mask = Inr (0, h)"
proof -
  obtain srq where "h_srq h p = Some srq" "p \<noteq> NULL" "\<not> srq_srq_lock srq"
    using assms by (auto simp: srq_ok_def split: option.splits)
  moreover from this have "srq\<lparr>srq_srq_lock := False\<rparr> = srq" by simp
  ultimately show ?thesis
    by (simp add: dis_modify_srq_def srq_lock_def srq_unlock_def put_srq_def kres_simps fun_upd_idem)
qed

end
