(* ===== verification/Device_Attributes.thy ===== *)
theory Device_Attributes
  imports Work_Queue
begin

text \<open>
  What the driver tells the RDMA core about the device and its port (the first operations of
  \<open>dis_verbs.c\<close>), and how the sizes it advertises fit what posting accepts.
\<close>

section \<open>Operations\<close>

text \<open>The flags and enumeration values of the RDMA core that the answers are made of.\<close>

record rdma_consts =
  IB_DEVICE_ALLOW_USER_UNREG :: u64
  IB_DEVICE_MEM_MGT_EXTENSIONS :: u64
  IB_ATOMIC_NONE :: u32
  IB_PORT_PHYS_STATE_LINK_UP :: u8
  IB_PORT_ACTIVE :: u32
  RDMA_CORE_PORT_RAW_PACKET :: u32
  IB_LINK_LAYER_UNSPECIFIED :: u32

definition dis_alloc_ucontext :: "heap \<Rightarrow> ptr \<Rightarrow> (int \<times> heap) kres" where
  "dis_alloc_ucontext h ibucontext = Inr (0, h)"

definition dis_dealloc_ucontext :: "heap \<Rightarrow> ptr \<Rightarrow> heap kres" where
  "dis_dealloc_ucontext h ibucontext = Inr h"

text \<open>The fields of \<open>struct ib_device_attr\<close>, \<open>ib_port_attr\<close> and \<open>ib_port_immutable\<close> that are set.\<close>

record ib_device_attr =
  da_fw_ver :: u64
  da_sys_image_guid :: u64
  da_max_mr_size :: u64
  da_page_size_cap :: u64
  da_vendor_id :: u32
  da_vendor_part_id :: u32
  da_hw_ver :: u32
  da_max_qp :: c_int
  da_max_qp_wr :: c_int
  da_device_cap_flags :: u64
  da_max_send_sge :: c_int
  da_max_recv_sge :: c_int
  da_max_sge_rd :: c_int
  da_max_cq :: c_int
  da_max_cqe :: c_int
  da_max_mr :: c_int
  da_max_pd :: c_int
  da_max_qp_rd_atom :: c_int
  da_max_qp_init_rd_atom :: c_int
  da_atomic_cap :: u32
  da_max_pkeys :: u16
  da_local_ca_ack_delay :: u8

definition dis_query_device :: "rdma_consts \<Rightarrow> ptr \<Rightarrow> ib_device_attr \<Rightarrow> int \<times> ib_device_attr" where
  "dis_query_device c ibdev dev_attr = (0, dev_attr\<lparr>
     da_fw_ver := 1, da_sys_image_guid := 1234, da_max_mr_size := DIS_MSG_SIZE_MAX,
     da_page_size_cap := PAGE_SIZE, da_vendor_id := 0x1234, da_vendor_part_id := 0x1234,
     da_hw_ver := 1234, da_max_qp := 1234, da_max_qp_wr := DIS_MSG_MAX,
     da_device_cap_flags := IB_DEVICE_ALLOW_USER_UNREG c OR IB_DEVICE_MEM_MGT_EXTENSIONS c,
     da_max_send_sge := of_nat DIS_SGE_PER_WQE, da_max_recv_sge := of_nat DIS_SGE_PER_WQE,
     da_max_sge_rd := 1, da_max_cq := 1234, da_max_cqe := 1234, da_max_mr := DIS_MR_MAX,
     da_max_pd := 1234, da_max_qp_rd_atom := 0, da_max_qp_init_rd_atom := 0,
     da_atomic_cap := IB_ATOMIC_NONE c, da_max_pkeys := 1, da_local_ca_ack_delay := 1\<rparr>)"

record ib_port_attr =
  pa_gid_tbl_len :: c_int
  pa_pkey_tbl_len :: u16
  pa_max_vl_num :: u8
  pa_max_msg_sz :: u32
  pa_max_mtu :: ib_mtu
  pa_active_mtu :: ib_mtu
  pa_lid :: u32
  pa_sm_lid :: u32
  pa_bad_pkey_cntr :: u32
  pa_qkey_viol_cntr :: u32
  pa_lmc :: u8
  pa_sm_sl :: u8
  pa_subnet_timeout :: u8
  pa_init_type_reply :: u8
  pa_phys_state :: u8
  pa_state :: u32

definition dis_query_port :: "rdma_consts \<Rightarrow> ptr \<Rightarrow> u8 \<Rightarrow> ib_port_attr \<Rightarrow> int \<times> ib_port_attr" where
  "dis_query_port c ibdev port port_attr = (0, port_attr\<lparr>
     pa_gid_tbl_len := 1, pa_pkey_tbl_len := 1, pa_max_vl_num := 1,
     pa_max_msg_sz := ucast DIS_MSG_SIZE_MAX, pa_max_mtu := IB_MTU_4096, pa_active_mtu := IB_MTU_4096,
     pa_lid := 1234, pa_sm_lid := 1234, pa_bad_pkey_cntr := 0, pa_qkey_viol_cntr := 0, pa_lmc := 0,
     pa_sm_sl := 0, pa_subnet_timeout := 0, pa_init_type_reply := 0,
     pa_phys_state := IB_PORT_PHYS_STATE_LINK_UP c, pa_state := IB_PORT_ACTIVE c\<rparr>)"

record ib_port_immutable =
  pi_pkey_tbl_len :: c_int
  pi_gid_tbl_len :: c_int
  pi_core_cap_flags :: u32
  pi_max_mad_size :: u32

definition dis_get_port_immutable :: "rdma_consts \<Rightarrow> ptr \<Rightarrow> u8 \<Rightarrow> ib_port_immutable \<Rightarrow> int \<times> ib_port_immutable" where
  "dis_get_port_immutable c ibdev port_num immutable = (0, immutable\<lparr>
     pi_pkey_tbl_len := 1, pi_gid_tbl_len := 1, pi_core_cap_flags := RDMA_CORE_PORT_RAW_PACKET c,
     pi_max_mad_size := 0\<rparr>)"

definition dis_get_link_layer :: "rdma_consts \<Rightarrow> ptr \<Rightarrow> u8 \<Rightarrow> u32" where
  "dis_get_link_layer c ibdev port_num = IB_LINK_LAYER_UNSPECIFIED c"

definition dis_query_pkey :: "ptr \<Rightarrow> u8 \<Rightarrow> u16 \<Rightarrow> int \<times> u16" where
  "dis_query_pkey ibdev port index = (0, 0xffff)"

section \<open>Message sizes\<close>

text \<open>The bytes of a request, and the bounds of the entries the first posting loop counts for it.\<close>

definition request_size :: "ib_wr \<Rightarrow> nat" where
  "request_size wr = sum_list (map (\<lambda>s. unat (sge_length s)) (request_sges wr))"

lemma count_bounds:
  assumes "\<forall>s \<in> set ss. user_span h pdp s \<noteq> None"
  shows "sum_list (map (\<lambda>s. unat (sge_length s)) ss) + length ss \<le> 4096 * sum_list (map (span_count h pdp) ss)"
    "4096 * sum_list (map (span_count h pdp) ss) \<le> sum_list (map (\<lambda>s. unat (sge_length s)) ss) + 8192 * length ss"
proof -
  have 1: "unat (sge_length s) + 1 \<le> 4096 * span_count h pdp s \<and> 4096 * span_count h pdp s \<le> unat (sge_length s) + 8192"
    if "user_span h pdp s \<noteq> None" for s
  proof -
    from that obtain pages off where "user_span h pdp s = Some (pages, off)" by auto
    then have c: "span_count h pdp s = (unat (sge_length s) + off mod 4096) div 4096 + 1" by (simp add: span_count_def)
    let ?x = "unat (sge_length s) + off mod 4096"
    have "?x div 4096 * 4096 + ?x mod 4096 = ?x" "?x mod 4096 < 4096" "off mod 4096 < 4096" by simp_all
    moreover have "x + 1 \<le> 4096 * (q + 1) \<and> 4096 * (q + 1) \<le> x + 8192"
      if "q * 4096 + r = x + y" "r < 4096" "y < 4096" for x y q r :: nat
      using that by auto
    ultimately show ?thesis unfolding c by blast
  qed
  from assms have "sum_list (map (\<lambda>s. unat (sge_length s)) ss) + length ss \<le> 4096 * sum_list (map (span_count h pdp) ss)
    \<and> 4096 * sum_list (map (span_count h pdp) ss) \<le> sum_list (map (\<lambda>s. unat (sge_length s)) ss) + 8192 * length ss"
  proof (induction ss)
    case (Cons s ss)
    from Cons.prems 1 [of s] Cons.IH show ?case by (simp add: distrib_left)
  qed simp
  then show "sum_list (map (\<lambda>s. unat (sge_length s)) ss) + length ss \<le> 4096 * sum_list (map (span_count h pdp) ss)"
    "4096 * sum_list (map (span_count h pdp) ss) \<le> sum_list (map (\<lambda>s. unat (sge_length s)) ss) + 8192 * length ss"
    by simp_all
qed

lemma request_sges_length: "request_in_user_mrs h pdp wr \<Longrightarrow> length (request_sges wr) = sge_limit wr"
  by (simp add: request_in_user_mrs_def request_sges_def)

lemma sge_limit_4: "sge_limit wr \<le> 4"
  by (simp add: sge_limit_def DIS_SGE_PER_WQE_def)

section \<open>Properties\<close>

text \<open>
  C35. The advertised message size is not accepted over user memory. A send or receive request of
  \<open>max_msg_sz\<close> bytes or more, the size \<open>dis_query_port\<close> advertises, whose segments all lie in user
  regions is refused with -42 however it is cut into segments; with \<open>n\<close> segments, \<open>2 * n\<close> pages less
  are enough to be accepted by the size check. (A segment of a DMA region counts as one entry whatever
  its length, so requests over DMA regions are not refused for their size.)
\<close>

theorem max_msg_size_refused:
  assumes "wq_ok h r" "request_in_user_mrs h (wq_pd h r) wr" "0 < sge_limit wr"
    "dis_query_port c ibdev port attr = (0, attr')" "unat (pa_max_msg_sz attr') \<le> request_size wr"
  shows "(\<exists>h'. dis_qp_post_one_sqe env h r wr = Inr (-42, h')) \<and> (\<exists>h'. dis_qp_post_one_rqe env h r wr = Inr (-42, h'))
    \<and> (\<forall>wr'. request_in_user_mrs h (wq_pd h r) wr' \<longrightarrow>
         request_size wr' + 8192 * sge_limit wr' \<le> unat (pa_max_msg_sz attr') \<longrightarrow> request_count h (wq_pd h r) wr' \<le> 1024)"
proof -
  have sz: "unat (pa_max_msg_sz attr') = 4096 * 1024"
    using assms(4) by (auto simp: dis_query_port_def DIS_MSG_SIZE_MAX_def DIS_MAX_IOVLEN_def PAGE_SIZE_def)
  have "request_size wr + sge_limit wr \<le> 4096 * request_count h (wq_pd h r) wr"
    using assms(2) count_bounds(1) [of "request_sges wr" h "wq_pd h r"] request_sges_length [OF assms(2)]
    by (simp add: request_in_user_mrs_def request_size_def request_count_def)
  then have "1024 < request_count h (wq_pd h r) wr" using assms(3,5) sz by linarith
  with assms(2) have rej: "length (wq_list h r) = wq_cap h r \<or> first_bad_key unregistered h (wq_pd h r) wr
     \<or> request_in_user_mrs h (wq_pd h r) wr \<and> 1024 < request_count h (wq_pd h r) wr" by simp
  have "request_count h (wq_pd h r) wr' \<le> 1024"
    if "request_in_user_mrs h (wq_pd h r) wr'" "request_size wr' + 8192 * sge_limit wr' \<le> unat (pa_max_msg_sz attr')" for wr'
  proof -
    have "4096 * request_count h (wq_pd h r) wr' \<le> request_size wr' + 8192 * sge_limit wr'"
      using that(1) count_bounds(2) [of "request_sges wr'" h "wq_pd h r"] request_sges_length [OF that(1)]
      by (simp add: request_in_user_mrs_def request_size_def request_count_def)
    with that(2) sz show ?thesis by linarith
  qed
  with post_one_rejects [OF assms(1) rej] show ?thesis
    unfolding post_sqe_one post_rqe_one by blast
qed

text \<open>An example region of 1024 pages.\<close>

definition ex_consts :: rdma_consts where
  "ex_consts = \<lparr>IB_DEVICE_ALLOW_USER_UNREG = 0, IB_DEVICE_MEM_MGT_EXTENSIONS = 0, IB_ATOMIC_NONE = 0,
     IB_PORT_PHYS_STATE_LINK_UP = 5, IB_PORT_ACTIVE = 4, RDMA_CORE_PORT_RAW_PACKET = 0, IB_LINK_LAYER_UNSPECIFIED = 0\<rparr>"

definition ex_port_attr :: ib_port_attr where
  "ex_port_attr = \<lparr>pa_gid_tbl_len = 0, pa_pkey_tbl_len = 0, pa_max_vl_num = 0, pa_max_msg_sz = 0,
     pa_max_mtu = IB_MTU_256, pa_active_mtu = IB_MTU_256, pa_lid = 0, pa_sm_lid = 0, pa_bad_pkey_cntr = 0,
     pa_qkey_viol_cntr = 0, pa_lmc = 0, pa_sm_sl = 0, pa_subnet_timeout = 0, pa_init_type_reply = 0,
     pa_phys_state = 0, pa_state = 0\<rparr>"

definition ex_big_heap :: heap where
  "ex_big_heap = ex_wq_heap\<lparr>h_mr := [5 \<mapsto> ex_mr\<lparr>mr_mr_va := 0, mr_va_offset := 0\<rparr>],
     h_iov := [6 \<mapsto> replicate 1024 \<lparr>iov_base = 0x10000, iov_len = PAGE_SIZE\<rparr>]\<rparr>"

lemma ex_big_wq: "wq_ok ex_big_heap (SqOf 2)" "wq_pd ex_big_heap (SqOf 2) = 3"
proof -
  have g: "get_wq ex_big_heap (SqOf 2) = Inr ex_wq" by (simp add: ex_big_heap_def ex_wq_heap_def kres_simps)
  show "wq_ok ex_big_heap (SqOf 2)" "wq_pd ex_big_heap (SqOf 2) = 3"
    by (simp_all add: wq_ok_def wq_pd_def g del: get_wq.simps)
       (simp_all add: ex_big_heap_def ex_wq_heap_def ex_wq_def deref_Some circ_ok_def zero_circ_def zero_wqe_def)
qed

lemma ex_big_span: "user_span ex_big_heap 3 \<lparr>sge_addr = 0, sge_length = 0x400000, sge_lkey = 0\<rparr>
    = Some (replicate 1024 \<lparr>iov_base = 0x10000, iov_len = PAGE_SIZE\<rparr>, 0)"
  by (simp add: user_span_def ex_big_heap_def ex_wq_heap_def ex_pd_def ex_mr_def zero_mr_def)

theorem max_msg_size_refused_witness:
  "\<exists>attr h'. dis_query_port ex_consts 1 1 attr = (0, attr) \<and> pa_max_msg_sz attr = 0x400000
    \<and> dis_qp_post_one_sqe roomy_env ex_big_heap (SqOf 2) (ex_request 0 0x400000 0) = Inr (-42, h')"
proof -
  let ?a = "snd (dis_query_port ex_consts 1 1 ex_port_attr)"
  have a: "dis_query_port ex_consts 1 1 ?a = (0, ?a)" "pa_max_msg_sz ?a = 0x400000"
    by (simp_all add: dis_query_port_def DIS_MSG_SIZE_MAX_def DIS_MAX_IOVLEN_def PAGE_SIZE_def)
  have "request_in_user_mrs ex_big_heap 3 (ex_request 0 0x400000 0)"
    by (simp add: request_in_user_mrs_def ex_sges ex_big_span) (simp add: ex_request_def)
  moreover have "request_size (ex_request 0 0x400000 0) = 0x400000" "0 < sge_limit (ex_request 0 0x400000 0)"
    by (simp_all add: request_size_def ex_sges)
  ultimately show ?thesis
    using max_msg_size_refused [OF ex_big_wq(1) _ _ a(1), of "ex_request 0 0x400000 0" roomy_env] a ex_big_wq(2)
    by auto
qed

end
