(* ===== verification/Bus_Driver.thy ===== *)
theory Bus_Driver
  imports Prelude "HOL-Library.Sublist"
begin

text \<open>
  The module life cycle: the bus (\<open>dis_bus.c\<close>), the device (\<open>dis_device.c\<close>) and the driver
  (\<open>dis_driver.c\<close>) with its probe and remove functions. The driver core and the RDMA core of the
  kernel, which keep what is registered, are parameters with a state of their own.
\<close>

section \<open>Matching devices to drivers\<close>

text \<open>\<open>strncmp\<close> of the kernel, on strings without their terminating \<open>NUL\<close>.\<close>

fun strncmp :: "string \<Rightarrow> string \<Rightarrow> nat \<Rightarrow> int" where
  "strncmp xs ys 0 = 0"
| "strncmp [] [] (Suc n) = 0"
| "strncmp [] (y # ys) (Suc n) = -1"
| "strncmp (x # xs) [] (Suc n) = 1"
| "strncmp (x # xs) (y # ys) (Suc n) =
     (if x = y then strncmp xs ys n else if (of_char x :: nat) < of_char y then -1 else 1)"

definition bus_match :: "string \<Rightarrow> string \<Rightarrow> bool" where
  "bus_match dev_name drv_name \<longleftrightarrow> \<not> (strncmp dev_name drv_name (length drv_name) \<noteq> 0)"

lemma strncmp_prefix: "strncmp xs ys (length ys) = 0 \<longleftrightarrow> prefix ys xs"
  by (induction xs ys "length ys" rule: strncmp.induct) auto

section \<open>Registration with the driver core\<close>

datatype reg_obj = BusObj string | DevObj string | DrvObj string

text \<open>
  The services of the driver core the modules call: registering an object returns 0 or an error. Its
  documented behaviour is that an object is registered exactly if the call returned 0, until it is
  unregistered.
\<close>

record 'w devcore =
  bus_register :: "string \<Rightarrow> 'w \<Rightarrow> int \<times> 'w"
  bus_unregister :: "string \<Rightarrow> 'w \<Rightarrow> 'w"
  device_register :: "string \<Rightarrow> 'w \<Rightarrow> int \<times> 'w"
  device_unregister :: "string \<Rightarrow> 'w \<Rightarrow> 'w"
  driver_register :: "string \<Rightarrow> 'w \<Rightarrow> int \<times> 'w"
  driver_unregister :: "string \<Rightarrow> 'w \<Rightarrow> 'w"

definition registers :: "('w \<Rightarrow> reg_obj set) \<Rightarrow> reg_obj \<Rightarrow> ('w \<Rightarrow> int \<times> 'w) \<Rightarrow> ('w \<Rightarrow> 'w) \<Rightarrow> bool" where
  "registers reg x f g \<longleftrightarrow>
     (\<forall>w. reg (snd (f w)) = (if fst (f w) = 0 then insert x (reg w) else reg w)) \<and> (\<forall>w. reg (g w) = reg w - {x})"

definition devcore_contract :: "'w devcore \<Rightarrow> ('w \<Rightarrow> reg_obj set) \<Rightarrow> bool" where
  "devcore_contract c reg \<longleftrightarrow> (\<forall>n.
     registers reg (BusObj n) (bus_register c n) (bus_unregister c n)
   \<and> registers reg (DevObj n) (device_register c n) (device_unregister c n)
   \<and> registers reg (DrvObj n) (driver_register c n) (driver_unregister c n))"

definition BUS_NAME :: string where "BUS_NAME = ''dis-bus''"
definition DIS_BUS_DEV_NAME :: string where "DIS_BUS_DEV_NAME = ''dis_bus_device''"
definition DIS_ROPCIE_NAME :: string where "DIS_ROPCIE_NAME = ''dis-ropcie''"

definition dis_bus_init :: "'w devcore \<Rightarrow> 'w \<Rightarrow> int \<times> 'w" where
  "dis_bus_init c w = (case bus_register c BUS_NAME w of (ret, w1) \<Rightarrow>
     if ret \<noteq> 0 then (-1, w1)
     else (case device_register c DIS_BUS_DEV_NAME w1 of (ret, w2) \<Rightarrow>
       if ret \<noteq> 0 then (-1, bus_unregister c BUS_NAME w2) else (0, w2)))"

definition dis_bus_exit :: "'w devcore \<Rightarrow> 'w \<Rightarrow> 'w" where
  "dis_bus_exit c w = bus_unregister c BUS_NAME (device_unregister c DIS_BUS_DEV_NAME w)"

definition dis_device_init :: "'w devcore \<Rightarrow> 'w \<Rightarrow> int \<times> 'w" where
  "dis_device_init c w = (case device_register c DIS_ROPCIE_NAME w of (ret, w1) \<Rightarrow>
     if ret \<noteq> 0 then (-1, w1) else (0, w1))"

definition dis_device_exit :: "'w devcore \<Rightarrow> 'w \<Rightarrow> 'w" where
  "dis_device_exit c w = device_unregister c DIS_ROPCIE_NAME w"

definition dis_driver_init :: "'w devcore \<Rightarrow> 'w \<Rightarrow> int \<times> 'w" where
  "dis_driver_init c w = (case driver_register c DIS_ROPCIE_NAME w of (ret, w1) \<Rightarrow>
     if ret \<noteq> 0 then (-1, w1) else (0, w1))"

definition dis_driver_exit :: "'w devcore \<Rightarrow> 'w \<Rightarrow> 'w" where
  "dis_driver_exit c w = driver_unregister c DIS_ROPCIE_NAME w"

section \<open>The operations table and the commands enabled for user space\<close>

datatype verb = Alloc_ucontext | Dealloc_ucontext | Alloc_pd | Create_cq | Create_qp | Dealloc_pd | Dereg_mr
  | Destroy_cq | Destroy_qp | Get_link_layer | Get_dma_mr | Reg_user_mr | Get_port_immutable | Modify_qp
  | Poll_cq | Post_recv | Post_send | Query_pkey | Query_port | Query_qp | Req_notify_cq | Query_device
  | Create_srq | Modify_srq | Query_srq | Post_srq_recv | Destroy_srq

definition disdevops :: "verb list" where
  "disdevops = [Alloc_ucontext, Dealloc_ucontext, Alloc_pd, Create_cq, Create_qp, Dealloc_pd, Dereg_mr,
     Destroy_cq, Destroy_qp, Get_link_layer, Get_dma_mr, Reg_user_mr, Get_port_immutable, Modify_qp,
     Poll_cq, Post_recv, Post_send, Query_pkey, Query_port, Query_qp, Req_notify_cq, Query_device,
     Create_srq, Modify_srq, Query_srq, Post_srq_recv, Destroy_srq]"

datatype uverbs_cmd = CMD_GET_CONTEXT | CMD_QUERY_DEVICE | CMD_QUERY_PORT | CMD_ALLOC_PD | CMD_DEALLOC_PD
  | CMD_REG_MR | CMD_DEREG_MR | CMD_CREATE_CQ | CMD_POLL_CQ | CMD_REQ_NOTIFY_CQ | CMD_DESTROY_CQ
  | CMD_CREATE_QP | CMD_QUERY_QP | CMD_MODIFY_QP | CMD_DESTROY_QP | CMD_POST_SEND | CMD_POST_RECV
  | CMD_CREATE_SRQ | CMD_MODIFY_SRQ | CMD_QUERY_SRQ | CMD_POST_SRQ_RECV | CMD_DESTROY_SRQ

definition enabled_cmds :: "uverbs_cmd list" where
  "enabled_cmds = [CMD_GET_CONTEXT, CMD_QUERY_DEVICE, CMD_QUERY_PORT, CMD_ALLOC_PD, CMD_DEALLOC_PD,
     CMD_REG_MR, CMD_DEREG_MR, CMD_CREATE_CQ, CMD_POLL_CQ, CMD_REQ_NOTIFY_CQ, CMD_DESTROY_CQ,
     CMD_CREATE_QP, CMD_QUERY_QP, CMD_MODIFY_QP, CMD_DESTROY_QP, CMD_POST_SEND, CMD_POST_RECV,
     CMD_CREATE_SRQ, CMD_MODIFY_SRQ, CMD_QUERY_SRQ, CMD_POST_SRQ_RECV, CMD_DESTROY_SRQ]"

text \<open>The mask, for the kernel's numbering of the commands.\<close>

definition uverbs_cmd_mask :: "(uverbs_cmd \<Rightarrow> nat) \<Rightarrow> u64" where
  "uverbs_cmd_mask cmd_no = foldr (\<lambda>c m. push_bit (cmd_no c) 1 OR m) enabled_cmds 0"

lemma bit_cmd_mask:
  assumes "n < 64" shows "bit (uverbs_cmd_mask cmd_no) n \<longleftrightarrow> n \<in> cmd_no ` set enabled_cmds"
proof -
  have "bit (foldr (\<lambda>c m. push_bit (cmd_no c) 1 OR m) cs (0 :: u64)) n \<longleftrightarrow> n \<in> cmd_no ` set cs" for cs
    using assms by (induction cs) (auto simp: bit_or_iff bit_exp_iff)
  then show ?thesis by (simp add: uverbs_cmd_mask_def)
qed

section \<open>Probe and remove\<close>

record dis_dev =
  dd_dev :: ptr
  dd_node_type :: nat
  dd_phys_port_cnt :: u8
  dd_num_comp_vectors :: c_int
  dd_local_dma_lkey :: u32
  dd_node_guid :: u64
  dd_parent :: ptr
  dd_dma_ops :: nat
  dd_dma_parms :: bool
  dd_max_segment_size :: u32
  dd_uverbs_cmd_mask :: u64
  dd_name :: string
  dd_ops :: "verb list"

definition zero_dev :: dis_dev where
  "zero_dev = \<lparr>dd_dev = NULL, dd_node_type = 0, dd_phys_port_cnt = 0, dd_num_comp_vectors = 0,
     dd_local_dma_lkey = 0, dd_node_guid = 0, dd_parent = NULL, dd_dma_ops = 0, dd_dma_parms = False,
     dd_max_segment_size = 0, dd_uverbs_cmd_mask = 0, dd_name = '''', dd_ops = []\<rparr>"

text \<open>
  The devices allocated, and the one global variable of the driver. \<open>ib_alloc_device\<close> is a zeroing
  allocation that may fail. The RDMA core is given the address of the device and what it holds.
\<close>

record drv_state =
  ds_next :: ptr
  ds_devs :: "ptr \<rightharpoonup> dis_dev"
  ds_disdev :: ptr

record 'w rdma_core =
  ib_alloc_ok :: "'w \<Rightarrow> bool \<times> 'w"
  ib_register_device :: "ptr \<Rightarrow> dis_dev \<Rightarrow> string \<Rightarrow> 'w \<Rightarrow> int \<times> 'w"
  ib_unregister_device :: "ptr \<Rightarrow> dis_dev \<Rightarrow> 'w \<Rightarrow> 'w"
  RDMA_NODE_UNSPECIFIED :: nat
  dma_virt_ops :: nat
  IB_USER_VERBS_CMD :: "uverbs_cmd \<Rightarrow> nat"
  IB_DEVICE_NAME_MAX :: nat

definition SZ_2G :: u32 where "SZ_2G = 0x80000000"

definition dev_attrs :: "'w rdma_core \<Rightarrow> ptr \<Rightarrow> dis_dev \<Rightarrow> dis_dev" where
  "dev_attrs rc dev d = d\<lparr>dd_dev := dev, dd_node_type := RDMA_NODE_UNSPECIFIED rc, dd_phys_port_cnt := 1,
     dd_num_comp_vectors := 1, dd_local_dma_lkey := 1234, dd_node_guid := 1234, dd_parent := dev,
     dd_dma_ops := dma_virt_ops rc, dd_dma_parms := True, dd_max_segment_size := SZ_2G,
     dd_uverbs_cmd_mask := uverbs_cmd_mask (IB_USER_VERBS_CMD rc),
     dd_name := take (IB_DEVICE_NAME_MAX rc - 1) DIS_ROPCIE_NAME, dd_ops := disdevops\<rparr>"

definition dis_driver_probe :: "'w rdma_core \<Rightarrow> drv_state \<Rightarrow> 'w \<Rightarrow> ptr \<Rightarrow> (int \<times> drv_state \<times> 'w) kres" where
  "dis_driver_probe rc s w dev = (case ib_alloc_ok rc w of (ok, w1) \<Rightarrow>
     if \<not> ok then Inr (-1, s\<lparr>ds_disdev := NULL\<rparr>, w1)
     else
       let p = ds_next s; d = dev_attrs rc dev zero_dev;
           s1 = s\<lparr>ds_next := Suc p, ds_devs := (ds_devs s)(p \<mapsto> d), ds_disdev := p\<rparr> in
       (case ib_register_device rc p d DIS_ROPCIE_NAME w1 of (ret, w2) \<Rightarrow>
         if ret \<noteq> 0 then rbind (kfree (ds_devs s1) (ds_disdev s1)) (\<lambda>ds. Inr (-1, s1\<lparr>ds_devs := ds\<rparr>, w2))
         else Inr (0, s1, w2)))"

definition dis_driver_remove :: "'w rdma_core \<Rightarrow> drv_state \<Rightarrow> 'w \<Rightarrow> ptr \<Rightarrow> (int \<times> drv_state \<times> 'w) kres" where
  "dis_driver_remove rc s w dev =
     rbind (deref (ds_devs s) (ds_disdev s)) (\<lambda>d.
     let w1 = ib_unregister_device rc (ds_disdev s) d w in
     rbind (kfree (ds_devs s) (ds_disdev s)) (\<lambda>ds. Inr (0, s\<lparr>ds_devs := ds\<rparr>, w1)))"

definition drv_ok :: "drv_state \<Rightarrow> bool" where
  "drv_ok s \<longleftrightarrow> 0 < ds_next s \<and> (\<forall>p \<ge> ds_next s. ds_devs s p = None)"

lemma drv_ok_fresh: "drv_ok s \<Longrightarrow> ds_devs s (ds_next s) = None \<and> ds_next s \<noteq> NULL"
  by (simp add: drv_ok_def)

text \<open>
  What the RDMA core documents of the devices it has registered, each under its name: registration
  adds the device if it returns 0 and changes nothing otherwise, and is refused when the name is
  taken; a device is registered until it is unregistered; allocating one registers nothing.
\<close>

definition rdma_contract :: "'w rdma_core \<Rightarrow> ('w \<Rightarrow> (ptr \<times> string) set) \<Rightarrow> bool" where
  "rdma_contract rc reg \<longleftrightarrow>
     (\<forall>w. reg (snd (ib_alloc_ok rc w)) = reg w)
   \<and> (\<forall>p d n w. reg (snd (ib_register_device rc p d n w))
        = (if fst (ib_register_device rc p d n w) = 0 then insert (p, n) (reg w) else reg w))
   \<and> (\<forall>p d n w. n \<in> snd ` reg w \<longrightarrow> fst (ib_register_device rc p d n w) \<noteq> 0)
   \<and> (\<forall>p d w. reg (ib_unregister_device rc p d w) = {x \<in> reg w. fst x \<noteq> p})"

definition core_ok :: "('w \<Rightarrow> (ptr \<times> string) set) \<Rightarrow> drv_state \<Rightarrow> 'w \<Rightarrow> bool" where
  \<comment> \<open>the core has registered live devices only\<close>
  "core_ok reg s w \<longleftrightarrow> drv_ok s \<and> fst ` reg w \<subseteq> dom (ds_devs s)"

lemma core_ok_fresh: "core_ok reg s w \<Longrightarrow> (ds_next s, n) \<notin> reg w"
  by (force simp: core_ok_def drv_ok_def)

text \<open>A probe, case by case.\<close>

lemma probe_cases:
  fixes dev :: ptr
  assumes "core_ok reg s w" "rdma_contract rc reg"
  defines "p \<equiv> ds_next s" and "d \<equiv> dev_attrs rc dev zero_dev"
  obtains (unallocated) w' where "dis_driver_probe rc s w dev = Inr (-1, s\<lparr>ds_disdev := NULL\<rparr>, w')" "reg w' = reg w"
    | (refused) w' where "dis_driver_probe rc s w dev = Inr (-1, s\<lparr>ds_next := Suc p, ds_disdev := p\<rparr>, w')"
      "reg w' = reg w"
    | (probed) w' where "dis_driver_probe rc s w dev
        = Inr (0, s\<lparr>ds_next := Suc p, ds_devs := (ds_devs s)(p \<mapsto> d), ds_disdev := p\<rparr>, w')"
      "reg w' = insert (p, DIS_ROPCIE_NAME) (reg w)" "DIS_ROPCIE_NAME \<notin> snd ` reg w"
proof -
  obtain ok w1 where 1: "ib_alloc_ok rc w = (ok, w1)" by (cases "ib_alloc_ok rc w")
  obtain ret w2 where 2: "ib_register_device rc p d DIS_ROPCIE_NAME w1 = (ret, w2)"
    by (cases "ib_register_device rc p d DIS_ROPCIE_NAME w1")
  have f: "ds_devs s p = None" "p \<noteq> NULL"
    using assms(1) drv_ok_fresh [of s] by (simp_all add: core_ok_def p_def)
  have r: "reg w1 = reg w" using assms(2) 1 unfolding rdma_contract_def by (metis snd_conv)
  then have r2: "reg w2 = (if ret = 0 then insert (p, DIS_ROPCIE_NAME) (reg w) else reg w)"
    "ret = 0 \<longrightarrow> DIS_ROPCIE_NAME \<notin> snd ` reg w"
    using assms(2) 2 unfolding rdma_contract_def by (metis fst_conv snd_conv)+
  have u: "(ds_devs s)(p := None) = ds_devs s" using f by auto
  note eval = dis_driver_probe_def kres_simps Let_def
  consider "\<not> ok" | "ok" "ret \<noteq> 0" | "ok" "ret = 0" by blast
  then show ?thesis
  proof cases
    case 1
    with \<open>ib_alloc_ok rc w = (ok, w1)\<close> r show ?thesis by (intro unallocated [of w1]) (simp_all add: eval)
  next
    case 2
    with \<open>ib_alloc_ok rc w = (ok, w1)\<close> \<open>ib_register_device rc p d DIS_ROPCIE_NAME w1 = (ret, w2)\<close> r2 f u show ?thesis
      by (intro refused [of w2]) (simp_all add: eval p_def d_def)
  next
    case 3
    with \<open>ib_alloc_ok rc w = (ok, w1)\<close> \<open>ib_register_device rc p d DIS_ROPCIE_NAME w1 = (ret, w2)\<close> r2 show ?thesis
      by (intro probed [of w2]) (simp_all add: eval p_def d_def)
  qed
qed

text \<open>Each command enabled for user space has its operation in the table.\<close>

fun cmd_verb :: "uverbs_cmd \<Rightarrow> verb" where
  "cmd_verb CMD_GET_CONTEXT = Alloc_ucontext" | "cmd_verb CMD_QUERY_DEVICE = Query_device"
| "cmd_verb CMD_QUERY_PORT = Query_port" | "cmd_verb CMD_ALLOC_PD = Alloc_pd" | "cmd_verb CMD_DEALLOC_PD = Dealloc_pd"
| "cmd_verb CMD_REG_MR = Reg_user_mr" | "cmd_verb CMD_DEREG_MR = Dereg_mr" | "cmd_verb CMD_CREATE_CQ = Create_cq"
| "cmd_verb CMD_POLL_CQ = Poll_cq" | "cmd_verb CMD_REQ_NOTIFY_CQ = Req_notify_cq" | "cmd_verb CMD_DESTROY_CQ = Destroy_cq"
| "cmd_verb CMD_CREATE_QP = Create_qp" | "cmd_verb CMD_QUERY_QP = Query_qp" | "cmd_verb CMD_MODIFY_QP = Modify_qp"
| "cmd_verb CMD_DESTROY_QP = Destroy_qp" | "cmd_verb CMD_POST_SEND = Post_send" | "cmd_verb CMD_POST_RECV = Post_recv"
| "cmd_verb CMD_CREATE_SRQ = Create_srq" | "cmd_verb CMD_MODIFY_SRQ = Modify_srq" | "cmd_verb CMD_QUERY_SRQ = Query_srq"
| "cmd_verb CMD_POST_SRQ_RECV = Post_srq_recv" | "cmd_verb CMD_DESTROY_SRQ = Destroy_srq"

lemma enabled_commands_served: "cmd_verb ` set enabled_cmds \<subseteq> set disdevops"
  by (simp add: enabled_cmds_def disdevops_def)

text \<open>A probe that succeeds leaves the core's view and the device in place.\<close>

lemma probe_registers:
  assumes "core_ok reg s w" "rdma_contract rc reg" "dis_driver_probe rc s w dev = Inr (0, s', w')"
  shows "core_ok reg s' w'" "(ds_disdev s', DIS_ROPCIE_NAME) \<in> reg w'" "ds_devs s' (ds_disdev s') \<noteq> None"
proof -
  have "core_ok reg s' w' \<and> (ds_disdev s', DIS_ROPCIE_NAME) \<in> reg w' \<and> ds_devs s' (ds_disdev s') \<noteq> None"
    using assms(1,2)
  proof (cases rule: probe_cases [where dev = dev])
    case (probed w')
    with assms(1,3) show ?thesis by (auto simp: core_ok_def drv_ok_def)
  qed (use assms(3) in auto)
  then show "core_ok reg s' w'" "(ds_disdev s', DIS_ROPCIE_NAME) \<in> reg w'" "ds_devs s' (ds_disdev s') \<noteq> None"
    by simp_all
qed

section \<open>Examples\<close>

definition ex_core :: "reg_obj set devcore" where
  "ex_core = (let reg = (\<lambda>x w. (0, insert x w)); unreg = (\<lambda>x w. w - {x}) in
     \<lparr>bus_register = reg \<circ> BusObj, bus_unregister = unreg \<circ> BusObj, device_register = reg \<circ> DevObj,
      device_unregister = unreg \<circ> DevObj, driver_register = reg \<circ> DrvObj, driver_unregister = unreg \<circ> DrvObj\<rparr>)"

lemma ex_core_contract: "devcore_contract ex_core id"
  by (simp add: devcore_contract_def registers_def ex_core_def Let_def)

text \<open>An RDMA core whose state is the set of its devices, and that refuses a name that is taken.\<close>

definition ex_rdma :: "(ptr \<times> string) set rdma_core" where
  "ex_rdma = \<lparr>ib_alloc_ok = \<lambda>w. (True, w),
     ib_register_device = \<lambda>p d n w. (if n \<in> snd ` w then (-23, w) else (0, insert (p, n) w)),
     ib_unregister_device = \<lambda>p d w. {x \<in> w. fst x \<noteq> p},
     RDMA_NODE_UNSPECIFIED = 7, dma_virt_ops = 1, IB_USER_VERBS_CMD = \<lambda>_. 0, IB_DEVICE_NAME_MAX = 64\<rparr>"

lemma ex_rdma_contract: "rdma_contract ex_rdma id"
  by (simp add: rdma_contract_def ex_rdma_def)

definition ex_state :: drv_state where
  "ex_state = \<lparr>ds_next = 1, ds_devs = Map.empty, ds_disdev = NULL\<rparr>"

lemma ex_state_ok: "core_ok id ex_state {}"
  by (simp add: core_ok_def drv_ok_def ex_state_def)

section \<open>Properties\<close>

text \<open>
  C28. Loading the bus module is all or nothing: if \<open>dis_bus_init\<close> returns 0 the bus and the bus device
  are registered, and otherwise it returns -1 and what is registered is what was before, a bus
  registered in the first step included. Unloading takes away exactly the two.
\<close>

theorem bus_init_all_or_nothing:
  assumes "devcore_contract c reg" "BusObj BUS_NAME \<notin> reg w" "DevObj DIS_BUS_DEV_NAME \<notin> reg w"
    "dis_bus_init c w = (ret, w')"
  shows "(if ret = 0 then reg w' = reg w \<union> {BusObj BUS_NAME, DevObj DIS_BUS_DEV_NAME}
      else ret = -1 \<and> reg w' = reg w)
    \<and> (ret = 0 \<longrightarrow> reg (dis_bus_exit c w') = reg w)"
proof -
  obtain r1 w1 where 1: "bus_register c BUS_NAME w = (r1, w1)" by (cases "bus_register c BUS_NAME w")
  obtain r2 w2 where 2: "device_register c DIS_BUS_DEV_NAME w1 = (r2, w2)"
    by (cases "device_register c DIS_BUS_DEV_NAME w1")
  have b: "registers reg (BusObj BUS_NAME) (bus_register c BUS_NAME) (bus_unregister c BUS_NAME)"
    "registers reg (DevObj DIS_BUS_DEV_NAME) (device_register c DIS_BUS_DEV_NAME) (device_unregister c DIS_BUS_DEV_NAME)"
    using assms(1) by (simp_all add: devcore_contract_def)
  from b 1 2 have "reg w1 = (if r1 = 0 then insert (BusObj BUS_NAME) (reg w) else reg w)"
    "reg w2 = (if r2 = 0 then insert (DevObj DIS_BUS_DEV_NAME) (reg w1) else reg w1)"
    "reg (bus_unregister c BUS_NAME x) = reg x - {BusObj BUS_NAME}"
    "reg (device_unregister c DIS_BUS_DEV_NAME x) = reg x - {DevObj DIS_BUS_DEV_NAME}" for x
    unfolding registers_def by (metis fst_conv snd_conv)+
  with 1 2 assms(2-4) show ?thesis
    by (auto simp: dis_bus_init_def dis_bus_exit_def split: if_splits)
qed

theorem bus_init_all_or_nothing_witness:
  "dis_bus_init ex_core {} = (0, {BusObj BUS_NAME, DevObj DIS_BUS_DEV_NAME})"
proof -
  obtain ret w where i: "dis_bus_init ex_core {} = (ret, w)" by (cases "dis_bus_init ex_core {}")
  moreover from i have "ret = 0" by (auto simp: dis_bus_init_def ex_core_def Let_def)
  ultimately show ?thesis using bus_init_all_or_nothing [OF ex_core_contract _ _ i] by auto
qed

text \<open>
  C29. Probing is all or nothing, and removing undoes it. A probe that fails returns -1 and leaves the
  devices allocated and the devices the RDMA core has registered as they were; one that succeeds adds
  exactly one device to both, registered under the driver's name, with the attributes and the
  operations of the driver and with every enabled user command served, and removing it afterwards
  leaves both as they were before.
\<close>

theorem probe_remove_balanced:
  assumes "core_ok reg s w" "rdma_contract rc reg"
  shows "\<exists>ret s' w'. dis_driver_probe rc s w dev = Inr (ret, s', w') \<and> core_ok reg s' w'
    \<and> (ret = -1 \<and> ds_devs s' = ds_devs s \<and> reg w' = reg w
       \<or> ret = 0 \<and> ds_devs s (ds_disdev s') = None
         \<and> ds_devs s' = (ds_devs s)(ds_disdev s' \<mapsto> dev_attrs rc dev zero_dev)
         \<and> reg w' = insert (ds_disdev s', DIS_ROPCIE_NAME) (reg w) \<and> (ds_disdev s', DIS_ROPCIE_NAME) \<notin> reg w
         \<and> cmd_verb ` set enabled_cmds \<subseteq> set (dd_ops (dev_attrs rc dev zero_dev))
         \<and> (\<exists>s'' w''. dis_driver_remove rc s' w' dev = Inr (0, s'', w'')
              \<and> ds_devs s'' = ds_devs s \<and> reg w'' = reg w))"
proof -
  have f: "ds_devs s (ds_next s) = None" "ds_next s \<noteq> NULL" "drv_ok s" "fst ` reg w \<subseteq> dom (ds_devs s)"
    using assms(1) drv_ok_fresh by (auto simp: core_ok_def)
  have o: "dd_ops (dev_attrs rc dev zero_dev) = disdevops" by (simp add: dev_attrs_def)
  from assms show ?thesis
  proof (cases rule: probe_cases [where dev = dev])
    case unallocated
    with f show ?thesis by (auto simp: core_ok_def drv_ok_def)
  next
    case refused
    with f show ?thesis by (auto simp: core_ok_def drv_ok_def)
  next
    case (probed w')
    let ?p = "ds_next s" and ?d = "dev_attrs rc dev zero_dev"
    let ?s = "s\<lparr>ds_next := Suc ?p, ds_devs := (ds_devs s)(?p \<mapsto> ?d), ds_disdev := ?p\<rparr>"
    let ?w = "ib_unregister_device rc ?p ?d w'"
    have new: "x \<in> reg w \<Longrightarrow> fst x \<noteq> ?p" for x using f(1,4) by auto
    have "reg ?w = {x \<in> reg w'. fst x \<noteq> ?p}" using assms(2) unfolding rdma_contract_def by blast
    then have "reg ?w = reg w" using probed(2) new by auto
    moreover have "dis_driver_remove rc ?s w' dev = Inr (0, ?s\<lparr>ds_devs := ds_devs s\<rparr>, ?w)"
      using f(1,2) by (simp add: dis_driver_remove_def kres_simps Let_def fun_upd_idem)
    ultimately have "\<exists>s'' w''. dis_driver_remove rc ?s w' dev = Inr (0, s'', w'')
        \<and> ds_devs s'' = ds_devs s \<and> reg w'' = reg w" by auto
    moreover have "core_ok reg ?s w'" using f probed(2) by (auto simp: core_ok_def drv_ok_def)
    ultimately show ?thesis
      using probed(1,2) f(1) core_ok_fresh [OF assms(1)] enabled_commands_served o
      by (intro exI [of _ 0] exI [of _ ?s] exI [of _ w']) simp
  qed
qed

theorem probe_remove_balanced_witness:
  "\<exists>s' s''. dis_driver_probe ex_rdma ex_state {} 1 = Inr (0, s', {(1, DIS_ROPCIE_NAME)})
    \<and> dis_driver_remove ex_rdma s' {(1, DIS_ROPCIE_NAME)} 1 = Inr (0, s'', {})
    \<and> ds_devs s'' = Map.empty"
proof -
  obtain s' where p: "dis_driver_probe ex_rdma ex_state {} 1 = Inr (0, s', {(1, DIS_ROPCIE_NAME)})"
    by (simp add: dis_driver_probe_def ex_rdma_def ex_state_def Let_def)
  with probe_remove_balanced [OF ex_state_ok ex_rdma_contract, of 1] obtain s'' w'' where
    "dis_driver_remove ex_rdma s' {(1, DIS_ROPCIE_NAME)} 1 = Inr (0, s'', w'')" "ds_devs s'' = Map.empty" "w'' = {}"
    by (auto simp: ex_state_def)
  with p show ?thesis by blast
qed

text \<open>
  C40. The driver has one global device pointer, but the bus matches every device whose name begins with
  the driver's. When a second such device is probed, the RDMA core refuses its registration, since
  the name is taken by the first; the probe fails and frees what it allocated, but the global pointer
  is left dangling (or null, when not even the allocation succeeded). Removing the first device then
  works on that pointer and faults, with the first device still registered and never freed.
\<close>

theorem two_devices_fault:
  assumes "core_ok reg s w" "rdma_contract rc reg" "dis_driver_probe rc s w d1 = Inr (0, s1, w1)"
    "dev_name d1 = DIS_ROPCIE_NAME @ x1" "dev_name d2 = DIS_ROPCIE_NAME @ x2"
  shows "bus_match (dev_name d1) DIS_ROPCIE_NAME \<and> bus_match (dev_name d2) DIS_ROPCIE_NAME
    \<and> (\<exists>s2 w2 f. dis_driver_probe rc s1 w1 d2 = Inr (-1, s2, w2) \<and> ds_devs s2 = ds_devs s1
      \<and> dis_driver_remove rc s2 w2 d1 = Inl f \<and> f \<in> {NullDeref, DanglingDeref}
      \<and> (ds_disdev s1, DIS_ROPCIE_NAME) \<in> reg w2 \<and> ds_devs s2 (ds_disdev s1) \<noteq> None)"
proof -
  note 1 = probe_registers [OF assms(1-3)]
  have m: "bus_match (dev_name d1) DIS_ROPCIE_NAME" "bus_match (dev_name d2) DIS_ROPCIE_NAME"
    using assms(4,5) by (simp_all add: bus_match_def strncmp_prefix)
  from 1(1) assms(2) show ?thesis
  proof (cases rule: probe_cases [where dev = d2])
    case unallocated
    with 1 m show ?thesis by (simp add: dis_driver_remove_def kres_simps)
  next
    case refused
    moreover have "ds_devs s1 (ds_next s1) = None" "ds_next s1 \<noteq> NULL"
      using 1(1) drv_ok_fresh by (auto simp: core_ok_def)
    ultimately show ?thesis using 1 m by (simp add: dis_driver_remove_def kres_simps)
  next
    case probed
    with 1(2) show ?thesis by force
  qed
qed

theorem two_devices_fault_witness:
  "\<exists>s1 s2. dis_driver_probe ex_rdma ex_state {} 1 = Inr (0, s1, {(1, DIS_ROPCIE_NAME)})
    \<and> dis_driver_probe ex_rdma s1 {(1, DIS_ROPCIE_NAME)} 2 = Inr (-1, s2, {(1, DIS_ROPCIE_NAME)})
    \<and> dis_driver_remove ex_rdma s2 {(1, DIS_ROPCIE_NAME)} 1 = Inl DanglingDeref"
proof -
  obtain s1 s2 where p: "dis_driver_probe ex_rdma ex_state {} 1 = Inr (0, s1, {(1, DIS_ROPCIE_NAME)})"
    "dis_driver_probe ex_rdma s1 {(1, DIS_ROPCIE_NAME)} 2 = Inr (-1, s2, {(1, DIS_ROPCIE_NAME)})" "ds_disdev s2 = 2"
    by (simp add: dis_driver_probe_def ex_rdma_def ex_state_def kres_simps Let_def)
  with two_devices_fault [OF ex_state_ok ex_rdma_contract p(1), of "\<lambda>_. DIS_ROPCIE_NAME" "[]" 2 "[]"]
  obtain f where "dis_driver_remove ex_rdma s2 {(1, DIS_ROPCIE_NAME)} 1 = Inl f" by auto
  moreover from this p(3) have "f = DanglingDeref"
    by (auto simp: dis_driver_remove_def kres_simps deref_def Let_def split: if_splits option.splits)
  ultimately show ?thesis using p by blast
qed

end
