(* ===== verification/Ring_Concurrency.thy ===== *)
theory Ring_Concurrency
  imports Circ_Buf
begin

text \<open>
  The queues of the driver under concurrency. A queue is shared by threads that post to it and threads
  that take from it, and a thread may be interrupted between any two accesses to the shared indices
  and slots. Work queues are posted to with no lock (\<open>dis_qp_post_one_sqe\<close>, \<open>dis_qp_post_one_rqe\<close>) and
  taken from by their worker (\<open>dis_wq_consume_all\<close>); completion queues are posted to under their spin
  lock (\<open>dis_wq_post_sqe_cqe\<close>, \<open>dis_wq_post_rqe_cqe\<close>) and taken from with no lock (\<open>dis_poll_cq\<close>).
  Accesses are taken to be sequentially consistent, which the acquire and release accesses to the
  indices give to this protocol. Here the entries are abstract; \<open>Cq_Threads\<close> shows that the code of
  the completion queues steps as these threads do, \<open>Wq_Threads\<close> the same of the work queues.
\<close>

section \<open>Transition systems\<close>

text \<open>The contract of an invariant, and what it gives for every run.\<close>

locale invariant_system =
  fixes init :: "'s \<Rightarrow> bool"
    and step :: "'s \<Rightarrow> 's \<Rightarrow> bool"
    and inv :: "'s \<Rightarrow> bool"
  assumes inv_init: "init s \<Longrightarrow> inv s"
    and inv_step: "inv s \<Longrightarrow> step s s' \<Longrightarrow> inv s'"
begin

lemma inv_run: "step\<^sup>*\<^sup>* s s' \<Longrightarrow> inv s \<Longrightarrow> inv s'"
  by (induction rule: rtranclp_induct) (auto intro: inv_step)

lemma inv_reachable: "init s \<Longrightarrow> step\<^sup>*\<^sup>* s s' \<Longrightarrow> inv s'"
  using inv_run inv_init by blast

end

text \<open>
  The contract of a forward simulation: under the invariant of the abstract system every step of the
  concrete one is matched by abstract steps. Then every run is, and its end is related to an
  abstract state that satisfies the invariant.
\<close>

locale forward_simulation = invariant_system init step inv
  for init :: "'s \<Rightarrow> bool" and step :: "'s \<Rightarrow> 's \<Rightarrow> bool" and inv :: "'s \<Rightarrow> bool" +
  fixes cstep :: "'c \<Rightarrow> 'c \<Rightarrow> bool"
    and sim :: "'c \<Rightarrow> 's \<Rightarrow> bool"
  assumes sim_step: "sim c s \<Longrightarrow> inv s \<Longrightarrow> cstep c c' \<Longrightarrow> \<exists>s'. step\<^sup>*\<^sup>* s s' \<and> sim c' s'"
begin

lemma sim_run:
  assumes "cstep\<^sup>*\<^sup>* c c'" "sim c s" "inv s"
  shows "\<exists>s'. step\<^sup>*\<^sup>* s s' \<and> sim c' s' \<and> inv s'"
  using assms(1)
proof (induction rule: rtranclp_induct)
  case base
  then show ?case using assms(2,3) by blast
next
  case (step c1 c2)
  then obtain s1 where s1: "step\<^sup>*\<^sup>* s s1" "sim c1 s1" "inv s1" by blast
  with sim_step [OF s1(2,3) step.hyps(2)] obtain s2 where "step\<^sup>*\<^sup>* s1 s2" "sim c2 s2" by blast
  then show ?case using s1 inv_run by (meson rtranclp_trans)
qed

end

section \<open>Threads and their steps\<close>

text \<open>
  A poster: idle, called with an entry, past the lock (if there is one), about to write the slot at
  the index it read, about to advance the head past that index, about to return.
\<close>

datatype 'a poster = PIdle | PEnter 'a | PCheck 'a | PWrite 'a u64 | PPublish 'a u64 | PLeave

text \<open>A taker: idle, reading the slot at the index it read, about to advance the tail past it.\<close>

datatype 'a taker = TIdle | TRead u64 | TRelease 'a u64

text \<open>\<open>posted\<close> and \<open>taken\<close> record the entries published and delivered so far.\<close>

record 'a shared_ring =
  sr_circ :: circ_buf
  sr_slots :: "'a list"
  sr_lock :: "nat option"
  sr_post :: "nat \<Rightarrow> 'a poster"
  sr_take :: "nat \<Rightarrow> 'a taker"
  sr_posted :: "'a list"
  sr_taken :: "'a list"

definition set_post :: "nat \<Rightarrow> 'a poster \<Rightarrow> 'a shared_ring \<Rightarrow> 'a shared_ring" where
  "set_post i p s = s\<lparr>sr_post := (sr_post s)(i := p)\<rparr>"

definition set_take :: "nat \<Rightarrow> 'a taker \<Rightarrow> 'a shared_ring \<Rightarrow> 'a shared_ring" where
  "set_take j t s = s\<lparr>sr_take := (sr_take s)(j := t)\<rparr>"

abbreviation sr_hd :: "'a shared_ring \<Rightarrow> u64" where
  "sr_hd s \<equiv> int_to_ulong (circ_head (sr_circ s))"

abbreviation sr_tl :: "'a shared_ring \<Rightarrow> u64" where
  "sr_tl s \<equiv> int_to_ulong (circ_tail (sr_circ s))"

text \<open>
  The steps of poster \<open>i\<close> on a ring of \<open>sz\<close> slots, with the lock (\<open>lk\<close>: posting a completion) or without
  (posting a request). Past the check it fills the slot in as many writes as it likes (\<open>Scribble\<close>, the
  last one is \<open>Write\<close>) and may still give up, as a posting routine does that rejects its request.
\<close>

inductive post_step :: "bool \<Rightarrow> u32 \<Rightarrow> nat \<Rightarrow> 'a shared_ring \<Rightarrow> 'a shared_ring \<Rightarrow> bool"
  for lk :: bool and sz :: u32 and i :: nat where
  Call: "sr_post s i = PIdle \<Longrightarrow> post_step lk sz i s (set_post i (PEnter x) s)"
| Lock: "sr_post s i = PEnter x \<Longrightarrow> lk \<Longrightarrow> sr_lock s = None \<Longrightarrow>
    post_step lk sz i s (set_post i (PCheck x) (s\<lparr>sr_lock := Some i\<rparr>))"
| Unlocked: "sr_post s i = PEnter x \<Longrightarrow> \<not> lk \<Longrightarrow> post_step lk sz i s (set_post i (PCheck x) s)"
| Full: "sr_post s i = PCheck x \<Longrightarrow> CIRC_SPACE (sr_hd s) (sr_tl s) sz < 1 \<Longrightarrow>
    post_step lk sz i s (set_post i PLeave s)"
| Room: "sr_post s i = PCheck x \<Longrightarrow> \<not> CIRC_SPACE (sr_hd s) (sr_tl s) sz < 1 \<Longrightarrow>
    post_step lk sz i s (set_post i (PWrite x (sr_hd s)) s)"
| Scribble: "sr_post s i = PWrite x k \<Longrightarrow>
    post_step lk sz i s (set_post i (PWrite x k) (s\<lparr>sr_slots := (sr_slots s)[unat k := y]\<rparr>))"
| Give_Up: "sr_post s i = PWrite x k \<Longrightarrow> post_step lk sz i s (set_post i PLeave s)"
| Write: "sr_post s i = PWrite x k \<Longrightarrow>
    post_step lk sz i s (set_post i (PPublish x k) (s\<lparr>sr_slots := (sr_slots s)[unat k := x]\<rparr>))"
| Publish: "sr_post s i = PPublish x k \<Longrightarrow> post_step lk sz i s (set_post i PLeave
    (s\<lparr>sr_circ := (sr_circ s)\<lparr>circ_head := circ_next k sz\<rparr>, sr_posted := sr_posted s @ [x]\<rparr>))"
| Leave: "sr_post s i = PLeave \<Longrightarrow>
    post_step lk sz i s (set_post i PIdle (s\<lparr>sr_lock := (if lk then None else sr_lock s)\<rparr>))"

inductive take_step :: "u32 \<Rightarrow> nat \<Rightarrow> 'a shared_ring \<Rightarrow> 'a shared_ring \<Rightarrow> bool"
  for sz :: u32 and j :: nat where
  Look: "sr_take s j = TIdle \<Longrightarrow> \<not> CIRC_CNT (sr_hd s) (sr_tl s) sz < 1 \<Longrightarrow>
    take_step sz j s (set_take j (TRead (sr_tl s)) s)"
| Read: "sr_take s j = TRead k \<Longrightarrow> take_step sz j s (set_take j (TRelease (sr_slots s ! unat k) k) s)"
| Release: "sr_take s j = TRelease x k \<Longrightarrow> take_step sz j s (set_take j TIdle
    (s\<lparr>sr_circ := (sr_circ s)\<lparr>circ_tail := circ_next k sz\<rparr>, sr_taken := sr_taken s @ [x]\<rparr>))"

text \<open>The threads that post are those of \<open>ps\<close>, the threads that take those of \<open>ts\<close>.\<close>

inductive ring_step :: "bool \<Rightarrow> nat set \<Rightarrow> nat set \<Rightarrow> u32 \<Rightarrow> 'a shared_ring \<Rightarrow> 'a shared_ring \<Rightarrow> bool"
  for lk :: bool and ps :: "nat set" and ts :: "nat set" and sz :: u32 where
  Post: "i \<in> ps \<Longrightarrow> post_step lk sz i s s' \<Longrightarrow> ring_step lk ps ts sz s s'"
| Take: "j \<in> ts \<Longrightarrow> take_step sz j s s' \<Longrightarrow> ring_step lk ps ts sz s s'"

inductive_cases post_stepE: "post_step lk sz i s s'"
inductive_cases take_stepE: "take_step sz j s s'"
inductive_cases ring_stepE: "ring_step lk ps ts sz s s'"

section \<open>The invariant\<close>

definition sr_items :: "u32 \<Rightarrow> 'a shared_ring \<Rightarrow> 'a list" where
  "sr_items sz s = circ_list (sr_circ s) sz (sr_slots s)"

fun in_crit :: "'a poster \<Rightarrow> bool" where
  "in_crit PIdle = False"
| "in_crit (PEnter x) = False"
| "in_crit p = True"

text \<open>Posters exclude each other by the lock, or there is only one; and there is only one taker.\<close>

definition disciplined :: "bool \<Rightarrow> nat set \<Rightarrow> nat set \<Rightarrow> bool" where
  "disciplined lk ps ts \<longleftrightarrow> (lk \<or> (\<exists>i. ps \<subseteq> {i})) \<and> (\<exists>j. ts \<subseteq> {j})"

fun poster_ok :: "u32 \<Rightarrow> 'a shared_ring \<Rightarrow> 'a poster \<Rightarrow> bool" where
  "poster_ok sz s (PWrite x k) = (k = sr_hd s \<and> length (sr_items sz s) < unat sz - 1)"
| "poster_ok sz s (PPublish x k) =
     (k = sr_hd s \<and> length (sr_items sz s) < unat sz - 1 \<and> sr_slots s ! unat k = x)"
| "poster_ok sz s p = True"

fun taker_ok :: "u32 \<Rightarrow> 'a shared_ring \<Rightarrow> 'a taker \<Rightarrow> bool" where
  "taker_ok sz s TIdle = True"
| "taker_ok sz s (TRead k) = (k = sr_tl s \<and> sr_items sz s \<noteq> [])"
| "taker_ok sz s (TRelease x k) = (k = sr_tl s \<and> sr_items sz s \<noteq> [] \<and> x = hd (sr_items sz s))"

definition ring_inv :: "bool \<Rightarrow> nat set \<Rightarrow> nat set \<Rightarrow> u32 \<Rightarrow> 'a shared_ring \<Rightarrow> bool" where
  "ring_inv lk ps ts sz s \<longleftrightarrow> disciplined lk ps ts \<and> circ_ok (sr_circ s) sz (sr_slots s)
     \<and> sr_posted s = sr_taken s @ sr_items sz s
     \<and> (\<forall>i. i \<notin> ps \<longrightarrow> sr_post s i = PIdle) \<and> (\<forall>j. j \<notin> ts \<longrightarrow> sr_take s j = TIdle)
     \<and> (lk \<longrightarrow> (\<forall>i. in_crit (sr_post s i) \<longleftrightarrow> sr_lock s = Some i))
     \<and> (\<forall>i. poster_ok sz s (sr_post s i)) \<and> (\<forall>j. taker_ok sz s (sr_take s j))"

definition ring_init :: "bool \<Rightarrow> nat set \<Rightarrow> nat set \<Rightarrow> u32 \<Rightarrow> 'a shared_ring \<Rightarrow> bool" where
  "ring_init lk ps ts sz s \<longleftrightarrow> disciplined lk ps ts \<and> circ_ok (sr_circ s) sz (sr_slots s)
     \<and> sr_items sz s = [] \<and> sr_posted s = [] \<and> sr_taken s = [] \<and> sr_lock s = None
     \<and> sr_post s = (\<lambda>_. PIdle) \<and> sr_take s = (\<lambda>_. TIdle)"

lemma ring_init_inv: "ring_init lk ps ts sz s \<Longrightarrow> ring_inv lk ps ts sz s"
  by (auto simp: ring_init_def ring_inv_def)

lemma ring_invD:
  assumes "ring_inv lk ps ts sz s"
  shows "disciplined lk ps ts" "circ_ok (sr_circ s) sz (sr_slots s)" "sr_posted s = sr_taken s @ sr_items sz s"
    "i \<notin> ps \<Longrightarrow> sr_post s i = PIdle" "j \<notin> ts \<Longrightarrow> sr_take s j = TIdle"
    "lk \<Longrightarrow> in_crit (sr_post s i) \<longleftrightarrow> sr_lock s = Some i" "poster_ok sz s (sr_post s i)" "taker_ok sz s (sr_take s j)"
  using assms unfolding ring_inv_def by blast+

lemma ring_invI:
  assumes "disciplined lk ps ts" "circ_ok (sr_circ s) sz (sr_slots s)" "sr_posted s = sr_taken s @ sr_items sz s"
    "\<And>i. i \<notin> ps \<Longrightarrow> sr_post s i = PIdle" "\<And>j. j \<notin> ts \<Longrightarrow> sr_take s j = TIdle"
    "\<And>i. lk \<Longrightarrow> in_crit (sr_post s i) \<longleftrightarrow> sr_lock s = Some i" "\<And>i. poster_ok sz s (sr_post s i)"
    "\<And>j. taker_ok sz s (sr_take s j)"
  shows "ring_inv lk ps ts sz s"
  using assms unfolding ring_inv_def by blast

text \<open>Only one poster is past the lock.\<close>

lemma one_poster:
  assumes "ring_inv lk ps ts sz s" "in_crit (sr_post s i)" "in_crit (sr_post s k)" shows "i = k"
proof (cases lk)
  case True
  with assms show ?thesis using ring_invD(6) [OF assms(1)] by (metis option.inject)
next
  case False
  have "i \<in> ps" "k \<in> ps" using assms(2,3) ring_invD(4) [OF assms(1)] in_crit.simps(1) by metis+
  with False ring_invD(1) [OF assms(1)] show ?thesis by (auto simp: disciplined_def)
qed

lemma one_taker:
  assumes "ring_inv lk ps ts sz s" "sr_take s i \<noteq> TIdle" "sr_take s k \<noteq> TIdle" shows "i = k"
proof -
  have "i \<in> ts" "k \<in> ts" using assms(2,3) ring_invD(5) [OF assms(1)] by metis+
  with ring_invD(1) [OF assms(1)] show ?thesis by (auto simp: disciplined_def)
qed

lemma poster_ok_outside: "\<not> in_crit p \<Longrightarrow> poster_ok sz s p"
  by (cases p) simp_all

lemma ok_cong:
  assumes "sr_items sz s' = sr_items sz s" "sr_circ s' = sr_circ s"
  shows "sr_slots s' = sr_slots s \<Longrightarrow> poster_ok sz s' p = poster_ok sz s p" "taker_ok sz s' t = taker_ok sz s t"
proof -
  show "sr_slots s' = sr_slots s \<Longrightarrow> poster_ok sz s' p = poster_ok sz s p" using assms by (cases p) simp_all
  show "taker_ok sz s' t = taker_ok sz s t" using assms by (cases t) simp_all
qed

text \<open>
  To show that a step of poster \<open>i\<close> keeps the invariant it is enough to look at the ring, at that
  poster, and at the takers: the other posters are outside.
\<close>

lemma poster_step_inv:
  assumes inv: "ring_inv lk ps ts sz s" and i: "i \<in> ps" and crit: "in_crit (sr_post s i)"
    and s': "sr_post s' = (sr_post s)(i := p)" "sr_take s' = sr_take s"
    and ring: "circ_ok (sr_circ s') sz (sr_slots s')" "sr_posted s' = sr_taken s' @ sr_items sz s'"
    and lock: "sr_lock s' = sr_lock s" "in_crit p" and p: "poster_ok sz s' p"
    and t: "\<And>x. taker_ok sz s x \<Longrightarrow> taker_ok sz s' x"
  shows "ring_inv lk ps ts sz s'"
proof (rule ring_invI)
  note D = ring_invD [OF inv]
  show "disciplined lk ps ts" "circ_ok (sr_circ s') sz (sr_slots s')" "sr_posted s' = sr_taken s' @ sr_items sz s'"
    by (rule D ring)+
  show "sr_post s' k = PIdle" if "k \<notin> ps" for k using D(4) [OF that] i that by (auto simp: s')
  show "sr_take s' j = TIdle" if "j \<notin> ts" for j using D(5) [OF that] by (simp add: s')
  show "in_crit (sr_post s' k) \<longleftrightarrow> sr_lock s' = Some k" if lk for k
    using D(6) [OF that, of k] crit lock by (cases "k = i") (simp_all add: s')
  show "poster_ok sz s' (sr_post s' k)" for k
    using one_poster [OF inv _ crit, of k] p poster_ok_outside [of "sr_post s k"] by (cases "k = i") (auto simp: s')
  show "taker_ok sz s' (sr_take s' j)" for j using D(8) t by (simp add: s')
qed

text \<open>Steps that touch neither the ring nor the takers.\<close>

lemma local_step_inv:
  assumes inv: "ring_inv lk ps ts sz s" and i: "i \<in> ps"
    and lock: "lk \<Longrightarrow> \<forall>k. in_crit (((sr_post s)(i := p)) k) \<longleftrightarrow> l = Some k" and p: "poster_ok sz s p"
  shows "ring_inv lk ps ts sz (set_post i p (s\<lparr>sr_lock := l\<rparr>))"
proof -
  let ?s = "set_post i p (s\<lparr>sr_lock := l\<rparr>)"
  have same: "sr_items sz ?s = sr_items sz s"
    "sr_circ ?s = sr_circ s" "sr_slots ?s = sr_slots s" "sr_posted ?s = sr_posted s" "sr_taken ?s = sr_taken s"
    "sr_take ?s = sr_take s" "sr_post ?s = (sr_post s)(i := p)" "sr_lock ?s = l"
    by (simp_all add: set_post_def sr_items_def)
  note ok = ok_cong [OF same(1,2)]
  note D = ring_invD [OF inv]
  show ?thesis
  proof (rule ring_invI, unfold same ok(1) [OF same(3)] ok(2))
    show "disciplined lk ps ts" "circ_ok (sr_circ s) sz (sr_slots s)" "sr_posted s = sr_taken s @ sr_items sz s"
      by (rule D)+
    show "((sr_post s)(i := p)) k = PIdle" if "k \<notin> ps" for k using D(4) [OF that] i that by auto
    show "in_crit (((sr_post s)(i := p)) k) \<longleftrightarrow> l = Some k" if lk for k using lock [OF that] by blast
    show "poster_ok sz s (((sr_post s)(i := p)) k)" for k using D(7) p by simp
    show "taker_ok sz s (sr_take s j)" for j by (rule D)
  qed (rule D)
qed

lemma set_post_lock: "set_post i p s = set_post i p (s\<lparr>sr_lock := sr_lock s\<rparr>)"
  by simp

lemma write_step_inv:
  assumes inv: "ring_inv lk ps ts sz s" and i: "i \<in> ps" and w: "sr_post s i = PWrite x k"
    and p: "p = PWrite x k \<or> p = PPublish y k"
  shows "ring_inv lk ps ts sz (set_post i p (s\<lparr>sr_slots := (sr_slots s)[unat k := y]\<rparr>))"
    (is "ring_inv _ _ _ _ ?s")
proof -
  note D = ring_invD [OF inv] and b = circ_ok_bounds [OF ring_invD(2) [OF inv]]
  have k: "k = sr_hd s" "length (sr_items sz s) < unat sz - 1" "unat k < length (sr_slots s)"
    using D(7) [of i] b unfolding w by simp_all
  have same: "sr_items sz ?s = sr_items sz s" "sr_circ ?s = sr_circ s" "sr_slots ?s = (sr_slots s)[unat k := y]"
    "sr_posted ?s = sr_posted s" "sr_taken ?s = sr_taken s"
    "sr_take ?s = sr_take s" "sr_post ?s = (sr_post s)(i := p)" "sr_lock ?s = sr_lock s"
    using k b by (simp_all add: sr_items_def set_post_def circ_list_def ring_list_upd_free)
  show ?thesis
  proof (rule poster_step_inv [OF inv i _ same(7)])
    show "taker_ok sz ?s t" if "taker_ok sz s t" for t using that ok_cong(2) [OF same(1,2)] by blast
    have "poster_ok sz ?s (PWrite x k)" "poster_ok sz ?s (PPublish y k)"
      unfolding poster_ok.simps same using k by simp_all
    with p show "poster_ok sz ?s p" by blast
    show "circ_ok (sr_circ ?s) sz (sr_slots ?s)" using D(2) unfolding same by (simp add: circ_ok_def)
    show "sr_posted ?s = sr_taken ?s @ sr_items sz ?s" using D(3) unfolding same .
    show "in_crit p" using p by auto
  qed (simp_all add: w same(6,8))
qed

lemma publish_step_inv:
  assumes inv: "ring_inv lk ps ts sz s" and i: "i \<in> ps" and w: "sr_post s i = PPublish x k"
  shows "ring_inv lk ps ts sz (set_post i PLeave (s\<lparr>sr_circ := (sr_circ s)\<lparr>circ_head := circ_next k sz\<rparr>,
    sr_posted := sr_posted s @ [x]\<rparr>))" (is "ring_inv _ _ _ _ ?s")
proof -
  note D = ring_invD [OF inv] and b = circ_ok_bounds [OF ring_invD(2) [OF inv]]
  have k: "k = sr_hd s" "length (sr_items sz s) < unat sz - 1" "sr_slots s ! unat k = x"
    using D(7) [of i] unfolding w by auto
  have upd: "(sr_slots s)[unat (circ_head (sr_circ s)) := x] = sr_slots s"
    using k(1,3) b(2) by (metis list_update_id)
  note put = circ_put [OF D(2), of x, unfolded upd, folded sr_items_def, OF k(2)]
  have same: "sr_items sz ?s = sr_items sz s @ [x]" "circ_ok (sr_circ ?s) sz (sr_slots ?s)"
    "sr_posted ?s = sr_posted s @ [x]" "sr_taken ?s = sr_taken s" "sr_take ?s = sr_take s"
    "sr_post ?s = (sr_post s)(i := PLeave)" "sr_lock ?s = sr_lock s" "sr_tl ?s = sr_tl s"
    using put k(1) by (simp_all add: sr_items_def set_post_def)
  show ?thesis
  proof (rule poster_step_inv [OF inv i _ same(6,5,2)])
    show "taker_ok sz ?s t" if "taker_ok sz s t" for t using that by (cases t) (simp_all add: same(1,8))
    show "sr_posted ?s = sr_taken ?s @ sr_items sz ?s" using D(3) unfolding same by simp
  qed (simp_all add: w same(7))
qed

lemma post_step_inv:
  assumes inv: "ring_inv lk ps ts sz s" and i: "i \<in> ps" and step: "post_step lk sz i s s'"
  shows "ring_inv lk ps ts sz s'"
proof -
  from inv have ok: "circ_ok (sr_circ s) sz (sr_slots s)"
    and lock: "lk \<Longrightarrow> \<forall>k. in_crit (sr_post s k) \<longleftrightarrow> sr_lock s = Some k" by (simp_all add: ring_inv_def)
  then have locki: "lk \<Longrightarrow> in_crit (sr_post s i) \<longleftrightarrow> sr_lock s = Some i" by blast
  have simple: "poster_ok sz s (PEnter x)" "poster_ok sz s (PCheck x)" "poster_ok sz s PLeave" "poster_ok sz s PIdle"
    for x by simp_all
  from step show ?thesis
  proof cases
    case (Call x)
    with lock locki show ?thesis
      unfolding Call(1) by (subst set_post_lock, intro local_step_inv [OF inv i] simple) auto
  next
    case (Lock x)
    with lock locki show ?thesis
      unfolding Lock(1) by (intro local_step_inv [OF inv i] simple) auto
  next
    case (Unlocked x)
    then show ?thesis
      unfolding Unlocked(1) by (subst set_post_lock, intro local_step_inv [OF inv i] simple) auto
  next
    case (Full x)
    with lock locki show ?thesis
      unfolding Full(1) by (subst set_post_lock, intro local_step_inv [OF inv i] simple) auto
  next
    case (Room x)
    have "length (sr_items sz s) < unat sz - 1"
      using Room(3) circ_full_iff [OF ok] circ_list_bound [OF ok] by (auto simp: sr_items_def)
    then have "poster_ok sz s (PWrite x (sr_hd s))" by simp
    with Room lock locki show ?thesis
      unfolding Room(1) by (subst set_post_lock, intro local_step_inv [OF inv i]) auto
  next
    case (Scribble x k y)
    from write_step_inv [OF inv i Scribble(2)] show ?thesis unfolding Scribble(1) by blast
  next
    case (Give_Up x k)
    with lock locki show ?thesis
      unfolding Give_Up(1) by (subst set_post_lock, intro local_step_inv [OF inv i] simple) auto
  next
    case (Write x k)
    from write_step_inv [OF inv i Write(2)] show ?thesis unfolding Write(1) by blast
  next
    case (Publish x k)
    from publish_step_inv [OF inv i Publish(2)] show ?thesis unfolding Publish(1) .
  next
    case Leave
    with lock locki show ?thesis
      unfolding Leave(1) by (intro local_step_inv [OF inv i] simple) (auto split: if_splits)
  qed
qed

lemma taker_step_inv:
  assumes inv: "ring_inv lk ps ts sz s" and j: "j \<in> ts" and busy: "sr_take s j \<noteq> TIdle \<or> (\<forall>t. taker_ok sz s t \<longrightarrow> taker_ok sz s' t)"
    and s': "sr_take s' = (sr_take s)(j := t)" "sr_post s' = sr_post s" "sr_lock s' = sr_lock s"
    and ring: "circ_ok (sr_circ s') sz (sr_slots s')" "sr_posted s' = sr_taken s' @ sr_items sz s'"
    and t: "taker_ok sz s' t" and p: "\<And>p. poster_ok sz s p \<Longrightarrow> poster_ok sz s' p"
  shows "ring_inv lk ps ts sz s'"
proof (rule ring_invI)
  note D = ring_invD [OF inv]
  show "disciplined lk ps ts" "circ_ok (sr_circ s') sz (sr_slots s')" "sr_posted s' = sr_taken s' @ sr_items sz s'"
    by (rule D ring)+
  show "sr_post s' i = PIdle" if "i \<notin> ps" for i using D(4) [OF that] by (simp add: s')
  show "sr_take s' i = TIdle" if "i \<notin> ts" for i using D(5) [OF that] j that by (auto simp: s')
  show "in_crit (sr_post s' i) \<longleftrightarrow> sr_lock s' = Some i" if lk for i using D(6) [OF that] by (simp add: s')
  show "poster_ok sz s' (sr_post s' i)" for i using D(7) p by (simp add: s')
  show "taker_ok sz s' (sr_take s' i)" for i
  proof (cases "i = j")
    case True
    then show ?thesis using t by (simp add: s')
  next
    case False
    then have "sr_take s i = TIdle \<or> (\<forall>t. taker_ok sz s t \<longrightarrow> taker_ok sz s' t)"
      using busy one_taker [OF inv, of i j] by blast
    then show ?thesis using False D(8) [of i] by (auto simp: s')
  qed
qed

lemma set_take_simps [simp]:
  "sr_items sz (set_take j t s) = sr_items sz s" "sr_circ (set_take j t s) = sr_circ s"
  "sr_slots (set_take j t s) = sr_slots s" "sr_posted (set_take j t s) = sr_posted s"
  "sr_taken (set_take j t s) = sr_taken s" "sr_post (set_take j t s) = sr_post s" "sr_lock (set_take j t s) = sr_lock s"
  "sr_take (set_take j t s) = (sr_take s)(j := t)"
  by (simp_all add: set_take_def sr_items_def)

lemma take_step_inv:
  assumes inv: "ring_inv lk ps ts sz s" and j: "j \<in> ts" and step: "take_step sz j s s'"
  shows "ring_inv lk ps ts sz s'"
proof -
  note D = ring_invD [OF inv]
  have same: "poster_ok sz (set_take j t s) p = poster_ok sz s p" "taker_ok sz (set_take j t s) u = taker_ok sz s u" for t p u
    by (rule ok_cong; simp)+
  from step show ?thesis
  proof cases
    case Look
    then have "taker_ok sz s (TRead (sr_tl s))" using circ_empty_iff [OF D(2)] by (simp add: sr_items_def)
    then show ?thesis
      unfolding Look(1) using D(2,3) by (intro taker_step_inv [OF inv j, where t = "TRead (sr_tl s)"]) (simp_all add: same)
  next
    case (Read k)
    have k: "k = sr_tl s" "sr_items sz s \<noteq> []" using D(8) [of j] unfolding Read(2) by simp_all
    have "sr_slots s ! unat k = hd (sr_items sz s)"
      using circ_get(2) [OF D(2)] k circ_ok_bounds(3) [OF D(2)] by (simp add: sr_items_def)
    with k have "taker_ok sz s (TRelease (sr_slots s ! unat k) k)" by simp
    then show ?thesis
      unfolding Read(1) using D(2,3) by (intro taker_step_inv [OF inv j, where t = "TRelease (sr_slots s ! unat k) k"])
        (simp_all add: same Read(2) del: taker_ok.simps)
  next
    case (Release x k)
    have k: "k = sr_tl s" "sr_items sz s \<noteq> []" "x = hd (sr_items sz s)"
      using D(8) [of j] unfolding Release(2) by simp_all
    define r where "r = s\<lparr>sr_circ := (sr_circ s)\<lparr>circ_tail := circ_next k sz\<rparr>, sr_taken := sr_taken s @ [x]\<rparr>"
    have r: "sr_slots r = sr_slots s" "sr_hd r = sr_hd s" "sr_post r = sr_post s" "sr_lock r = sr_lock s"
      "sr_take r = sr_take s" "sr_posted r = sr_posted s" "sr_taken r = sr_taken s @ [x]"
      by (simp_all add: r_def)
    note get = circ_get [OF D(2), folded sr_items_def, OF k(2)]
    have ok: "circ_ok (sr_circ r) sz (sr_slots r)" using get(1) k(1) by (simp add: r_def)
    have items: "sr_items sz s = x # sr_items sz r"
      using get(2) k by (simp add: r_def sr_items_def)
    have "poster_ok sz (set_take j TIdle r) p" if "poster_ok sz s p" for p
      using that r(1,2) arg_cong [OF items, of length] by (cases p) auto
    moreover have "sr_posted r = sr_taken r @ sr_items sz r" using D(3) items r(6,7) by simp
    ultimately show ?thesis
      unfolding Release(1) r_def [symmetric]
      by (intro taker_step_inv [OF inv j, where t = TIdle]) (simp_all add: Release(2) r(3-5) ok)
  qed
qed

interpretation shared: invariant_system "ring_init lk ps ts sz" "ring_step lk ps ts sz" "ring_inv lk ps ts sz"
  for lk ps ts sz
  by unfold_locales (auto intro: ring_init_inv post_step_inv take_step_inv elim: ring_stepE)

text \<open>No slot is written while it is read.\<close>

lemma no_overlap:
  assumes inv: "ring_inv lk ps ts sz s"
    and "sr_post s i = PWrite x k \<or> sr_post s i = PPublish x k" "sr_take s j = TRead k' \<or> sr_take s j = TRelease y k'"
  shows "k \<noteq> k'"
proof -
  note D = ring_invD [OF inv]
  have k: "k = sr_hd s" "k' = sr_tl s" "sr_items sz s \<noteq> []"
    using D(7) [of i] D(8) [of j] assms(2,3) by auto
  have "unat (circ_head (sr_circ s)) \<noteq> unat (circ_tail (sr_circ s))"
    using k(3) circ_ok_bounds(4,5) [OF D(2)] by (auto simp: sr_items_def circ_list_def ring_list_empty)
  then show ?thesis unfolding k using circ_ok_bounds(2,3) [OF D(2)] by metis
qed

section \<open>Uninterrupted runs, and runs that repeat an entry\<close>

lemma set_post_simps [simp]:
  "sr_items sz (set_post i p s) = sr_items sz s" "sr_circ (set_post i p s) = sr_circ s"
  "sr_slots (set_post i p s) = sr_slots s" "sr_posted (set_post i p s) = sr_posted s"
  "sr_taken (set_post i p s) = sr_taken s" "sr_take (set_post i p s) = sr_take s" "sr_lock (set_post i p s) = sr_lock s"
  "sr_post (set_post i p s) = (sr_post s)(i := p)"
  by (simp_all add: set_post_def sr_items_def)

text \<open>What one thread does when nobody interrupts it, in two halves.\<close>

lemma set_post_set_post [simp]: "set_post i p (set_post i q s) = set_post i p s"
  by (simp add: set_post_def)

lemma set_take_set_take [simp]: "set_take i p (set_take i q s) = set_take i p s"
  by (simp add: set_take_def)

lemma post_first_half:
  assumes "sr_post s i = PIdle" "\<not> CIRC_SPACE (sr_hd s) (sr_tl s) sz < 1"
  shows "(post_step False sz i)\<^sup>*\<^sup>* s (set_post i (PWrite x (sr_hd s)) s)"
proof -
  have "(post_step False sz i)\<^sup>*\<^sup>* s (set_post i (PEnter x) s)" using assms(1) by (intro r_into_rtranclp Call)
  also have "post_step False sz i (set_post i (PEnter x) s) (set_post i (PCheck x) s)"
    using Unlocked [of "set_post i (PEnter x) s" i x False sz] by simp
  also have "post_step False sz i (set_post i (PCheck x) s) (set_post i (PWrite x (sr_hd s)) s)"
    using Room [of "set_post i (PCheck x) s" i x sz False] assms(2) by simp
  finally show ?thesis by simp
qed

definition after_post :: "u32 \<Rightarrow> 'a \<Rightarrow> u64 \<Rightarrow> 'a shared_ring \<Rightarrow> 'a shared_ring" where
  "after_post sz x k s = s\<lparr>sr_slots := (sr_slots s)[unat k := x],
     sr_circ := (sr_circ s)\<lparr>circ_head := circ_next k sz\<rparr>, sr_posted := sr_posted s @ [x]\<rparr>"

lemma post_second_half:
  assumes "sr_post s i = PWrite x k"
  shows "(post_step False sz i)\<^sup>*\<^sup>* s (set_post i PIdle (after_post sz x k s))"
proof -
  let ?w = "s\<lparr>sr_slots := (sr_slots s)[unat k := x]\<rparr>"
  have "(post_step False sz i)\<^sup>*\<^sup>* s (set_post i (PPublish x k) ?w)" using assms by (intro r_into_rtranclp Write)
  also have "post_step False sz i (set_post i (PPublish x k) ?w) (set_post i PLeave (after_post sz x k s))"
    using Publish [of "set_post i (PPublish x k) ?w" i x k False sz]
    by (simp add: after_post_def) (simp add: set_post_def)
  also have "post_step False sz i (set_post i PLeave (after_post sz x k s)) (set_post i PIdle (after_post sz x k s))"
    using Leave [of "set_post i PLeave (after_post sz x k s)" i False sz] by (simp add: set_post_def)
  finally show ?thesis by simp
qed

lemma runs_in_ring:
  "(post_step lk sz i)\<^sup>*\<^sup>* s s' \<Longrightarrow> i \<in> ps \<Longrightarrow> (ring_step lk ps ts sz)\<^sup>*\<^sup>* s s'"
  "(take_step sz j)\<^sup>*\<^sup>* s s' \<Longrightarrow> j \<in> ts \<Longrightarrow> (ring_step lk ps ts sz)\<^sup>*\<^sup>* s s'"
proof -
  show "(post_step lk sz i)\<^sup>*\<^sup>* s s' \<Longrightarrow> i \<in> ps \<Longrightarrow> (ring_step lk ps ts sz)\<^sup>*\<^sup>* s s'"
    by (induction rule: rtranclp_induct) (auto intro: ring_step.Post rtranclp.rtrancl_into_rtrancl)
  show "(take_step sz j)\<^sup>*\<^sup>* s s' \<Longrightarrow> j \<in> ts \<Longrightarrow> (ring_step lk ps ts sz)\<^sup>*\<^sup>* s s'"
    by (induction rule: rtranclp_induct) (auto intro: ring_step.Take rtranclp.rtrancl_into_rtrancl)
qed

lemma after_post_simps [simp]:
  "sr_post (after_post sz x k s) = sr_post s" "sr_take (after_post sz x k s) = sr_take s"
  "sr_posted (after_post sz x k s) = sr_posted s @ [x]" "sr_taken (after_post sz x k s) = sr_taken s"
  "after_post sz x k (set_post i p s) = set_post i p (after_post sz x k s)"
  by (simp_all add: after_post_def set_post_def)

text \<open>Two takers, interleaved so that both read the same tail.\<close>

definition after_take :: "u32 \<Rightarrow> 'a \<Rightarrow> u64 \<Rightarrow> 'a shared_ring \<Rightarrow> 'a shared_ring" where
  "after_take sz x k s = s\<lparr>sr_circ := (sr_circ s)\<lparr>circ_tail := circ_next k sz\<rparr>, sr_taken := sr_taken s @ [x]\<rparr>"

lemma take_first_half:
  assumes "sr_take s j = TIdle" "\<not> CIRC_CNT (sr_hd s) (sr_tl s) sz < 1"
  shows "(take_step sz j)\<^sup>*\<^sup>* s (set_take j (TRelease (sr_slots s ! unat (sr_tl s)) (sr_tl s)) s)"
proof -
  have "(take_step sz j)\<^sup>*\<^sup>* s (set_take j (TRead (sr_tl s)) s)" using assms by (intro r_into_rtranclp Look)
  also have "take_step sz j (set_take j (TRead (sr_tl s)) s)
      (set_take j (TRelease (sr_slots s ! unat (sr_tl s)) (sr_tl s)) s)"
    using Read [of "set_take j (TRead (sr_tl s)) s" j "sr_tl s" sz] by simp
  finally show ?thesis by simp
qed

lemma take_second_half:
  assumes "sr_take s j = TRelease x k"
  shows "(take_step sz j)\<^sup>*\<^sup>* s (set_take j TIdle (after_take sz x k s))"
  using Release [OF assms, of sz] by (simp add: after_take_def r_into_rtranclp)

lemma after_take_simps [simp]:
  "sr_take (after_take sz x k s) = sr_take s" "sr_posted (after_take sz x k s) = sr_posted s"
  "sr_taken (after_take sz x k s) = sr_taken s @ [x]"
  "after_take sz x k (set_take j t s) = set_take j t (after_take sz x k s)"
  by (simp_all add: after_take_def set_take_def)

lemma double_delivery:
  assumes ok: "circ_ok (sr_circ s) sz (sr_slots s)" and items: "sr_items sz s = x # xs"
    and idle: "sr_take s i = TIdle" "sr_take s j = TIdle" "i \<noteq> j" and ts: "i \<in> ts" "j \<in> ts"
  shows "\<exists>s'. (ring_step lk ps ts sz)\<^sup>*\<^sup>* s s' \<and> sr_take s' = sr_take s
    \<and> sr_posted s' = sr_posted s \<and> sr_taken s' = sr_taken s @ [x, x] \<and> sr_items sz s' = xs"
proof -
  let ?k = "sr_tl s" and ?run = "(ring_step lk ps ts sz)\<^sup>*\<^sup>*"
  have cnt: "\<not> CIRC_CNT (sr_hd s) ?k sz < 1"
    using items circ_empty_iff [OF ok] by (simp add: sr_items_def)
  have get: "sr_slots s ! unat ?k = x" "sr_items sz (after_take sz x ?k s) = xs"
    using circ_get(2) [OF ok] items circ_ok_bounds(3) [OF ok] by (simp_all add: sr_items_def after_take_def)
  let ?s1 = "set_take i (TRelease x ?k) s"
  let ?s2 = "set_take j (TRelease x ?k) ?s1"
  let ?s3 = "set_take i TIdle (after_take sz x ?k ?s2)"
  let ?s4 = "set_take j TIdle (after_take sz x ?k ?s3)"
  have "?run s ?s1"
    using runs_in_ring(2) [OF take_first_half [OF idle(1) cnt] ts(1)] by (simp only: get(1))
  also have "?run ?s1 ?s2"
    using runs_in_ring(2) [OF take_first_half [of ?s1 j sz] ts(2), of lk ps] idle cnt get(1) by simp
  also have "?run ?s2 ?s3"
    using runs_in_ring(2) [OF take_second_half [of ?s2 i x ?k sz] ts(1), of lk ps] idle by simp
  also have "?run ?s3 ?s4"
    using runs_in_ring(2) [OF take_second_half [of ?s3 j x ?k sz] ts(2), of lk ps] idle by simp
  finally have "?run s ?s4" .
  moreover have "sr_take ?s4 = sr_take s" using idle by auto
  moreover have "sr_items sz ?s4 = xs"
    using get(2) by (simp add: after_take_def) (simp add: sr_items_def)
  ultimately show ?thesis by (intro exI [of _ ?s4]) simp
qed

section \<open>Examples\<close>

definition ex_ring :: "nat \<Rightarrow> nat list \<Rightarrow> nat shared_ring" where
  "ex_ring n slots = \<lparr>sr_circ = zero_circ\<lparr>circ_head := of_nat n\<rparr>, sr_slots = slots, sr_lock = None,
     sr_post = \<lambda>_. PIdle, sr_take = \<lambda>_. TIdle, sr_posted = take n slots, sr_taken = []\<rparr>"

lemma ring_size_4: "ring_size 4"
  by (simp add: ring_size_def exI [of _ 2])

lemma ex_ring_ok: "circ_ok (sr_circ (ex_ring 0 [0, 0, 0, 0])) 4 (sr_slots (ex_ring 0 [0, 0, 0, 0]))"
  "sr_items 4 (ex_ring 0 [0, 0, 0, 0]) = []"
  "circ_ok (sr_circ (ex_ring 1 [7, 0, 0, 0])) 4 (sr_slots (ex_ring 1 [7, 0, 0, 0]))"
  "sr_items 4 (ex_ring 1 [7, 0, 0, 0]) = [7]"
  by (simp_all add: ex_ring_def circ_ok_def zero_circ_def sr_items_def circ_list_def ring_list_def ring_cnt_def ring_size_4)

section \<open>Properties\<close>

text \<open>
  C6. Shared queues are safe where the driver keeps its discipline. Let any number of threads post under
  the lock (completion queues), or one thread without it (work queues), while one thread takes, in
  any interleaving of their accesses. Then at every moment what was published is what was delivered
  followed by what is queued, so every entry is delivered once, unchanged and in order; the queue
  never holds more than its capacity; and no slot is written while it is read.
\<close>

theorem shared_ring_safe:
  assumes "ring_init lk ps ts sz s" "(ring_step lk ps ts sz)\<^sup>*\<^sup>* s s'"
  shows "sr_posted s' = sr_taken s' @ sr_items sz s' \<and> length (sr_items sz s') \<le> unat sz - 1
    \<and> (\<forall>i j x y k k'. (sr_post s' i = PWrite x k \<or> sr_post s' i = PPublish x k)
        \<and> (sr_take s' j = TRead k' \<or> sr_take s' j = TRelease y k') \<longrightarrow> k \<noteq> k')"
proof -
  note inv = shared.inv_reachable [OF assms]
  note D = ring_invD [OF inv]
  from D(3) circ_list_bound [OF D(2)] no_overlap [OF inv] show ?thesis by (simp add: sr_items_def) blast
qed

theorem shared_ring_safe_witness:
  "\<exists>s'. (ring_step False {0} {1} 4)\<^sup>*\<^sup>* (ex_ring 0 [0, 0, 0, 0]) s' \<and> sr_posted s' = [5]
    \<and> sr_posted s' = sr_taken s' @ sr_items 4 s'"
proof -
  let ?s = "ex_ring 0 [0, 0, 0, 0]"
  have i: "ring_init False {0} {1} 4 ?s"
    using ex_ring_ok by (simp add: ring_init_def disciplined_def) (simp add: ex_ring_def)
  have "sr_post ?s 0 = PIdle" "\<not> CIRC_SPACE (sr_hd ?s) (sr_tl ?s) 4 < 1"
    by (simp_all add: ex_ring_def zero_circ_def CIRC_SPACE_def CIRC_CNT_def int_to_ulong_def)
  then have 1: "(ring_step False {0} {1} 4)\<^sup>*\<^sup>* ?s (set_post 0 (PWrite 5 (sr_hd ?s)) ?s)"
    by (intro runs_in_ring(1) [OF post_first_half]) simp_all
  let ?t = "set_post 0 PIdle (after_post 4 5 (sr_hd ?s) (set_post 0 (PWrite 5 (sr_hd ?s)) ?s))"
  have 2: "(ring_step False {0} {1} 4)\<^sup>*\<^sup>* (set_post 0 (PWrite 5 (sr_hd ?s)) ?s) ?t"
    by (rule runs_in_ring(1) [OF post_second_half]) simp_all
  have "(ring_step False {0} {1} 4)\<^sup>*\<^sup>* ?s ?t" using rtranclp_trans [OF 1 2] .
  moreover have "sr_posted ?t = [5]" by (simp add: ex_ring_def)
  ultimately show ?thesis using shared_ring_safe [OF i] by blast
qed

text \<open>
  Two threads that poll one completion queue get the same completion. \<open>dis_poll_cq\<close> takes no lock, so
  two polls can read the same tail; then both deliver the entry that is there, one delivery too many.
\<close>

lemma unlocked_pollers_repeat:
  assumes "circ_ok (sr_circ s) sz (sr_slots s)" "sr_items sz s = x # xs"
    "sr_take s i = TIdle" "sr_take s j = TIdle" "i \<noteq> j"
  shows "\<exists>s'. (ring_step lk ps {i, j} sz)\<^sup>*\<^sup>* s s' \<and> sr_take s' = sr_take s
    \<and> sr_posted s' = sr_posted s \<and> sr_taken s' = sr_taken s @ [x, x] \<and> sr_items sz s' = xs"
  using double_delivery [OF assms, of "{i, j}" lk ps] by simp

end
