(* ===== verification/Cq_Threads.thy ===== *)
theory Cq_Threads
  imports Ring_Concurrency Completion_Queue
begin

text \<open>
  A completion queue under its threads. Any number of workers post completions
  (\<open>dis_wq_post_sqe_cqe\<close>, \<open>dis_wq_post_rqe_cqe\<close>) while one caller polls (\<open>dis_poll_cq\<close>); here each routine
  is a program whose steps are its accesses to shared memory: the lock, the two indices, and every
  single field of an entry. A thread can be interrupted between any two of them, and what is local
  to a thread is in its program point. Run alone, the programs are the operations of
  \<open>Completion_Queue\<close>; interleaved, each of their steps is a step of the shared ring of
  \<open>Ring_Concurrency\<close>, whose invariant then gives the properties of the queue in the store.
\<close>

section \<open>The posting routine, access by access\<close>

text \<open>
  Called; about to take the lock; about to read the head; about to read the tail, with the head
  read; about to write field \<open>n\<close> of the slot \<open>head\<close> of the array \<open>mem\<close>; about to release the new head;
  about to release the lock; returned.
\<close>

datatype post_pc =
    CStart wq_ref dis_wqe u32
  | CLock ptr dis_wqe u32
  | CHead ptr dis_wqe u32
  | CTail ptr dis_wqe u32 u64
  | CField nat ptr ptr dis_wqe u32 u64
  | CPublish ptr dis_wqe u32 u64
  | CUnlock ptr int
  | CDone int

text \<open>The five assignments to the fields of the entry, in their order.\<close>

definition put_field :: "dis_wqe \<Rightarrow> u32 \<Rightarrow> nat \<Rightarrow> dis_cqe \<Rightarrow> dis_cqe" where
  "put_field wqe st n cqe =
     (if n = 0 then cqe\<lparr>cqe_wr_id := wqe_wr_id wqe\<rparr>
      else if n = 1 then cqe\<lparr>cqe_opcode := wqe_opcode wqe\<rparr>
      else if n = 2 then cqe\<lparr>cqe_byte_len := ucast (wqe_byte_len wqe)\<rparr>
      else if n = 3 then cqe\<lparr>cqe_ibqp := wqe_ibqp wqe\<rparr>
      else cqe\<lparr>cqe_status := ucast st\<rparr>)"

text \<open>One step: \<open>None\<close> if there is none (returned, or the lock is held), else a fault or what comes next.\<close>

fun post_exec :: "post_pc \<Rightarrow> heap \<Rightarrow> (post_pc \<times> heap) kres option" where
  "post_exec (CStart wq wqe st) h = Some (rbind (get_wq h wq) (\<lambda>w. Inr (CLock (wq_cq w) wqe st, h)))"
| "post_exec (CLock cqp wqe st) h = (case deref (h_cq h) cqp of Inl f \<Rightarrow> Some (Inl f)
     | Inr cq \<Rightarrow> if cq_cqe_lock cq then None
       else Some (Inr (CHead cqp wqe st, h\<lparr>h_cq := (h_cq h)(cqp \<mapsto> cq\<lparr>cq_cqe_lock := True\<rparr>)\<rparr>)))"
| "post_exec (CHead cqp wqe st) h = Some (rbind (deref (h_cq h) cqp) (\<lambda>cq.
     Inr (CTail cqp wqe st (int_to_ulong (circ_head (cq_cqe_circ cq))), h)))"
| "post_exec (CTail cqp wqe st head) h = Some (rbind (deref (h_cq h) cqp) (\<lambda>cq.
     if CIRC_SPACE head (int_to_ulong (circ_tail (cq_cqe_circ cq))) (cq_cqe_max cq) < 1
     then Inr (CUnlock cqp (-42), h)
     else Inr (CField 0 cqp (circ_buf_mem (cq_cqe_circ cq)) wqe st head, h)))"
| "post_exec (CField n cqp mem wqe st head) h = Some (rbind (deref (h_cqe h) mem) (\<lambda>slots.
     rbind (array_get slots (unat head)) (\<lambda>cqe.
     rbind (array_put slots (unat head) (put_field wqe st n cqe)) (\<lambda>slots'.
     Inr (if n = 4 then CPublish cqp wqe st head else CField (Suc n) cqp mem wqe st head,
       h\<lparr>h_cqe := (h_cqe h)(mem \<mapsto> slots')\<rparr>)))))"
| "post_exec (CPublish cqp wqe st head) h = Some (rbind (deref (h_cq h) cqp) (\<lambda>cq.
     Inr (CUnlock cqp 0, h\<lparr>h_cq := (h_cq h)(cqp \<mapsto> cq\<lparr>cq_cqe_circ := (cq_cqe_circ cq)\<lparr>circ_head :=
       circ_next head (cq_cqe_max cq)\<rparr>\<rparr>)\<rparr>)))"
| "post_exec (CUnlock cqp ret) h = Some (rbind (cq_unlock h cqp) (\<lambda>h'. Inr (CDone ret, h')))"
| "post_exec (CDone ret) h = None"

text \<open>A poster that runs alone: it spins for ever on a lock that is held.\<close>

fun post_run :: "nat \<Rightarrow> post_pc \<Rightarrow> heap \<Rightarrow> (int \<times> heap) kres option" where
  "post_run n (CDone ret) h = Some (Inr (ret, h))"
| "post_run 0 pc h = None"
| "post_run (Suc n) pc h = (case post_exec pc h of None \<Rightarrow> Some (Inl Deadlock)
     | Some (Inl f) \<Rightarrow> Some (Inl f) | Some (Inr (pc', h')) \<Rightarrow> post_run n pc' h')"

section \<open>The polling routine, access by access\<close>

text \<open>
  At the loop test with \<open>i\<close> rounds left, the caller's array and \<open>wc_count\<close>; about to read the tail,
  with the head read; about to copy field \<open>n\<close> of the slot \<open>tail\<close> of the array \<open>mem\<close>; about to release
  the new tail; returned.
\<close>

datatype poll_pc =
    QLoop ptr nat "ib_wc list" nat
  | QTail ptr nat "ib_wc list" nat u64
  | QField nat ptr ptr nat "ib_wc list" nat u64
  | QRelease ptr nat "ib_wc list" nat u64
  | QDone nat "ib_wc list"

definition get_field :: "dis_cqe \<Rightarrow> nat \<Rightarrow> ib_wc \<Rightarrow> ib_wc" where
  "get_field cqe n wc =
     (if n = 0 then wc\<lparr>wc_wr_id := ucast (cqe_wr_id cqe)\<rparr>
      else if n = 1 then wc\<lparr>wc_status := ucast (cqe_status cqe)\<rparr>
      else if n = 2 then wc\<lparr>wc_opcode := ucast (cqe_opcode cqe)\<rparr>
      else if n = 3 then wc\<lparr>wc_byte_len := ucast (cqe_byte_len cqe)\<rparr>
      else wc\<lparr>wc_qp := cqe_ibqp cqe\<rparr>)"

fun poll_exec :: "poll_pc \<Rightarrow> heap \<Rightarrow> (poll_pc \<times> heap) kres option" where
  "poll_exec (QLoop cqp i ws cnt) h = Some (if i = 0 then Inr (QDone cnt ws, h)
     else rbind (deref (h_cq h) cqp) (\<lambda>cq.
       Inr (QTail cqp i ws cnt (int_to_ulong (circ_head (cq_cqe_circ cq))), h)))"
| "poll_exec (QTail cqp i ws cnt head) h = Some (rbind (deref (h_cq h) cqp) (\<lambda>cq.
     let tail = int_to_ulong (circ_tail (cq_cqe_circ cq)) in
     if CIRC_CNT head tail (cq_cqe_max cq) < 1 then Inr (QDone cnt ws, h)
     else Inr (QField 0 cqp (circ_buf_mem (cq_cqe_circ cq)) i ws cnt tail, h)))"
| "poll_exec (QField n cqp mem i ws cnt tail) h = Some (rbind (deref (h_cqe h) mem) (\<lambda>slots.
     rbind (array_get slots (unat tail)) (\<lambda>cqe.
     rbind (array_get ws cnt) (\<lambda>wc.
     rbind (array_put ws cnt (get_field cqe n wc)) (\<lambda>ws'.
     Inr (if n = 4 then QRelease cqp i ws' cnt tail else QField (Suc n) cqp mem i ws' cnt tail, h))))))"
| "poll_exec (QRelease cqp i ws cnt tail) h = Some (rbind (deref (h_cq h) cqp) (\<lambda>cq.
     Inr (QLoop cqp (i - 1) ws (Suc cnt), h\<lparr>h_cq := (h_cq h)(cqp \<mapsto> cq\<lparr>cq_cqe_circ := (cq_cqe_circ cq)
       \<lparr>circ_tail := circ_next tail (cq_cqe_max cq)\<rparr>\<rparr>)\<rparr>)))"
| "poll_exec (QDone cnt ws) h = None"

fun poll_run :: "nat \<Rightarrow> poll_pc \<Rightarrow> heap \<Rightarrow> (nat \<times> ib_wc list \<times> heap) kres option" where
  "poll_run n (QDone cnt ws) h = Some (Inr (cnt, ws, h))"
| "poll_run 0 pc h = None"
| "poll_run (Suc n) pc h = (case poll_exec pc h of None \<Rightarrow> None
     | Some (Inl f) \<Rightarrow> Some (Inl f) | Some (Inr (pc', h')) \<Rightarrow> poll_run n pc' h')"

section \<open>Alone, the programs are the operations\<close>

lemma put_fields_all: "fold (put_field wqe st) [0..<5] cqe = cqe_of wqe st"
  by (simp add: put_field_def cqe_of_def upt_rec)

lemma get_fields_all: "fold (get_field cqe) [0..<5] wc = set_wc wc cqe"
  by (simp add: get_field_def set_wc_def upt_rec)

lemma fields_step:
  fixes n :: nat assumes "n < 5"
  shows "fold f [n..<5] x = fold f [Suc n..<5] (f n x)"
  using assms by (simp add: upt_conv_Cons)

text \<open>The field writes of a poster that nobody interrupts.\<close>

lemma post_run_fields:
  assumes "n < 5" "mem \<noteq> 0" "h_cqe h mem = Some slots" "unat head < length slots"
  shows "post_run (5 - n + k) (CField n cqp mem wqe st head) h = post_run k (CPublish cqp wqe st head)
    (h\<lparr>h_cqe := (h_cqe h)(mem \<mapsto> slots[unat head := fold (put_field wqe st) [n..<5] (slots ! unat head)])\<rparr>)"
  using assms
proof (induction "4 - n" arbitrary: n h slots)
  case 0
  then have "n = 4" by simp
  with 0 show ?case by (simp add: kres_simps upt_rec fun_upd_def)
next
  case (Suc m)
  then have n: "Suc n < 5" "n < 5" "n \<noteq> 4" "5 - n + k = Suc (5 - Suc n + k)" by simp_all
  let ?h = "h\<lparr>h_cqe := (h_cqe h)(mem \<mapsto> slots[unat head := put_field wqe st n (slots ! unat head)])\<rparr>"
  have "post_run (5 - n + k) (CField n cqp mem wqe st head) h
      = post_run (5 - Suc n + k) (CField (Suc n) cqp mem wqe st head) ?h"
    unfolding n(4) using Suc.prems n(3) by (simp add: kres_simps)
  also have "\<dots> = post_run k (CPublish cqp wqe st head) (?h\<lparr>h_cqe := (h_cqe ?h)(mem \<mapsto>
      (slots[unat head := put_field wqe st n (slots ! unat head)])[unat head := fold (put_field wqe st) [Suc n..<5]
        (slots[unat head := put_field wqe st n (slots ! unat head)] ! unat head)])\<rparr>)"
    using Suc.prems Suc.hyps(2) n(1) by (intro Suc.hyps(1)) simp_all
  finally show ?case using Suc.prems(4) by (simp add: fields_step [OF n(2)])
qed

lemma poll_run_fields:
  assumes "n < 5" "mem \<noteq> 0" "h_cqe h mem = Some slots" "unat tail < length slots" "cnt < length ws"
  shows "poll_run (5 - n + k) (QField n cqp mem i ws cnt tail) h = poll_run k
    (QRelease cqp i (ws[cnt := fold (get_field (slots ! unat tail)) [n..<5] (ws ! cnt)]) cnt tail) h"
  using assms
proof (induction "4 - n" arbitrary: n ws)
  case 0
  then have "n = 4" by simp
  with 0 show ?case by (simp add: kres_simps upt_rec)
next
  case (Suc m)
  then have n: "Suc n < 5" "n < 5" "n \<noteq> 4" "5 - n + k = Suc (5 - Suc n + k)" by simp_all
  let ?w = "ws[cnt := get_field (slots ! unat tail) n (ws ! cnt)]"
  have "poll_run (5 - n + k) (QField n cqp mem i ws cnt tail) h
      = poll_run (5 - Suc n + k) (QField (Suc n) cqp mem i ?w cnt tail) h"
    unfolding n(4) using Suc.prems n(3) by (simp add: kres_simps)
  also have "\<dots> = poll_run k (QRelease cqp i
      (?w[cnt := fold (get_field (slots ! unat tail)) [Suc n..<5] (?w ! cnt)]) cnt tail) h"
    using Suc.prems Suc.hyps(2) n(1) by (intro Suc.hyps(1)) simp_all
  finally show ?case using Suc.prems(5) by (simp add: fields_step [OF n(2)])
qed

lemma post_alone_fuel:
  assumes m: "m = 5 - 0 + Suc (Suc 0)"
  shows "post_run (Suc (Suc (Suc (Suc m)))) (CStart wq wqe st) h = Some (dis_wq_post_sqe_cqe h wq wqe st)"
proof (cases "get_wq h wq")
  case (Inl f)
  then show ?thesis by (simp add: dis_wq_post_sqe_cqe_def)
next
  case w: (Inr w)
  let ?p = "wq_cq w"
  show ?thesis
  proof (cases "deref (h_cq h) ?p")
    case (Inl f)
    with w show ?thesis by (simp add: dis_wq_post_sqe_cqe_def cq_lock_def)
  next
    case (Inr cq)
    obtain m' where ms: "m = Suc m'" using m by simp
    from Inr have cq: "?p \<noteq> 0" "h_cq h ?p = Some cq" by (simp_all add: deref_eq_Inr)
    let ?l = "cq\<lparr>cq_cqe_lock := True\<rparr>" and ?c = "cq_cqe_circ cq"
    let ?h = "h\<lparr>h_cq := (h_cq h)(?p \<mapsto> ?l)\<rparr>" and ?k = "int_to_ulong (circ_head ?c)"
    show ?thesis
    proof (cases "cq_cqe_lock cq \<or> CIRC_SPACE ?k (int_to_ulong (circ_tail ?c)) (cq_cqe_max cq) < 1")
      case True
      with w cq show ?thesis
        by (cases "cq_cqe_lock cq") (simp_all add: ms dis_wq_post_sqe_cqe_def cq_lock_def cq_unlock_def kres_simps)
    next
      case False
      then have start: "post_run (Suc (Suc (Suc (Suc m)))) (CStart wq wqe st) h = post_run m (CField 0 ?p (circ_buf_mem ?c) wqe st ?k) ?h"
        using w cq by (simp add: kres_simps)
      show ?thesis
      proof (cases "deref (h_cqe h) (circ_buf_mem ?c)")
        case (Inl f)
        with False w cq show ?thesis
          unfolding start by (simp add: ms dis_wq_post_sqe_cqe_def cq_lock_def kres_simps)
      next
        case (Inr slots)
        then have mem: "circ_buf_mem ?c \<noteq> 0" "h_cqe ?h (circ_buf_mem ?c) = Some slots" by (simp_all add: deref_eq_Inr)
        show ?thesis
        proof (cases "unat ?k < length slots")
          case True
          note fields = post_run_fields [OF _ mem True, of 0 "Suc (Suc 0)" ?p wqe st, folded m, unfolded put_fields_all]
          have "cqe_of wqe st = (slots ! unat ?k)\<lparr>cqe_wr_id := wqe_wr_id wqe, cqe_opcode := wqe_opcode wqe,
             cqe_byte_len := ucast (wqe_byte_len wqe), cqe_ibqp := wqe_ibqp wqe, cqe_status := ucast st\<rparr>"
            by (simp add: cqe_of_def)
          then show ?thesis
            unfolding start using fields False w cq mem True
            by (simp add: dis_wq_post_sqe_cqe_def cq_lock_def cq_unlock_def kres_simps Let_def)
        next
          case out: False
          with False w cq Inr show ?thesis
            unfolding start by (simp add: ms dis_wq_post_sqe_cqe_def cq_lock_def kres_simps)
        qed
      qed
    qed
  qed
qed

lemma post_alone: "post_run 11 (CStart wq wqe st) h = Some (dis_wq_post_sqe_cqe h wq wqe st)"
  using post_alone_fuel [of 7 wq wqe st h] by (simp del: post_run.simps)

lemma poll_alone: "poll_run (8 * i + 1) (QLoop cqp i ws cnt) h = Some (poll_loop i h cqp ws cnt)"
proof (induction i arbitrary: h ws cnt)
  case 0
  then show ?case by simp
next
  case (Suc i)
  obtain m m' where ms: "m = Suc m'" and m: "m = 5 - 0 + Suc (8 * i + 1)" and fuel: "8 * Suc i + 1 = Suc (Suc m)" by simp
  show ?case
  proof (cases "deref (h_cq h) cqp")
    case (Inl f)
    then show ?thesis unfolding fuel by simp
  next
    case (Inr cq)
    let ?c = "cq_cqe_circ cq"
    let ?t = "int_to_ulong (circ_tail ?c)"
    show ?thesis
    proof (cases "CIRC_CNT (int_to_ulong (circ_head ?c)) ?t (cq_cqe_max cq) < 1")
      case True
      with Inr show ?thesis unfolding fuel by (simp add: Let_def)
    next
      case False
      then have start: "poll_run (8 * Suc i + 1) (QLoop cqp (Suc i) ws cnt) h
          = poll_run m (QField 0 cqp (circ_buf_mem ?c) (Suc i) ws cnt ?t) h"
        unfolding fuel using Inr by (simp add: Let_def)
      show ?thesis
      proof (cases "deref (h_cqe h) (circ_buf_mem ?c)")
        case (Inl f)
        with False Inr show ?thesis unfolding start by (simp add: ms Let_def)
      next
        case slots: (Inr slots)
        then have mem: "circ_buf_mem ?c \<noteq> 0" "h_cqe h (circ_buf_mem ?c) = Some slots" by (simp_all add: deref_eq_Inr)
        show ?thesis
        proof (cases "unat ?t < length slots \<and> cnt < length ws")
          case True
          then have "unat ?t < length slots" "cnt < length ws" by simp_all
          note fields = poll_run_fields [OF _ mem this, of 0 "Suc (8 * i + 1)" cqp "Suc i", folded m, unfolded get_fields_all]
          from True False Inr slots show ?thesis
            unfolding start fields [OF zero_less_numeral] by (simp add: Let_def kres_simps Suc.IH [simplified])
        next
          case out: False
          with False Inr slots show ?thesis
            unfolding start by (auto simp: ms Let_def array_get_def)
        qed
      qed
    qed
  qed
qed

section \<open>The threads together\<close>

text \<open>
  The store, the program point of every poster and of the poller, and what was published and
  delivered so far: an entry counts as published when its poster releases the new head, and as
  delivered when the poller releases the new tail.
\<close>

record cq_threads =
  ct_heap :: heap
  ct_post :: "nat \<Rightarrow> post_pc"
  ct_poll :: poll_pc
  ct_posted :: "dis_cqe list"
  ct_taken :: "ib_wc list"

fun published :: "post_pc \<Rightarrow> dis_cqe list" where
  "published (CPublish cqp wqe st head) = [cqe_of wqe st]"
| "published pc = []"

fun delivered :: "poll_pc \<Rightarrow> ib_wc list" where
  "delivered (QRelease cqp i ws cnt tail) = [ws ! cnt]"
| "delivered pc = []"

text \<open>
  What the rest of the driver may do meanwhile: anything but touch the queue, its entries, or the
  pointer to it in the work queues that report to it.
\<close>

definition elsewhere :: "ptr \<Rightarrow> heap \<Rightarrow> heap \<Rightarrow> bool" where
  "elsewhere p h h' \<longleftrightarrow> h_cq h' p = h_cq h p
     \<and> (\<forall>cq. h_cq h p = Some cq \<longrightarrow> h_cqe h' (circ_buf_mem (cq_cqe_circ cq)) = h_cqe h (circ_buf_mem (cq_cqe_circ cq)))
     \<and> (\<forall>wq. posts_to h wq p \<longrightarrow> posts_to h' wq p)"

inductive cq_step :: "ptr \<Rightarrow> cq_threads \<Rightarrow> cq_threads \<Rightarrow> bool" for p :: ptr where
  Post: "post_exec (ct_post s i) (ct_heap s) = Some (Inr (pc, h)) \<Longrightarrow> cq_step p s
    (s\<lparr>ct_heap := h, ct_post := (ct_post s)(i := pc), ct_posted := ct_posted s @ published (ct_post s i)\<rparr>)"
| Call: "ct_post s i = CDone ret \<Longrightarrow> posts_to (ct_heap s) wq p \<Longrightarrow>
    cq_step p s (s\<lparr>ct_post := (ct_post s)(i := CStart wq wqe st)\<rparr>)"
| Poll: "poll_exec (ct_poll s) (ct_heap s) = Some (Inr (pc, h)) \<Longrightarrow> cq_step p s
    (s\<lparr>ct_heap := h, ct_poll := pc, ct_taken := ct_taken s @ delivered (ct_poll s)\<rparr>)"
| PollCall: "ct_poll s = QDone cnt ws \<Longrightarrow> nat (sint num_wc) \<le> length ibwc \<Longrightarrow>
    cq_step p s (s\<lparr>ct_poll := QLoop p (nat (sint (num_wc :: c_int))) ibwc 0\<rparr>)"
| Other: "elsewhere p (ct_heap s) h \<Longrightarrow> cq_step p s (s\<lparr>ct_heap := h\<rparr>)"

text \<open>A queue at rest; what it holds counts as published.\<close>

definition cq_rest :: "ptr \<Rightarrow> cq_threads \<Rightarrow> bool" where
  "cq_rest p s \<longleftrightarrow> cq_ok (ct_heap s) p \<and> (\<forall>i. \<exists>ret. ct_post s i = CDone ret) \<and> (\<exists>cnt ws. ct_poll s = QDone cnt ws)
     \<and> ct_posted s = cq_list (ct_heap s) p \<and> ct_taken s = []"

section \<open>The programs step as the threads of a shared ring\<close>

text \<open>
  Where a poster of the code stands as a poster of the shared ring: at \<open>CField n\<close> the first \<open>n\<close> fields
  are written, so the rest of them turn whatever the slot holds into the entry.
\<close>

fun post_sim :: "ptr \<Rightarrow> heap \<Rightarrow> dis_cq \<Rightarrow> dis_cqe list \<Rightarrow> post_pc \<Rightarrow> dis_cqe poster \<Rightarrow> bool" where
  "post_sim p h cq slots (CStart wq wqe st) q \<longleftrightarrow> q = PEnter (cqe_of wqe st) \<and> posts_to h wq p"
| "post_sim p h cq slots (CLock c wqe st) q \<longleftrightarrow> q = PEnter (cqe_of wqe st) \<and> c = p"
| "post_sim p h cq slots (CHead c wqe st) q \<longleftrightarrow> q = PCheck (cqe_of wqe st) \<and> c = p"
| "post_sim p h cq slots (CTail c wqe st k) q \<longleftrightarrow> q = PCheck (cqe_of wqe st) \<and> c = p
     \<and> k = int_to_ulong (circ_head (cq_cqe_circ cq))"
| "post_sim p h cq slots (CField n c mem wqe st k) q \<longleftrightarrow> q = PWrite (cqe_of wqe st) k \<and> c = p
     \<and> mem = circ_buf_mem (cq_cqe_circ cq) \<and> n < 5 \<and> fold (put_field wqe st) [n..<5] (slots ! unat k) = cqe_of wqe st"
| "post_sim p h cq slots (CPublish c wqe st k) q \<longleftrightarrow> q = PPublish (cqe_of wqe st) k \<and> c = p"
| "post_sim p h cq slots (CUnlock c ret) q \<longleftrightarrow> q = PLeave \<and> c = p"
| "post_sim p h cq slots (CDone ret) q \<longleftrightarrow> q = PIdle"

text \<open>
  The same for the poller, which reads the head before the tail: at \<open>QTail\<close> the head may be out of
  date, but it is the index after the first \<open>m\<close> entries of the queue, for some \<open>m\<close>.
\<close>

fun poll_sim :: "ptr \<Rightarrow> dis_cq \<Rightarrow> dis_cqe list \<Rightarrow> poll_pc \<Rightarrow> dis_cqe taker \<Rightarrow> bool" where
  "poll_sim p cq slots (QLoop c i ws cnt) t \<longleftrightarrow> t = TIdle \<and> c = p \<and> cnt + i \<le> length ws"
| "poll_sim p cq slots (QTail c i ws cnt k) t \<longleftrightarrow> t = TIdle \<and> c = p \<and> cnt + i \<le> length ws \<and> 0 < i
     \<and> (\<exists>m \<le> length (circ_list (cq_cqe_circ cq) (cq_cqe_max cq) slots).
          unat k = (unat (circ_tail (cq_cqe_circ cq)) + m) mod unat (cq_cqe_max cq))"
| "poll_sim p cq slots (QField n c mem i ws cnt k) t \<longleftrightarrow> t = TRead k \<and> c = p \<and> cnt + i \<le> length ws \<and> 0 < i
     \<and> mem = circ_buf_mem (cq_cqe_circ cq) \<and> n < 5
     \<and> fold (get_field (slots ! unat k)) [n..<5] (ws ! cnt) = set_wc blank_wc (slots ! unat k)"
| "poll_sim p cq slots (QRelease c i ws cnt k) t \<longleftrightarrow> c = p \<and> cnt + i \<le> length ws \<and> 0 < i
     \<and> (\<exists>x. t = TRelease x k \<and> ws ! cnt = set_wc blank_wc x)"
| "poll_sim p cq slots (QDone cnt ws) t \<longleftrightarrow> t = TIdle"

definition cq_sim :: "ptr \<Rightarrow> dis_cq \<Rightarrow> cq_threads \<Rightarrow> dis_cqe shared_ring \<Rightarrow> bool" where
  "cq_sim p cq s a \<longleftrightarrow> p \<noteq> 0 \<and> h_cq (ct_heap s) p = Some cq \<and> circ_buf_mem (cq_cqe_circ cq) \<noteq> 0
     \<and> sr_circ a = cq_cqe_circ cq \<and> h_cqe (ct_heap s) (circ_buf_mem (cq_cqe_circ cq)) = Some (sr_slots a)
     \<and> (cq_cqe_lock cq \<longleftrightarrow> sr_lock a \<noteq> None)
     \<and> (\<forall>i. post_sim p (ct_heap s) cq (sr_slots a) (ct_post s i) (sr_post a i))
     \<and> poll_sim p cq (sr_slots a) (ct_poll s) (sr_take a 0)
     \<and> ct_posted s = sr_posted a \<and> ct_taken s = map (set_wc blank_wc) (sr_taken a)"

abbreviation cq_ring_inv :: "dis_cq \<Rightarrow> dis_cqe shared_ring \<Rightarrow> bool" where
  "cq_ring_inv cq a \<equiv> ring_inv True UNIV {0} (cq_cqe_max cq) a"

lemma cq_simD:
  assumes "cq_sim p cq s a"
  shows "p \<noteq> 0" "h_cq (ct_heap s) p = Some cq" "circ_buf_mem (cq_cqe_circ cq) \<noteq> 0" "sr_circ a = cq_cqe_circ cq"
    "h_cqe (ct_heap s) (circ_buf_mem (cq_cqe_circ cq)) = Some (sr_slots a)" "cq_cqe_lock cq \<longleftrightarrow> sr_lock a \<noteq> None"
    "post_sim p (ct_heap s) cq (sr_slots a) (ct_post s i) (sr_post a i)"
    "poll_sim p cq (sr_slots a) (ct_poll s) (sr_take a 0)"
    "ct_posted s = sr_posted a" "ct_taken s = map (set_wc blank_wc) (sr_taken a)"
  using assms by (simp_all add: cq_sim_def)

text \<open>What the others do leaves a thread where it stands.\<close>

lemma post_sim_keep:
  assumes "post_sim p h cq slots pc q" "\<And>wq. posts_to h wq p \<Longrightarrow> posts_to h' wq p"
    "circ_buf_mem (cq_cqe_circ cq') = circ_buf_mem (cq_cqe_circ cq)"
    "in_crit q \<Longrightarrow> circ_head (cq_cqe_circ cq') = circ_head (cq_cqe_circ cq) \<and> slots' = slots"
  shows "post_sim p h' cq' slots' pc q"
  using assms by (cases pc) auto

lemma poll_sim_keep:
  assumes "poll_sim p cq slots pc t" "circ_buf_mem (cq_cqe_circ cq') = circ_buf_mem (cq_cqe_circ cq)"
    "circ_tail (cq_cqe_circ cq') = circ_tail (cq_cqe_circ cq)" "cq_cqe_max cq' = cq_cqe_max cq"
    "length (circ_list (cq_cqe_circ cq) (cq_cqe_max cq) slots)
      \<le> length (circ_list (cq_cqe_circ cq') (cq_cqe_max cq') slots')"
    "\<And>k. t = TRead k \<Longrightarrow> slots' ! unat k = slots ! unat k"
  shows "poll_sim p cq' slots' pc t"
  using assms by (cases pc) (auto intro: order_trans)

text \<open>A step of poster \<open>i\<close>: the others keep their places, because at most one of them is past the lock.\<close>

lemma poster_moves:
  assumes sim: "cq_sim p cq s a" and inv: "cq_ring_inv cq a"
    and a': "sr_post a' = (sr_post a)(i := q)" "sr_take a' = sr_take a" "sr_taken a' = sr_taken a"
      "sr_posted a' = sr_posted a @ published (ct_post s i)"
    and h': "h_cq h' p = Some cq'" "circ_buf_mem (cq_cqe_circ cq') = circ_buf_mem (cq_cqe_circ cq)"
      "cq_cqe_max cq' = cq_cqe_max cq" "circ_tail (cq_cqe_circ cq') = circ_tail (cq_cqe_circ cq)"
      "sr_circ a' = cq_cqe_circ cq'" "h_cqe h' (circ_buf_mem (cq_cqe_circ cq)) = Some (sr_slots a')"
      "cq_cqe_lock cq' \<longleftrightarrow> sr_lock a' \<noteq> None" "\<And>wq. posts_to h wq p \<Longrightarrow> posts_to h' wq p" and h: "ct_heap s = h"
    and grows: "length (sr_items (cq_cqe_max cq) a) \<le> length (sr_items (cq_cqe_max cq) a')"
    and reads: "\<And>k. sr_take a 0 = TRead k \<Longrightarrow> sr_slots a' ! unat k = sr_slots a ! unat k"
    and others: "in_crit (sr_post a i)
      \<or> circ_head (cq_cqe_circ cq') = circ_head (cq_cqe_circ cq) \<and> sr_slots a' = sr_slots a"
    and me: "post_sim p h' cq' (sr_slots a') pc q"
    and s': "ct_heap s' = h'" "ct_post s' = (ct_post s)(i := pc)" "ct_poll s' = ct_poll s" "ct_taken s' = ct_taken s"
      "ct_posted s' = ct_posted s @ published (ct_post s i)"
  shows "cq_sim p cq' s' a'"
proof -
  note D = cq_simD [OF sim]
  have "post_sim p h' cq' (sr_slots a') (((ct_post s)(i := pc)) j) (sr_post a' j)" for j
  proof (cases "j = i")
    case True
    with me show ?thesis by (simp add: a')
  next
    case False
    have "in_crit (sr_post a j) \<Longrightarrow> circ_head (cq_cqe_circ cq') = circ_head (cq_cqe_circ cq) \<and> sr_slots a' = sr_slots a"
      using one_poster [OF inv, of j i] others False by blast
    from post_sim_keep [OF D(7) _ h'(2) this, of h'] h'(8) False show ?thesis by (simp add: a' h)
  qed
  moreover have "poll_sim p cq' (sr_slots a') (ct_poll s) (sr_take a 0)"
    using grows D(4) h'(5) by (intro poll_sim_keep [OF D(8) h'(2,4,3) _ reads]) (simp_all add: sr_items_def h'(3))
  ultimately show ?thesis using D h'(1,2,5-7) by (simp add: cq_sim_def a' s')
qed

text \<open>The steps that only move the poster, with no access that changes the ring.\<close>

lemma poster_walks:
  assumes "cq_sim p cq s a" "cq_ring_inv cq a" "post_sim p (ct_heap s) cq (sr_slots a) pc q"
    "published (ct_post s i) = []"
  shows "cq_sim p cq (s\<lparr>ct_post := (ct_post s)(i := pc)\<rparr>) (set_post i q a)"
  by (rule poster_moves [OF assms(1,2)]) (use cq_simD [OF assms(1)] assms(3,4) in simp_all)

lemma poster_stays:
  assumes "cq_sim p cq s a" "cq_ring_inv cq a" "post_sim p (ct_heap s) cq (sr_slots a) pc (sr_post a i)"
    "published (ct_post s i) = []"
  shows "cq_sim p cq (s\<lparr>ct_post := (ct_post s)(i := pc)\<rparr>) a"
  using poster_walks [OF assms] by (simp add: set_post_def)

lemma post_lock_sim:
  assumes sim: "cq_sim p cq s a" and inv: "cq_ring_inv cq a" and pc: "ct_post s i = CLock c wqe st"
    and step: "post_exec (ct_post s i) (ct_heap s) = Some (Inr (pc', h'))"
  shows "\<exists>cq' a'. post_step True (cq_cqe_max cq) i a a' \<and> cq_cqe_max cq' = cq_cqe_max cq
    \<and> cq_sim p cq' (s\<lparr>ct_heap := h', ct_post := (ct_post s)(i := pc')\<rparr>) a'"
proof -
  note D = cq_simD [OF sim]
  let ?cq = "cq\<lparr>cq_cqe_lock := True\<rparr>" and ?x = "cqe_of wqe st"
  let ?a = "set_post i (PCheck ?x) (a\<lparr>sr_lock := Some i\<rparr>)"
  have q: "sr_post a i = PEnter ?x" "c = p" using D(7) [of i] unfolding pc by simp_all
  have n: "\<not> cq_cqe_lock cq" "pc' = CHead p wqe st" "h' = (ct_heap s)\<lparr>h_cq := (h_cq (ct_heap s))(p \<mapsto> ?cq)\<rparr>"
    using step D(1,2) unfolding pc q(2) by (auto simp: kres_simps split: if_splits)
  have "post_step True (cq_cqe_max cq) i a ?a" using q(1) n(1) D(6) by (intro Lock) simp_all
  moreover have "cq_sim p ?cq (s\<lparr>ct_heap := h', ct_post := (ct_post s)(i := pc')\<rparr>) ?a"
    by (rule poster_moves [OF sim inv, where i = i and h = "ct_heap s"])
      (use D(1-5) pc in \<open>simp_all add: n posts_to_def heap_simps\<close>, simp add: sr_items_def)
  ultimately show ?thesis by (intro exI [of _ ?cq] exI [of _ ?a]) simp
qed

lemma post_check_sim:
  assumes sim: "cq_sim p cq s a" and inv: "cq_ring_inv cq a" and pc: "ct_post s i = CTail c wqe st k"
    and step: "post_exec (ct_post s i) (ct_heap s) = Some (Inr (pc', h'))"
  shows "h' = ct_heap s" "\<exists>a'. post_step True (cq_cqe_max cq) i a a' \<and> cq_sim p cq (s\<lparr>ct_post := (ct_post s)(i := pc')\<rparr>) a'"
proof -
  note D = cq_simD [OF sim]
  let ?x = "cqe_of wqe st" and ?full = "CIRC_SPACE (sr_hd a) (sr_tl a) (cq_cqe_max cq) < 1"
  have q: "sr_post a i = PCheck ?x" "c = p" "k = sr_hd a" using D(7) [of i] D(4) unfolding pc by simp_all
  have n: "h' = ct_heap s" "pc' = (if ?full then CUnlock p (-42) else CField 0 p (circ_buf_mem (cq_cqe_circ cq)) wqe st k)"
    using step D(1,2,4) unfolding pc q(2) by (auto simp: kres_simps q(3) simp del: word_less_1 split: if_splits)
  show "h' = ct_heap s" by (rule n)
  show "\<exists>a'. post_step True (cq_cqe_max cq) i a a' \<and> cq_sim p cq (s\<lparr>ct_post := (ct_post s)(i := pc')\<rparr>) a'"
  proof (cases ?full)
    case True
    from Full [OF q(1) True, of True] poster_walks [OF sim inv, of "CUnlock p (-42)" PLeave i] True pc
    show ?thesis unfolding n by auto
  next
    case False
    from Room [OF q(1) False, of True] poster_walks [OF sim inv, of "CField 0 p (circ_buf_mem (cq_cqe_circ cq)) wqe st k" "PWrite ?x k" i]
      False pc put_fields_all show ?thesis unfolding n q(3) by auto
  qed
qed

lemma post_field_sim:
  assumes sim: "cq_sim p cq s a" and inv: "cq_ring_inv cq a" and pc: "ct_post s i = CField n c mem wqe st k"
    and step: "post_exec (ct_post s i) (ct_heap s) = Some (Inr (pc', h'))"
  shows "\<exists>a'. post_step True (cq_cqe_max cq) i a a' \<and> cq_sim p cq (s\<lparr>ct_heap := h', ct_post := (ct_post s)(i := pc')\<rparr>) a'"
proof -
  note D = cq_simD [OF sim] and I = ring_invD [OF inv]
  note b = circ_ok_bounds [OF I(2)]
  let ?x = "cqe_of wqe st" and ?m = "circ_buf_mem (cq_cqe_circ cq)"
  let ?y = "put_field wqe st n (sr_slots a ! unat k)" and ?q = "if n = 4 then PPublish ?x k else PWrite ?x k"
  let ?sl = "(sr_slots a)[unat k := ?y]"
  let ?a = "set_post i ?q (a\<lparr>sr_slots := ?sl\<rparr>)"
  have q: "sr_post a i = PWrite ?x k" "c = p" "mem = ?m" "n < 5"
    "fold (put_field wqe st) [n..<5] (sr_slots a ! unat k) = ?x" using D(7) [of i] unfolding pc by simp_all
  have k: "k = sr_hd a" "unat k < length (sr_slots a)" using I(7) [of i] b unfolding q(1) by simp_all
  have "pc' = (if n = 4 then CPublish p wqe st k else CField (Suc n) p ?m wqe st k)
      \<and> h' = (ct_heap s)\<lparr>h_cqe := (h_cqe (ct_heap s))(?m \<mapsto> ?sl)\<rparr>"
    using step D(3,5) k(2) unfolding pc q(2,3) by (auto simp: kres_simps)
  then have n: "pc' = (if n = 4 then CPublish p wqe st k else CField (Suc n) p ?m wqe st k)"
    "h' = (ct_heap s)\<lparr>h_cqe := (h_cqe (ct_heap s))(?m \<mapsto> ?sl)\<rparr>" by blast+
  have y: "fold (put_field wqe st) [Suc n..<5] ?y = ?x" using q(4,5) fields_step by metis
  then have "n = 4 \<Longrightarrow> ?y = ?x" by simp
  then have "post_step True (cq_cqe_max cq) i a ?a"
    using Scribble [of a i ?x k True "cq_cqe_max cq" ?y] Write [of a i ?x k True "cq_cqe_max cq"] q(1) by (cases "n = 4") simp_all
  moreover have "cq_sim p cq (s\<lparr>ct_heap := h', ct_post := (ct_post s)(i := pc')\<rparr>) ?a"
  proof (rule poster_moves [OF sim inv, where i = i and h = "ct_heap s" and q = ?q])
    show "post_sim p h' cq (sr_slots ?a) pc' ?q" using y k(2) q(4) by (simp add: n)
    show "sr_slots ?a ! unat k' = sr_slots a ! unat k'" if "sr_take a 0 = TRead k'" for k'
      using no_overlap [OF inv, of i ?x k 0 k'] that q(1) by (simp add: word_unat_eq_iff)
    show "length (sr_items (cq_cqe_max cq) a) \<le> length (sr_items (cq_cqe_max cq) ?a)"
      by (simp add: sr_items_def circ_list_def)
  qed (use D(1-6) pc q(1) in \<open>simp_all add: n posts_to_def heap_simps\<close>)
  ultimately show ?thesis by blast
qed

lemma post_publish_sim:
  assumes sim: "cq_sim p cq s a" and inv: "cq_ring_inv cq a" and pc: "ct_post s i = CPublish c wqe st k"
    and step: "post_exec (ct_post s i) (ct_heap s) = Some (Inr (pc', h'))"
  shows "\<exists>cq' a'. post_step True (cq_cqe_max cq) i a a' \<and> cq_cqe_max cq' = cq_cqe_max cq
    \<and> cq_sim p cq' (s\<lparr>ct_heap := h', ct_post := (ct_post s)(i := pc'), ct_posted := ct_posted s @ [cqe_of wqe st]\<rparr>) a'"
proof -
  note D = cq_simD [OF sim] and I = ring_invD [OF inv]
  let ?x = "cqe_of wqe st" and ?c = "(cq_cqe_circ cq)\<lparr>circ_head := circ_next k (cq_cqe_max cq)\<rparr>"
  let ?cq = "cq\<lparr>cq_cqe_circ := ?c\<rparr>"
  let ?a = "set_post i PLeave (a\<lparr>sr_circ := (sr_circ a)\<lparr>circ_head := circ_next k (cq_cqe_max cq)\<rparr>, sr_posted := sr_posted a @ [?x]\<rparr>)"
  have q: "sr_post a i = PPublish ?x k" "c = p" using D(7) [of i] unfolding pc by simp_all
  have n: "pc' = CUnlock p 0" "h' = (ct_heap s)\<lparr>h_cq := (h_cq (ct_heap s))(p \<mapsto> ?cq)\<rparr>"
    using step D(1,2) unfolding pc q(2) by (auto simp: kres_simps)
  note go = Publish [OF q(1), of True "cq_cqe_max cq"]
  have "ring_inv True UNIV {0} (cq_cqe_max cq) ?a" using post_step_inv [OF inv UNIV_I go] .
  note I' = ring_invD [OF this]
  have grows: "sr_items (cq_cqe_max cq) ?a = sr_items (cq_cqe_max cq) a @ [?x]" using I(3) I'(3) by simp
  have "cq_sim p ?cq (s\<lparr>ct_heap := h', ct_post := (ct_post s)(i := pc'), ct_posted := ct_posted s @ [?x]\<rparr>) ?a"
    by (rule poster_moves [OF sim inv, where i = i and h = "ct_heap s"])
      (use D(1-6,9) pc q(1) grows in \<open>simp_all add: n posts_to_def heap_simps\<close>)
  with go show ?thesis by (intro exI [of _ ?cq] exI [of _ ?a]) simp
qed

lemma post_unlock_sim:
  assumes sim: "cq_sim p cq s a" and inv: "cq_ring_inv cq a" and pc: "ct_post s i = CUnlock c ret"
    and step: "post_exec (ct_post s i) (ct_heap s) = Some (Inr (pc', h'))"
  shows "\<exists>cq' a'. post_step True (cq_cqe_max cq) i a a' \<and> cq_cqe_max cq' = cq_cqe_max cq
    \<and> cq_sim p cq' (s\<lparr>ct_heap := h', ct_post := (ct_post s)(i := pc')\<rparr>) a'"
proof -
  note D = cq_simD [OF sim]
  let ?cq = "cq\<lparr>cq_cqe_lock := False\<rparr>" and ?a = "set_post i PIdle (a\<lparr>sr_lock := None\<rparr>)"
  have q: "sr_post a i = PLeave" "c = p" using D(7) [of i] unfolding pc by simp_all
  have n: "pc' = CDone ret" "h' = (ct_heap s)\<lparr>h_cq := (h_cq (ct_heap s))(p \<mapsto> ?cq)\<rparr>"
    using step D(1,2) unfolding pc q(2) by (auto simp: cq_unlock_def kres_simps)
  have "post_step True (cq_cqe_max cq) i a ?a" using Leave [OF q(1), of True] by simp
  moreover have "cq_sim p ?cq (s\<lparr>ct_heap := h', ct_post := (ct_post s)(i := pc')\<rparr>) ?a"
    by (rule poster_moves [OF sim inv, where i = i and h = "ct_heap s"])
      (use D(1-6) pc in \<open>simp_all add: n posts_to_def heap_simps\<close>, simp add: sr_items_def)
  ultimately show ?thesis by (intro exI [of _ ?cq] exI [of _ ?a]) simp
qed

text \<open>A step of the poller: the posters keep their places.\<close>

lemma poller_moves:
  assumes sim: "cq_sim p cq s a"
    and a': "sr_post a' = sr_post a" "sr_lock a' = sr_lock a" "sr_slots a' = sr_slots a" "sr_posted a' = sr_posted a"
      "map (set_wc blank_wc) (sr_taken a') = ct_taken s @ delivered (ct_poll s)" "sr_circ a' = cq_cqe_circ cq'"
    and h': "h_cq h' p = Some cq'" "circ_buf_mem (cq_cqe_circ cq') = circ_buf_mem (cq_cqe_circ cq)"
      "circ_head (cq_cqe_circ cq') = circ_head (cq_cqe_circ cq)"
      "h_cqe h' (circ_buf_mem (cq_cqe_circ cq)) = Some (sr_slots a)"
      "cq_cqe_lock cq' = cq_cqe_lock cq" "\<And>wq. posts_to (ct_heap s) wq p \<Longrightarrow> posts_to h' wq p"
    and me: "poll_sim p cq' (sr_slots a) pc (sr_take a' 0)"
    and s': "ct_heap s' = h'" "ct_post s' = ct_post s" "ct_poll s' = pc" "ct_posted s' = ct_posted s"
      "ct_taken s' = ct_taken s @ delivered (ct_poll s)"
  shows "cq_sim p cq' s' a'"
proof -
  note D = cq_simD [OF sim]
  have "post_sim p h' cq' (sr_slots a) (ct_post s i) (sr_post a i)" for i
    using h'(3) by (intro post_sim_keep [OF D(7) h'(6,2)]) simp_all
  with D h' me show ?thesis by (simp add: cq_sim_def a' s')
qed

text \<open>The index the poller read as the head tells whether the queue holds an entry, however old it is.\<close>

lemma seen_head_cnt:
  assumes ok: "circ_ok c n slots" and m: "m \<le> length (circ_list c n slots)"
    and k: "unat k = (unat (circ_tail c) + m) mod unat n"
  shows "CIRC_CNT k (int_to_ulong (circ_tail c)) n < 1 \<longleftrightarrow> m = 0"
proof -
  note b = circ_ok_bounds [OF ok]
  let ?t = "unat (circ_tail c)" and ?n = "unat n"
  have n: "m < ?n" "?t < ?n" using m circ_list_bound [OF ok] b(5) by auto
  have "unat (CIRC_CNT k (int_to_ulong (circ_tail c)) n) = ring_cnt ((?t + m) mod ?n) ?t ?n"
    using CIRC_CNT_ring [OF b(1), of k "int_to_ulong (circ_tail c)"] b(3,5) k n by simp
  also have "\<dots> = m" using n by (auto simp: ring_cnt_alt add_mod_ring)
  finally show ?thesis by (simp only: word_less_1_iff)
qed

lemma head_after_items:
  assumes "circ_ok c n slots"
  shows "unat (int_to_ulong (circ_head c)) = (unat (circ_tail c) + length (circ_list c n slots)) mod unat n"
  using circ_ok_bounds [OF assms] by (simp add: circ_list_def ring_slot_head)

lemma poll_look_sim:
  assumes sim: "cq_sim p cq s a" and inv: "cq_ring_inv cq a"
    and pc: "(\<exists>c i ws cnt. ct_poll s = QLoop c i ws cnt) \<or> (\<exists>c i ws cnt k. ct_poll s = QTail c i ws cnt k)"
    and step: "poll_exec (ct_poll s) (ct_heap s) = Some (Inr (pc', h'))"
  shows "h' = ct_heap s" "\<exists>a'. (take_step (cq_cqe_max cq) 0)\<^sup>*\<^sup>* a a' \<and> cq_sim p cq (s\<lparr>ct_poll := pc'\<rparr>) a'"
proof -
  note D = cq_simD [OF sim] and ok = ring_invD(2) [OF inv]
  let ?c = "cq_cqe_circ cq" and ?k = "sr_tl a"
  let ?goal = "h' = ct_heap s \<and> (\<exists>a'. (take_step (cq_cqe_max cq) 0)\<^sup>*\<^sup>* a a' \<and> cq_sim p cq (s\<lparr>ct_poll := pc'\<rparr>) a')"
  have stay: ?goal if "h' = ct_heap s" "poll_sim p cq (sr_slots a) pc' (sr_take a 0)" "delivered (ct_poll s) = []"
  proof -
    have "cq_sim p cq (s\<lparr>ct_poll := pc'\<rparr>) a"
      by (rule poller_moves [OF sim, where h' = "ct_heap s" and pc = pc']) (use D that in simp_all)
    with that(1) show ?thesis by blast
  qed
  have ?goal
    using pc
  proof (elim disjE exE)
    fix c i ws cnt assume l: "ct_poll s = QLoop c i ws cnt"
    have q: "sr_take a 0 = TIdle" "c = p" "cnt + i \<le> length ws" using D(8) unfolding l by simp_all
    have "h' = ct_heap s \<and> pc' = (if i = 0 then QDone cnt ws else QTail p i ws cnt (sr_hd a))"
      using step D(1,2,4) unfolding l q(2) by (auto simp: kres_simps split: if_splits)
    with q head_after_items [OF ok] D(4) l show ?thesis by (intro stay) (auto simp del: mod_less)
  next
    fix c i ws cnt k assume l: "ct_poll s = QTail c i ws cnt k"
    obtain m where q: "sr_take a 0 = TIdle" "c = p" "cnt + i \<le> length ws" "0 < i"
      "m \<le> length (circ_list ?c (cq_cqe_max cq) (sr_slots a))" "unat k = (unat (circ_tail ?c) + m) mod unat (cq_cqe_max cq)"
      using D(8) unfolding l by auto
    note cnt = seen_head_cnt [OF ok [unfolded D(4)] q(5,6)]
    have n: "h' = ct_heap s" "pc' = (if m = 0 then QDone cnt ws else QField 0 p (circ_buf_mem ?c) i ws cnt ?k)"
      using step D(1,2,4) cnt unfolding l q(2) by (auto simp: kres_simps Let_def simp del: word_less_1 split: if_splits)
    show ?thesis
    proof (cases "m = 0")
      case True
      with n q(1) l show ?thesis by (intro stay) simp_all
    next
      case False
      then have "\<not> CIRC_CNT (sr_hd a) (sr_tl a) (cq_cqe_max cq) < 1"
        using q(5) circ_empty_iff [OF ok] D(4) by auto
      note go = Look [OF q(1) this]
      have "cq_sim p cq (s\<lparr>ct_poll := pc'\<rparr>) (set_take 0 (TRead ?k) a)"
        by (rule poller_moves [OF sim, where h' = "ct_heap s" and pc = pc'])
          (use D q l False in \<open>simp_all add: n get_fields_all set_wc_def\<close>)
      with go n(1) show ?thesis by (blast intro: r_into_rtranclp)
    qed
  qed
  then show "h' = ct_heap s" "\<exists>a'. (take_step (cq_cqe_max cq) 0)\<^sup>*\<^sup>* a a' \<and> cq_sim p cq (s\<lparr>ct_poll := pc'\<rparr>) a'" by blast+
qed

lemma poll_field_sim:
  assumes sim: "cq_sim p cq s a" and inv: "cq_ring_inv cq a" and pc: "ct_poll s = QField n c mem i ws cnt k"
    and step: "poll_exec (ct_poll s) (ct_heap s) = Some (Inr (pc', h'))"
  shows "h' = ct_heap s" "\<exists>a'. (take_step (cq_cqe_max cq) 0)\<^sup>*\<^sup>* a a' \<and> cq_sim p cq (s\<lparr>ct_poll := pc'\<rparr>) a'"
proof -
  note D = cq_simD [OF sim] and I = ring_invD [OF inv]
  let ?x = "sr_slots a ! unat k" and ?w = "ws[cnt := get_field (sr_slots a ! unat k) n (ws ! cnt)]"
  have q: "sr_take a 0 = TRead k" "c = p" "mem = circ_buf_mem (cq_cqe_circ cq)" "n < 5" "cnt + i \<le> length ws" "0 < i"
    "fold (get_field ?x) [n..<5] (ws ! cnt) = set_wc blank_wc ?x" using D(8) unfolding pc by simp_all
  have k: "unat k < length (sr_slots a)" "cnt < length ws"
    using I(8) [of 0] circ_ok_bounds [OF I(2)] q(5,6) unfolding q(1) by simp_all
  have n: "h' = ct_heap s" "pc' = (if n = 4 then QRelease p i ?w cnt k else QField (Suc n) p mem i ?w cnt k)"
    using step D(3,5) k unfolding pc q(2,3) by (auto simp: kres_simps)
  have y: "fold (get_field ?x) [Suc n..<5] (get_field ?x n (ws ! cnt)) = set_wc blank_wc ?x"
    using q(4,7) fields_step by metis
  show "h' = ct_heap s" by (rule n)
  show "\<exists>a'. (take_step (cq_cqe_max cq) 0)\<^sup>*\<^sup>* a a' \<and> cq_sim p cq (s\<lparr>ct_poll := pc'\<rparr>) a'"
  proof (cases "n = 4")
    case True
    then have "get_field ?x n (ws ! cnt) = set_wc blank_wc ?x" using y by simp
    then have "cq_sim p cq (s\<lparr>ct_poll := pc'\<rparr>) (set_take 0 (TRelease ?x k) a)"
      by (intro poller_moves [OF sim, where h' = "ct_heap s" and pc = pc']) (use D q k True pc in \<open>simp_all add: n\<close>)
    with Read [OF q(1), of "cq_cqe_max cq"] show ?thesis by (blast intro: r_into_rtranclp)
  next
    case False
    then have "cq_sim p cq (s\<lparr>ct_poll := pc'\<rparr>) a"
      by (intro poller_moves [OF sim, where h' = "ct_heap s" and pc = pc']) (use D q k y pc in \<open>simp_all add: n\<close>)
    then show ?thesis by blast
  qed
qed

lemma poll_release_sim:
  assumes sim: "cq_sim p cq s a" and pc: "ct_poll s = QRelease c i ws cnt k"
    and step: "poll_exec (ct_poll s) (ct_heap s) = Some (Inr (pc', h'))"
  shows "\<exists>cq' a'. (take_step (cq_cqe_max cq) 0)\<^sup>*\<^sup>* a a' \<and> cq_cqe_max cq' = cq_cqe_max cq
    \<and> cq_sim p cq' (s\<lparr>ct_heap := h', ct_poll := pc', ct_taken := ct_taken s @ [ws ! cnt]\<rparr>) a'"
proof -
  note D = cq_simD [OF sim]
  obtain x where q: "sr_take a 0 = TRelease x k" "c = p" "cnt + i \<le> length ws" "0 < i" "ws ! cnt = set_wc blank_wc x"
    using D(8) unfolding pc by auto
  let ?cq = "cq\<lparr>cq_cqe_circ := (cq_cqe_circ cq)\<lparr>circ_tail := circ_next k (cq_cqe_max cq)\<rparr>\<rparr>"
  let ?a = "set_take 0 TIdle (a\<lparr>sr_circ := (sr_circ a)\<lparr>circ_tail := circ_next k (cq_cqe_max cq)\<rparr>, sr_taken := sr_taken a @ [x]\<rparr>)"
  have n: "pc' = QLoop p (i - 1) ws (Suc cnt)" "h' = (ct_heap s)\<lparr>h_cq := (h_cq (ct_heap s))(p \<mapsto> ?cq)\<rparr>"
    using step D(1,2) unfolding pc q(2) by (auto simp: kres_simps)
  have "cq_sim p ?cq (s\<lparr>ct_heap := h', ct_poll := pc', ct_taken := ct_taken s @ [ws ! cnt]\<rparr>) ?a"
    by (rule poller_moves [OF sim, where h' = h' and pc = pc'])
      (use D q pc in \<open>simp_all add: n posts_to_def heap_simps\<close>)
  with Release [OF q(1), of "cq_cqe_max cq"] show ?thesis
    by (intro exI [of _ ?cq] exI [of _ ?a]) (simp add: r_into_rtranclp)
qed

text \<open>Every step of the code is matched by steps of the ring.\<close>

definition ring_sim :: "ptr \<Rightarrow> u32 \<Rightarrow> cq_threads \<Rightarrow> dis_cqe shared_ring \<Rightarrow> bool" where
  "ring_sim p sz s a \<longleftrightarrow> (\<exists>cq. cq_cqe_max cq = sz \<and> cq_sim p cq s a)"

lemma post_exec_sim:
  assumes sim: "cq_sim p cq s a" and inv: "cq_ring_inv cq a"
    and step: "post_exec (ct_post s i) (ct_heap s) = Some (Inr (pc', h'))"
  shows "\<exists>a'. (post_step True (cq_cqe_max cq) i)\<^sup>*\<^sup>* a a' \<and> ring_sim p (cq_cqe_max cq)
    (s\<lparr>ct_heap := h', ct_post := (ct_post s)(i := pc'), ct_posted := ct_posted s @ published (ct_post s i)\<rparr>) a'"
proof -
  note D = cq_simD [OF sim] and sim' = ring_sim_def
  have same: "s\<lparr>ct_heap := ct_heap s, ct_post := f, ct_posted := ct_posted s\<rparr> = s\<lparr>ct_post := f\<rparr>"
    "s\<lparr>ct_heap := h', ct_post := f, ct_posted := ct_posted s\<rparr> = s\<lparr>ct_heap := h', ct_post := f\<rparr>" for f by simp_all
  show ?thesis
  proof (cases "ct_post s i")
    case (CStart wq wqe st)
    have q: "sr_post a i = PEnter (cqe_of wqe st)" "posts_to (ct_heap s) wq p" using D(7) [of i] unfolding CStart by simp_all
    then have n: "pc' = CLock p wqe st" "h' = ct_heap s" using step unfolding CStart by (auto elim!: posts_toE)
    from poster_stays [OF sim inv, of pc' i] q CStart show ?thesis by (auto simp: n sim' same)
  next
    case (CLock c wqe st)
    from post_lock_sim [OF sim inv CLock step] show ?thesis by (auto simp: sim' CLock same)
  next
    case (CHead c wqe st)
    have q: "sr_post a i = PCheck (cqe_of wqe st)" "c = p" using D(7) [of i] unfolding CHead by simp_all
    have n: "pc' = CTail p wqe st (sr_hd a)" "h' = ct_heap s"
      using step D(1,2,4) unfolding CHead q(2) by (auto simp: kres_simps)
    from poster_stays [OF sim inv, of pc' i] q CHead D(4) show ?thesis by (auto simp: n sim' same)
  next
    case (CTail c wqe st k)
    from post_check_sim [OF sim inv CTail step] show ?thesis by (auto simp: sim' CTail same)
  next
    case (CField n c mem wqe st k)
    from post_field_sim [OF sim inv CField step] show ?thesis by (auto simp: sim' CField same)
  next
    case (CPublish c wqe st k)
    from post_publish_sim [OF sim inv CPublish step] show ?thesis by (auto simp: sim' CPublish)
  next
    case (CUnlock c ret)
    from post_unlock_sim [OF sim inv CUnlock step] show ?thesis by (auto simp: sim' CUnlock same)
  next
    case (CDone ret)
    with step show ?thesis by simp
  qed
qed

lemma poll_exec_sim:
  assumes sim: "cq_sim p cq s a" and inv: "cq_ring_inv cq a"
    and step: "poll_exec (ct_poll s) (ct_heap s) = Some (Inr (pc', h'))"
  shows "\<exists>a'. (take_step (cq_cqe_max cq) 0)\<^sup>*\<^sup>* a a' \<and> ring_sim p (cq_cqe_max cq)
    (s\<lparr>ct_heap := h', ct_poll := pc', ct_taken := ct_taken s @ delivered (ct_poll s)\<rparr>) a'"
proof -
  note D = cq_simD [OF sim] and sim' = ring_sim_def
  show ?thesis
  proof (cases "ct_poll s")
    case (QLoop c i ws cnt)
    with poll_look_sim [OF sim inv _ step] show ?thesis by (auto simp: sim')
  next
    case (QTail c i ws cnt k)
    with poll_look_sim [OF sim inv _ step] show ?thesis by (auto simp: sim')
  next
    case (QField n c mem i ws cnt k)
    from poll_field_sim [OF sim inv QField step] show ?thesis by (auto simp: sim' QField)
  next
    case (QRelease c i ws cnt k)
    from poll_release_sim [OF sim QRelease step] show ?thesis by (auto simp: sim' QRelease)
  next
    case (QDone cnt ws)
    with step show ?thesis by simp
  qed
qed

lemma cq_step_sim:
  assumes sim: "ring_sim p sz s a" and inv: "ring_inv True UNIV {0} sz a" and step: "cq_step p s s'"
  shows "\<exists>a'. (ring_step True UNIV {0} sz)\<^sup>*\<^sup>* a a' \<and> ring_sim p sz s' a'"
proof -
  from sim obtain cq where cq: "cq_cqe_max cq = sz" "cq_sim p cq s a" by (auto simp: ring_sim_def)
  with inv have inv': "cq_ring_inv cq a" by simp
  note D = cq_simD [OF cq(2)]
  from step show ?thesis
  proof cases
    case (Post i pc h)
    from post_exec_sim [OF cq(2) inv' Post(2)] show ?thesis
      unfolding Post(1) cq(1) using runs_in_ring(1) [of True sz i a _ UNIV "{0}"] by blast
  next
    case (Call i ret wq wqe st)
    have q: "sr_post a i = PIdle" using D(7) [of i] unfolding Call(2) by simp
    let ?a = "set_post i (PEnter (cqe_of wqe st)) a"
    have "cq_sim p cq s' ?a"
      unfolding Call(1) using poster_walks [OF cq(2) inv', of "CStart wq wqe st"] Call(2,3) by simp
    moreover have "(ring_step True UNIV {0} sz)\<^sup>*\<^sup>* a ?a"
      by (intro r_into_rtranclp ring_step.Post [of i] post_step.Call q) simp
    ultimately show ?thesis using cq(1) by (auto simp: ring_sim_def)
  next
    case (Poll pc h)
    from poll_exec_sim [OF cq(2) inv' Poll(2)] show ?thesis
      unfolding Poll(1) cq(1) using runs_in_ring(2) [of sz 0 a _ "{0}" True UNIV] by blast
  next
    case (PollCall cnt ws num_wc ibwc)
    have "cq_sim p cq s' a"
      unfolding PollCall(1) using cq(2) PollCall(2,3) D(8) by (simp add: cq_sim_def)
    then show ?thesis using cq(1) by (auto simp: ring_sim_def)
  next
    case (Other h)
    then have "post_sim p h cq (sr_slots a) (ct_post s i) (sr_post a i)" for i
      by (intro post_sim_keep [OF D(7)]) (simp_all add: elsewhere_def)
    then have "cq_sim p cq s' a"
      unfolding Other(1) using D Other(2) by (simp add: cq_sim_def elsewhere_def)
    then show ?thesis using cq(1) by (auto simp: ring_sim_def)
  qed
qed

interpretation cqr: forward_simulation "ring_init True UNIV {0} sz" "ring_step True UNIV {0} sz"
    "ring_inv True UNIV {0} sz" "cq_step p" "ring_sim p sz" for p sz
  by unfold_locales (rule cq_step_sim)

lemma rest_ring:
  assumes "cq_rest p s"
  obtains cq a where "h_cq (ct_heap s) p = Some cq" "ring_sim p (cq_cqe_max cq) s a" "cq_ring_inv cq a"
proof -
  from assms have "cq_ok (ct_heap s) p" by (simp add: cq_rest_def)
  then obtain cq slots where ok: "p \<noteq> 0" "h_cq (ct_heap s) p = Some cq" "\<not> cq_cqe_lock cq" "circ_buf_mem (cq_cqe_circ cq) \<noteq> 0"
    "h_cqe (ct_heap s) (circ_buf_mem (cq_cqe_circ cq)) = Some slots" "circ_ok (cq_cqe_circ cq) (cq_cqe_max cq) slots"
    by (rule cq_okE)
  let ?a = "\<lparr>sr_circ = cq_cqe_circ cq, sr_slots = slots, sr_lock = None, sr_post = \<lambda>_. PIdle, sr_take = \<lambda>_. TIdle,
    sr_posted = cq_list (ct_heap s) p, sr_taken = []\<rparr>"
  have "post_sim p (ct_heap s) cq slots (ct_post s i) PIdle" for i
    using assms by (cases "ct_post s i") (auto simp: cq_rest_def, (metis post_pc.distinct)+)
  moreover have "poll_sim p cq slots (ct_poll s) TIdle" using assms by (auto simp: cq_rest_def)
  ultimately have "cq_sim p cq s ?a" using ok assms by (simp add: cq_sim_def cq_rest_def)
  moreover have "cq_ring_inv cq ?a"
    using ok by (simp add: ring_inv_def disciplined_def sr_items_def cq_list_def)
  ultimately show ?thesis using ok(2) by (intro that [of cq ?a]) (auto simp: ring_sim_def)
qed

text \<open>A related state has no thread that faults, and a thread to run unless all have returned.\<close>

lemma related_no_fault:
  assumes sim: "cq_sim p cq s a" and inv: "cq_ring_inv cq a"
  shows "post_exec (ct_post s i) (ct_heap s) \<noteq> Some (Inl f)" "poll_exec (ct_poll s) (ct_heap s) \<noteq> Some (Inl f)"
proof -
  note D = cq_simD [OF sim] and I = ring_invD [OF inv] and b = circ_ok_bounds [OF ring_invD(2) [OF inv]]
  have "unat k < length (sr_slots a)" if "sr_post a i = PWrite x k" for x k
    using I(7) [of i] that b by simp
  then show "post_exec (ct_post s i) (ct_heap s) \<noteq> Some (Inl f)"
    using D(1-3,5) D(7) [of i] by (cases "ct_post s i") (auto simp: kres_simps cq_unlock_def elim!: posts_toE)
  have "unat k < length (sr_slots a)" if "sr_take a 0 = TRead k" for k
    using I(8) [of 0] that b by simp
  then show "poll_exec (ct_poll s) (ct_heap s) \<noteq> Some (Inl f)"
    using D(1-3,5,8) by (cases "ct_poll s") (auto simp: kres_simps Let_def)
qed

lemma related_progress:
  assumes sim: "cq_sim p cq s a" and inv: "cq_ring_inv cq a"
  shows "(\<forall>i. \<exists>ret. ct_post s i = CDone ret) \<or> (\<exists>j. post_exec (ct_post s j) (ct_heap s) \<noteq> None)"
proof (rule ccontr)
  note D = cq_simD [OF sim] and I = ring_invD [OF inv]
  assume *: "\<not> ?thesis"
  then obtain i where i: "\<forall>ret. ct_post s i \<noteq> CDone ret" "post_exec (ct_post s i) (ct_heap s) = None" by blast
  then obtain c wqe st where "ct_post s i = CLock c wqe st" by (cases "ct_post s i") auto
  with i(2) D(1,2,6) D(7) [of i] obtain j where "sr_lock a = Some j"
    by (auto simp: kres_simps split: if_splits)
  then have "in_crit (sr_post a j)" using I(6) by simp
  then have "post_exec (ct_post s j) (ct_heap s) \<noteq> None" using D(7) [of j] by (cases "ct_post s j") auto
  with * show False by blast
qed

text \<open>Runs of the code are runs of the ring, so what holds of every run of the ring holds of the code.\<close>

lemma cq_threads_refine:
  assumes "cq_rest p s" "(cq_step p)\<^sup>*\<^sup>* s s'"
  obtains sz a a' where "ring_sim p sz s a" "ring_inv True UNIV {0} sz a" "(ring_step True UNIV {0} sz)\<^sup>*\<^sup>* a a'"
    "ring_sim p sz s' a'" "ring_inv True UNIV {0} sz a'"
  using rest_ring [OF assms(1)] cqr.sim_run [OF assms(2)] by metis

section \<open>Example\<close>

text \<open>
  An interleaving to run: two posters at queue \<open>5\<close> and the poller, in a given order of turns. The
  second poster finds the lock taken; the first completion to be posted is already delivered when
  the second one is published.
\<close>

definition turn :: "nat option \<Rightarrow> cq_threads \<Rightarrow> cq_threads" where
  "turn t s = (case t of
     Some i \<Rightarrow> (case post_exec (ct_post s i) (ct_heap s) of Some (Inr (pc, h)) \<Rightarrow>
       s\<lparr>ct_heap := h, ct_post := (ct_post s)(i := pc), ct_posted := ct_posted s @ published (ct_post s i)\<rparr> | _ \<Rightarrow> s)
   | None \<Rightarrow> (case poll_exec (ct_poll s) (ct_heap s) of Some (Inr (pc, h)) \<Rightarrow>
       s\<lparr>ct_heap := h, ct_poll := pc, ct_taken := ct_taken s @ delivered (ct_poll s)\<rparr> | _ \<Rightarrow> s))"

lemma turns_run: "(cq_step p)\<^sup>*\<^sup>* s (fold turn ts s)"
proof (induction ts arbitrary: s)
  case Nil
  then show ?case by simp
next
  case (Cons t ts)
  have "(cq_step p)\<^sup>*\<^sup>* s (turn t s)"
    unfolding turn_def by (auto split: option.splits sum.splits intro: Post Poll)
  with Cons.IH [of "turn t s"] show ?case by (simp add: rtranclp_trans)
qed

definition ex_threads :: cq_threads where
  "ex_threads = \<lparr>ct_heap = ex_cq_heap 2 2, ct_post = \<lambda>_. CDone 0, ct_poll = QDone 0 [], ct_posted = [], ct_taken = []\<rparr>"

definition ex_called :: cq_threads where
  "ex_called = ex_threads\<lparr>ct_post := (\<lambda>_. CDone 0)(1 := CStart (SqOf 7) (zero_wqe\<lparr>wqe_wr_id := 8\<rparr>) 0,
       2 := CStart (SqOf 7) (zero_wqe\<lparr>wqe_wr_id := 9\<rparr>) 0),
     ct_poll := QLoop 5 2 [blank_wc, blank_wc] 0\<rparr>"

definition ex_turns :: "nat option list" where
  "ex_turns = [Some 1, Some 2, Some 1, Some 2, Some 1, Some 1, Some 1, Some 1, Some 1, Some 2, Some 1, Some 1, Some 1,
     None, Some 1, Some 2, None, Some 2, None, Some 2, None, Some 2, None, None, Some 2, None, Some 2, None, Some 2,
     Some 2, Some 2]"

definition ex_done :: "u32 \<Rightarrow> dis_cqe" where
  "ex_done i = cqe_of (zero_wqe\<lparr>wqe_wr_id := i\<rparr>) 0"

lemma ex_turns_result:
  "ct_posted (fold turn ex_turns ex_called) = [ex_done 8, ex_done 9]"
  "ct_taken (fold turn ex_turns ex_called) = [set_wc blank_wc (ex_done 8)]"
  by code_simp+

lemma ex_threads_rest: "cq_rest 5 ex_threads"
  using ex_cq_heap_ok [of 2 2]
  by (simp add: cq_rest_def ex_threads_def) (simp add: cq_list_def ex_cq_heap_def circ_list_def ring_list_empty)

lemma ex_called_run: "(cq_step 5)\<^sup>*\<^sup>* ex_threads ex_called"
proof -
  let ?w = "\<lambda>i. zero_wqe\<lparr>wqe_wr_id := i\<rparr>"
  let ?s1 = "ex_threads\<lparr>ct_post := (ct_post ex_threads)(1 := CStart (SqOf 7) (?w 8) 0)\<rparr>"
  let ?s2 = "?s1\<lparr>ct_post := (ct_post ?s1)(2 := CStart (SqOf 7) (?w 9) 0)\<rparr>"
  have 1: "cq_step 5 ex_threads ?s1"
    by (rule Call [where ret = 0]) (simp_all add: ex_threads_def ex_cq_heap_posts)
  have 2: "cq_step 5 ?s1 ?s2" by (rule Call [where ret = 0]) (simp_all add: ex_threads_def ex_cq_heap_posts)
  have "cq_step 5 ?s2 (?s2\<lparr>ct_poll := QLoop 5 (nat (sint (2 :: c_int))) [blank_wc, blank_wc] 0\<rparr>)"
    by (rule PollCall [where cnt = 0 and ws = "[]"]) (simp_all add: ex_threads_def)
  also have "?s2\<lparr>ct_poll := QLoop 5 (nat (sint (2 :: c_int))) [blank_wc, blank_wc] 0\<rparr> = ex_called"
    by (simp add: ex_called_def ex_threads_def)
  finally have 3: "cq_step 5 ?s2 ex_called" .
  from 1 2 3 obtain s1 s2 where "cq_step 5 ex_threads s1" "cq_step 5 s1 s2" "cq_step 5 s2 ex_called" by blast
  then show ?thesis by (meson r_into_rtranclp rtranclp.rtrancl_into_rtrancl)
qed

section \<open>Property\<close>

text \<open>
  C12. The operations of a completion queue work under concurrency. Posting and polling are, step for step,
  the operations of the store when they run alone. Let any number of threads post while one polls,
  interrupted between any two accesses to shared memory, down to the single fields of an entry,
  and with any other activity of the driver that leaves the queue alone. Then, from a queue at rest, at every moment the
  completions published are the work completions delivered followed by what is queued: each is
  delivered once, whole and in order. The queue holds at most its capacity, no thread is about to
  fault, and some poster can go on unless all have returned.
\<close>

theorem cq_threads_safe:
  assumes "cq_rest p s" "(cq_step p)\<^sup>*\<^sup>* s s'"
  shows "(\<forall>h wq wqe st. post_run 11 (CStart wq wqe st) h = Some (dis_wq_post_sqe_cqe h wq wqe st))
    \<and> (\<forall>h n ws. poll_run (8 * nat (sint n) + 1) (QLoop p (nat (sint n)) ws 0) h = Some (dis_poll_cq h p n ws))
    \<and> map (set_wc blank_wc) (ct_posted s') = ct_taken s' @ map (set_wc blank_wc) (cq_list (ct_heap s') p)
    \<and> length (cq_list (ct_heap s') p) \<le> cq_cap (ct_heap s) p
    \<and> (\<forall>i f. post_exec (ct_post s' i) (ct_heap s') \<noteq> Some (Inl f)) \<and> (\<forall>f. poll_exec (ct_poll s') (ct_heap s') \<noteq> Some (Inl f))
    \<and> ((\<forall>i. \<exists>ret. ct_post s' i = CDone ret) \<or> (\<exists>j. post_exec (ct_post s' j) (ct_heap s') \<noteq> None))"
proof -
  from assms obtain sz a0 a where start: "ring_sim p sz s a0" and "ring_sim p sz s' a" and inv: "ring_inv True UNIV {0} sz a"
    by (rule cq_threads_refine)
  then obtain cq where cq: "cq_cqe_max cq = sz" and sim: "cq_sim p cq s' a" by (auto simp: ring_sim_def)
  note D = cq_simD [OF sim] and I = ring_invD [OF inv] and inv' = inv [folded cq]
  have list: "cq_list (ct_heap s') p = sr_items sz a" using D(2,4,5) cq by (simp add: cq_list_def sr_items_def)
  have "map (set_wc blank_wc) (ct_posted s') = ct_taken s' @ map (set_wc blank_wc) (cq_list (ct_heap s') p)"
    unfolding D(9,10) list I(3) by simp
  moreover have "length (cq_list (ct_heap s') p) \<le> cq_cap (ct_heap s) p"
    unfolding list using circ_list_bound [OF I(2)] start by (auto simp: sr_items_def cq_cap_def ring_sim_def dest!: cq_simD(2))
  ultimately show ?thesis
    using related_no_fault [OF sim inv'] related_progress [OF sim inv'] post_alone poll_alone
    by (simp add: dis_poll_cq_def del: post_run.simps poll_run.simps)
qed

theorem cq_threads_safe_witness:
  "\<exists>s'. (cq_step 5)\<^sup>*\<^sup>* ex_threads s' \<and> ct_posted s' = [ex_done 8, ex_done 9]
    \<and> ct_taken s' = [set_wc blank_wc (ex_done 8)]
    \<and> map (set_wc blank_wc) (cq_list (ct_heap s') 5) = [set_wc blank_wc (ex_done 9)]"
proof -
  have run: "(cq_step 5)\<^sup>*\<^sup>* ex_threads (fold turn ex_turns ex_called)"
    using ex_called_run turns_run by (rule rtranclp_trans)
  with cq_threads_safe [OF ex_threads_rest run] ex_turns_result show ?thesis
    by (intro exI [of _ "fold turn ex_turns ex_called"]) (simp del: post_run.simps poll_run.simps)
qed

end
