(* ===== verification/Wq_Threads.thy ===== *)
theory Wq_Threads
  imports Ring_Concurrency Work_Queue
begin

text \<open>
  A work queue as a shared ring. The two halves of the posting routines (\<open>dis_qp_post_one_sqe\<close>,
  \<open>dis_qp_post_one_rqe\<close>) are runs of a poster of \<open>Ring_Concurrency\<close> that takes no lock, and the accesses
  of the worker (\<open>dis_wq_consume_all\<close>) are the steps of a taker. So the poster without a lock of
  \<open>Ring_Concurrency\<close>, which fills its slot in any number of writes and may give up, stands for a
  thread that posts requests, and its taker for the worker.
\<close>

section \<open>The ring in the store\<close>

definition wq_ring :: "heap \<Rightarrow> wq_ref \<Rightarrow> dis_wqe shared_ring \<Rightarrow> bool" where
  "wq_ring h r a \<longleftrightarrow> (\<exists>w. get_wq h r = Inr w \<and> sr_circ a = wq_wqe_circ w
     \<and> deref (h_wqe h) (circ_buf_mem (wq_wqe_circ w)) = Inr (sr_slots a))"

section \<open>Posting\<close>

lemma post_prepare_slot:
  assumes "post_prepare opc env h r wr = Inr (res, h')" "get_wq h r = Inr w"
    "deref (h_wqe h) (circ_buf_mem (wq_wqe_circ w)) = Inr slots"
  defines "c \<equiv> int_to_ulong (circ_head (wq_wqe_circ w))"
  shows "(CIRC_SPACE c (int_to_ulong (circ_tail (wq_wqe_circ w))) (wq_wqe_max w) < 1 \<and> (\<exists>ret. res = Inl ret) \<and> h' = h)
    \<or> (\<not> CIRC_SPACE c (int_to_ulong (circ_tail (wq_wqe_circ w))) (wq_wqe_max w) < 1 \<and> (res = Inr c \<or> (\<exists>ret. res = Inl ret))
      \<and> get_wq h' r = Inr w \<and> (\<exists>x. h_wqe h' = (h_wqe h)(circ_buf_mem (wq_wqe_circ w) \<mapsto> slots[unat c := x])))"
proof -
  let ?m = "circ_buf_mem (wq_wqe_circ w)" and ?full = "CIRC_SPACE c (int_to_ulong (circ_tail (wq_wqe_circ w))) (wq_wqe_max w) < 1"
  let ?goal = "(res = Inr c \<or> (\<exists>ret. res = Inl ret)) \<and> get_wq h' r = Inr w
    \<and> (\<exists>x. h_wqe h' = (h_wqe h)(?m \<mapsto> slots[unat c := x]))"
  note run = assms(1) [unfolded post_prepare_def assms(2) rbind_Inr Let_def, folded c_def]
  from run obtain qp where qp: "deref (h_qp h) (wq_ibqp w) = Inr qp" by (auto simp: rbind_eq_Inr)
  note run = run [unfolded qp rbind_Inr]
  show ?thesis
  proof (cases ?full)
    case True
    with run show ?thesis by auto
  next
    case False
    note run = run [unfolded if_not_P [OF False] assms(3) rbind_Inr]
    from run obtain slot where slot: "array_get slots (unat c) = Inr slot" by (auto simp: rbind_eq_Inr)
    note run = run [unfolded slot rbind_Inr]
    have stored: ?goal if "h' = store_wqe g ?m slots (unat c) x" "h_wqe g = h_wqe h" "get_wq g r = get_wq h r"
      "res = Inr c \<or> (\<exists>ret. res = Inl ret)" for g x
      using that assms(2) by (auto simp: store_wqe_def heap_simps)
    let ?g = "\<lambda>out. h\<lparr>h_next := Suc (h_next h), h_iov := (h_iov h)(h_next h \<mapsto> out)\<rparr>"
    have g: "h_wqe (?g out) = h_wqe h" "get_wq (?g out) r = get_wq h r" for out by (simp_all add: heap_simps)
    from run obtain found wqe1 maps where "map_sges h (to_dis_pd (qp_ibqp_pd qp)) (k_stack_sge env h) (wr_sg_list wr) (sge_limit wr) 0
        (slot\<lparr>wqe_opcode := opc, wqe_sci_msq := Some r, wqe_byte_len := 0, wqe_ibqp := wq_ibqp w,
          wqe_wr_id := ucast (wr_wr_id wr), wqe_sci_msg := (wqe_sci_msg slot)\<lparr>msg_iovlen := 0\<rparr>\<rparr>) [] = Inr (found, wqe1, maps)"
      by (auto simp: rbind_eq_Inr)
    note run = run [unfolded this rbind_Inr prod.case]
    have ?goal
      using run stored [OF _ refl refl] stored [OF _ g]
      by (simp add: rbind_eq_Inr split: if_splits) blast+
    with False show ?thesis by simp
  qed
qed

text \<open>
  Everything up to the filled slot: the poster stands before the release of the head it read, or has
  returned, with no change to the indices and none to any other slot.
\<close>

lemma prepare_is_run:
  assumes "post_prepare opc env h r wr = Inr (res, h')" "get_wq h r = Inr w" "wq_ring h r a" "sr_post a i = PIdle"
  shows "\<exists>a'. (post_step False (wq_wqe_max w) i)\<^sup>*\<^sup>* a a' \<and> wq_ring h' r a' \<and> get_wq h' r = Inr w
    \<and> (case res of Inl ret \<Rightarrow> sr_post a' i = PIdle \<and> sr_posted a' = sr_posted a
       | Inr c \<Rightarrow> \<exists>x. sr_post a' i = PPublish x c)"
proof -
  let ?c = "sr_hd a" and ?sz = "wq_wqe_max w" and ?m = "circ_buf_mem (wq_wqe_circ w)"
  let ?run = "(post_step False ?sz i)\<^sup>*\<^sup>*"
  have ring: "sr_circ a = wq_wqe_circ w" "deref (h_wqe h) ?m = Inr (sr_slots a)" using assms(2,3) by (auto simp: wq_ring_def)
  note slot = post_prepare_slot [OF assms(1,2) ring(2), folded ring(1)]
  have leave: "?run b (set_post i PIdle b)" if "sr_post b i = PLeave" for b :: "dis_wqe shared_ring"
    using Leave [OF that, of False ?sz] by (simp add: r_into_rtranclp)
  show ?thesis
  proof (cases "CIRC_SPACE ?c (sr_tl a) ?sz < 1")
    case True
    with slot obtain ret where res: "res = Inl ret" "h' = h" by auto
    have "?run a (set_post i (PEnter undefined) a)" using assms(4) by (intro r_into_rtranclp Call)
    also have "post_step False ?sz i (set_post i (PEnter undefined) a) (set_post i (PCheck undefined) a)"
      using Unlocked [of "set_post i (PEnter undefined) a" i undefined False ?sz] by simp
    also have "post_step False ?sz i (set_post i (PCheck undefined) a) (set_post i PLeave a)"
      using Full [of "set_post i (PCheck undefined) a" i undefined ?sz False] True by simp
    also have "?run (set_post i PLeave a) (set_post i PIdle a)" using leave [of "set_post i PLeave a"] by simp
    finally show ?thesis
      using assms(2,3) by (intro exI [of _ "set_post i PIdle a"]) (simp add: res wq_ring_def)
  next
    case False
    with slot obtain x where s: "res = Inr ?c \<or> (\<exists>ret. res = Inl ret)" "get_wq h' r = Inr w"
      "h_wqe h' = (h_wqe h)(?m \<mapsto> (sr_slots a)[unat ?c := x])" using ring(1) by auto
    let ?w = "set_post i (PWrite x ?c) a" and ?a = "a\<lparr>sr_slots := (sr_slots a)[unat ?c := x]\<rparr>"
    have first: "?run a ?w" using post_first_half [OF assms(4) False] .
    have ring': "wq_ring h' r (set_post i q ?a)" for q
      using s(2,3) ring by (auto simp: wq_ring_def deref_def split: option.splits if_splits)
    show ?thesis
    proof (cases res)
      case (Inr c)
      have "post_step False ?sz i ?w (set_post i (PPublish x ?c) ?a)"
        using Write [of ?w i x ?c False ?sz] by (simp add: set_post_def)
      with first have "?run a (set_post i (PPublish x ?c) ?a)" by (rule rtranclp.rtrancl_into_rtrancl)
      with ring' s(1,2) Inr show ?thesis by (intro exI [of _ "set_post i (PPublish x ?c) ?a"]) auto
    next
      case (Inl ret)
      note first
      also have "post_step False ?sz i ?w (set_post i (PWrite x ?c) ?a)"
        using Scribble [of ?w i x ?c False ?sz x] by (simp add: set_post_def)
      also have "post_step False ?sz i (set_post i (PWrite x ?c) ?a) (set_post i PLeave ?a)"
        using Give_Up [of "set_post i (PWrite x ?c) ?a" i x ?c False ?sz] by simp
      also have "?run (set_post i PLeave ?a) (set_post i PIdle ?a)" using leave [of "set_post i PLeave ?a"] by simp
      finally show ?thesis using ring' s(2) Inl by (intro exI [of _ "set_post i PIdle ?a"]) auto
    qed
  qed
qed

text \<open>The release of the head: the request counts as posted.\<close>

lemma publish_is_step:
  assumes "post_publish h r c = Inr (ret, h')" "get_wq h r = Inr w" "wq_ring h r a" "sr_post a i = PPublish x c"
  shows "\<exists>a'. (post_step False (wq_wqe_max w) i)\<^sup>*\<^sup>* a a' \<and> wq_ring h' r a' \<and> sr_post a' i = PIdle
    \<and> sr_posted a' = sr_posted a @ [x]"
proof -
  let ?a = "a\<lparr>sr_circ := (sr_circ a)\<lparr>circ_head := circ_next c (wq_wqe_max w)\<rparr>, sr_posted := sr_posted a @ [x]\<rparr>"
  have "post_step False (wq_wqe_max w) i a (set_post i PLeave ?a)" using Publish [OF assms(4)] .
  moreover have "post_step False (wq_wqe_max w) i (set_post i PLeave ?a) (set_post i PIdle ?a)"
    using Leave [of "set_post i PLeave ?a" i False "wq_wqe_max w"] by (simp add: set_post_def)
  ultimately have "(post_step False (wq_wqe_max w) i)\<^sup>*\<^sup>* a (set_post i PIdle ?a)" by (meson r_into_rtranclp rtranclp.rtrancl_into_rtrancl)
  moreover have "wq_ring h' r (set_post i PIdle ?a)"
    using assms(1-3) by (auto simp: wq_ring_def post_publish_def publish_def heap_simps)
  ultimately show ?thesis by (intro exI [of _ "set_post i PIdle ?a"]) simp
qed

section \<open>Taking\<close>

lemma front_is_run:
  assumes "wq_front h r = Inr (Some q)" "get_wqe h q = Inr e" "get_wq h r = Inr w" "wq_ring h r a" "sr_take a j = TIdle"
  shows "(take_step (wq_wqe_max w) j)\<^sup>*\<^sup>* a (set_take j (TRelease e (sr_tl a)) a)"
proof -
  have ring: "sr_circ a = wq_wqe_circ w" "deref (h_wqe h) (circ_buf_mem (wq_wqe_circ w)) = Inr (sr_slots a)"
    using assms(3,4) by (auto simp: wq_ring_def)
  have "\<not> CIRC_CNT (sr_hd a) (sr_tl a) (wq_wqe_max w) < 1" "q = (circ_buf_mem (wq_wqe_circ w), unat (sr_tl a))"
    using assms(1,3) ring(1) by (auto simp: wq_front_def Let_def simp del: word_less_1 split: if_splits)
  moreover from this(2) have "sr_slots a ! unat (sr_tl a) = e"
    using assms(2) ring(2) by (auto simp: array_get_def split: if_splits)
  ultimately show ?thesis using take_first_half [OF assms(5)] by metis
qed

lemma advance_is_step:
  assumes "wq_advance h r = Inr h'" "get_wq h r = Inr w" "wq_ring h r a" "sr_take a j = TRelease e (sr_tl a)"
  shows "\<exists>a'. take_step (wq_wqe_max w) j a a' \<and> wq_ring h' r a' \<and> sr_take a' j = TIdle
    \<and> sr_taken a' = sr_taken a @ [e]"
proof -
  let ?a = "set_take j TIdle (a\<lparr>sr_circ := (sr_circ a)\<lparr>circ_tail := circ_next (sr_tl a) (wq_wqe_max w)\<rparr>,
    sr_taken := sr_taken a @ [e]\<rparr>)"
  have "wq_ring h' r ?a" using assms(1-3) by (auto simp: wq_ring_def wq_advance_def heap_simps)
  with Release [OF assms(4), of "wq_wqe_max w"] show ?thesis by (intro exI [of _ ?a]) simp
qed

end
