(* ===== verification/Spec2Isabelle.thy ===== *)
theory Spec2Isabelle
  imports Completion_Queue Memory_Region Work_Queue Worker_Queue Request_Transfer Shared_Receive Device_Attributes Bus_Driver Cq_Threads Wq_Threads
begin

text \<open>
  Verification of the RoPCIe kernel driver (\<open>src/src\<close>), which offers RDMA verbs over the message queues
  of a PCI Express interconnect.

  The program. User code creates protection domains, registers memory with them, creates completion
  queues and queue pairs, and posts send and receive requests (\<open>dis_verbs.c\<close>). Posting translates the
  scatter/gather list of a request into physical segments through the page tables of the registered
  regions and puts an entry in the ring of a work queue (\<open>dis_qp.c\<close>). Each work queue has a worker
  thread, started when the queue pair is moved to RTR, that takes the entries off the ring, hands them to
  the SCI message queue library (\<open>dis_sci_if.c\<close>), and puts a completion in the ring of a completion
  queue, from which user code polls. Three more modules register a bus, a device on it, and the driver
  that turns the device into an RDMA device (\<open>dis_bus.c\<close>, \<open>dis_device.c\<close>, \<open>dis_driver.c\<close>).

  How it is modelled. The kernel objects live in a store with one map per type of object (\<open>Heap\<close>); a
  pointer is the identity of an object, never given out twice, so a pointer to a freed object stays
  recognisable. Structures are records with the fields of \<open>dis_verbs.h\<close>, integers are words of their C
  width. An operation takes the store and gives back its C result and the new store; \<open>Inl\<close> is a fault
  (\<open>NULL\<close> or dangling dereference, access outside an array, double free, deadlock), so that it is a
  theorem when an operation does not fault. Error codes are ordinary results. A loop over a list or a
  bounded count is a recursive function; the loops that may run forever (\<open>sqe_loop\<close>, \<open>rqe_loop\<close>,
  \<open>dis_wq_consume_all\<close>, \<open>dis_wq_init\<close>, \<open>worker_loop\<close>, \<open>await_exited\<close>) are partial functions whose value
  \<open>None\<close> is not returning, and that they return is proved where it is claimed. Fuel is used only to run
  the step programs of \<open>Cq_Threads\<close> alone: 11 steps for a post and 8 for each round of a poll, plus
  one, are shown to reach the end.

  What lies outside is a parameter: the allocator, page pinning and thread creation (\<open>kenv\<close>, with the
  contents of uninitialised memory), \<open>kthread_should_stop\<close> and \<open>wait_event_killable\<close> (\<open>kthread_env\<close>),
  \<open>kthread_stop\<close> and \<open>msleep\<close>, which let other threads run (\<open>sched_env\<close>), the SCI library (\<open>scilib\<close>),
  the driver core (\<open>devcore\<close>), the RDMA core (\<open>rdma_core\<close>) and its constants (\<open>rdma_consts\<close>). What
  a theorem needs of them is a named hypothesis, and its witness meets it with a concrete function. Macros
  and inline functions of the kernel that the code is written in (circular buffers, rounding to a power
  of two, container pointers) are in \<open>Kernel_Lib\<close> and \<open>Ring\<close>.

  The theories.

  \<^item> \<open>Prelude\<close>, \<open>Kernel_Lib\<close>: results that may fault, stores, arrays, words; the kernel's macros.
  \<^item> \<open>Ring\<close>: the arithmetic of a ring, the list it holds, its agreement with \<open>CIRC_CNT\<close> and
    \<open>CIRC_SPACE\<close> at machine width; locale \<open>bounded_queue\<close>, the contract of a bounded queue. \<open>Circ_Buf\<close>
    has the two access patterns of the code.
  \<^item> \<open>Key_Table\<close>: locale \<open>key_table\<close>, the contract of a table that hands out consecutive keys, which
    the objects it names carry.
  \<^item> \<open>Dis_Types\<close>, \<open>Heap\<close>: the structures and enumerations of \<open>dis_verbs.h\<close>; the store.
  \<^item> \<open>Completion_Queue\<close>: \<open>dis_create_cq\<close>, \<open>dis_destroy_cq\<close>, \<open>dis_poll_cq\<close>, \<open>dis_wq_post_sqe_cqe\<close>,
    \<open>dis_wq_post_rqe_cqe\<close>; a bounded queue (interpretation \<open>cqq\<close>).
  \<^item> \<open>Memory_Region\<close>: \<open>dis_alloc_pd\<close>, \<open>dis_get_dma_mr\<close>, \<open>dis_reg_user_mr\<close>, \<open>dis_dereg_mr\<close>; a key
    table (\<open>mrt\<close>).
  \<^item> \<open>Gather\<close>, \<open>Segments\<close>, \<open>Work_Queue\<close>: \<open>dis_qp_post_one_sqe\<close> and \<open>dis_qp_post_one_rqe\<close>; the reference
    they are proved against, one physical address per byte of the request (\<open>phys\<close>, \<open>request_bytes\<close>);
    bounded queues (\<open>sqq\<close>, \<open>rqq\<close>). \<open>post_prepare\<close> and \<open>post_publish\<close> are the halves of the posting
    routines, before and at the release of the head, for what happens when two callers overlap.
  \<^item> \<open>Sci_Interface\<close>: the functions of \<open>dis_sci_if.c\<close> and the message queue identifiers they compute.
  \<^item> \<open>Worker\<close>, \<open>Worker_Queue\<close>: the thread function \<open>dis_wq_thread\<close> with all it calls; that it ends when
    told to, and what it does to the work queue, the completion queue and the page maps.
    \<open>Thread_Points\<close>: what a thread still does from each place where it looks at the stop flag.
  \<^item> \<open>Queue_Pair\<close>, \<open>Qp_Lifecycle\<close>: \<open>dis_create_qp\<close>, \<open>dis_modify_qp\<close>, \<open>dis_destroy_qp\<close>,
    \<open>dis_post_send\<close>, \<open>dis_post_recv\<close>, \<open>dis_qp_init\<close>, \<open>dis_qp_notify\<close>, \<open>dis_qp_exit\<close>; a key table
    (\<open>qpt\<close>); creation, numbering, start and stop of the workers, destruction.
  \<^item> \<open>Request_Transfer\<close>: a request from posting to completion, all of the above together.
  \<^item> \<open>Shared_Receive\<close>, \<open>Device_Attributes\<close>: the shared receive queue operations, and the attributes of
    device and port.
  \<^item> \<open>Bus_Driver\<close>: loading and unloading of the bus, device and driver modules, probe and remove.
  \<^item> \<open>Ring_Concurrency\<close>: a queue accessed by several threads at once, as a transition system over single
    accesses to indices and slots (locale \<open>invariant_system\<close>, interpretation \<open>shared\<close>). \<open>Cq_Threads\<close>:
    \<open>dis_wq_post_sqe_cqe\<close> and \<open>dis_poll_cq\<close> as programs of single accesses to the store, down to the
    fields of an entry, equal to the operations of \<open>Completion_Queue\<close> when run alone and, interleaved,
    simulated by the ring (locale \<open>forward_simulation\<close>, interpretation \<open>cqr\<close>). \<open>Wq_Threads\<close>: the halves
    of the posting routines and the accesses of the worker as runs of the ring.

  What is shown. Functional theorems give the exact effect of posting, polling, draining and transferring;
  error theorems go through every early exit and say what is given back; invariants cover arbitrary
  sequences of operations (first-in first-out order, consecutive keys and numbers) and arbitrary
  interleavings; termination and liveness theorems say when the thread and its stopping end, and when not.
  Where the code does not do what it should, a theorem says exactly what it does: a page map is freed
  twice, a key is read past its table, a freed region stays reachable, parts of a message land on each
  other, an exit waits forever, two posters lose a request, removing a device uses a freed one.

  Bounds. A request has at most 1024 pages (\<open>DIS_MAX_IOVLEN\<close>), above which posting refuses it; regions
  of up to \<open>2 ^ 32\<close> pages and rings of up to \<open>2 ^ 31\<close> slots are covered, which is what their 32-bit
  counters and signed indices can hold.

  Not modelled: \<open>pr_devel\<close> printing and the release callbacks that only print; the delays between
  retries, which have no effect on the state; module metadata and object sizes for the RDMA core; the
  build of \<open>dis_sci_if.c\<close> with \<open>DIS_USE_DMA\<close>, which is off by default; the build files. Memory ordering
  weaker than sequential consistency is not modelled: the code uses acquire and release accesses for
  the indices. Threads other than the one running are seen through \<open>kthread_env\<close> and \<open>sched_env\<close> in the
  sequential theories and as steps of their own in the concurrent ones. The SCI library is assumed not
  to change the message descriptor (\<open>sci_msg\<close>) that it is passed by pointer.
\<close>

end
